(* ===== verification/Prelude.thy ===== *)
theory Prelude
  imports Main "HOL-Library.Word" "HOL-Library.Multiset" "HOL-Library.AList"
    "HOL-Library.List_Lexorder" "HOL-Library.Char_ord"
begin

unbundle bit_operations_syntax

text \<open>
  The vocabulary the components share: the machine-integer types of the Rust sources, the
  result type of fallible operations, the operations of the Rust standard library on
  vectors and deques that the sources call, and the generic list facts that the component
  proofs use.

  A Rust \<open>String\<close>, \<open>&str\<close> or \<open>Vec<u8>\<close> is a \<^typ>\<open>string\<close>: a list of
  characters, each of them one byte.  The order of \<open>str\<close> is the lexicographic order of the
  bytes, which is the order that \<open>List_Lexorder\<close> and \<open>Char_ord\<close> give to
  \<^typ>\<open>string\<close>.  A \<open>usize\<close> that counts elements in memory is a \<^typ>\<open>nat\<close>; a
  \<open>u64\<close> is a \<^typ>\<open>64 word\<close>; an \<open>i64\<close> is an \<^typ>\<open>int\<close> whose range
  is checked where the source checks it.
\<close>

named_theorems store_simps \<open>unfolding rules of the store operations\<close>
named_theorems map_laws \<open>observable laws of the concurrent map\<close>
named_theorems std_simps \<open>facts on the standard library functions\<close>

section \<open>Machine integers and results\<close>

type_synonym u8 = "8 word"
type_synonym u64 = "64 word"

type_synonym 'a res = "string + 'a"

abbreviation Err :: "string \<Rightarrow> 'a res" where
  "Err e \<equiv> Inl e"

abbreviation Ok :: "'a \<Rightarrow> 'a res" where
  "Ok a \<equiv> Inr a"

abbreviation WRONGTYPE :: string where
  "WRONGTYPE \<equiv> ''WRONGTYPE''"

definition i64_min :: int where
  "i64_min = - (2 ^ 63)"

definition i64_max :: int where
  "i64_max = 2 ^ 63 - 1"

definition in_i64 :: "int \<Rightarrow> bool" where
  "in_i64 n \<longleftrightarrow> i64_min \<le> n \<and> n \<le> i64_max"

text \<open>\<open>i64::checked_add\<close> and \<open>i64::checked_neg\<close>.\<close>

definition checked_add_i64 :: "int \<Rightarrow> int \<Rightarrow> int option" where
  "checked_add_i64 a b = (if in_i64 (a + b) then Some (a + b) else None)"

definition checked_neg_i64 :: "int \<Rightarrow> int option" where
  "checked_neg_i64 a = (if in_i64 (- a) then Some (- a) else None)"

text \<open>\<open>u64::checked_add\<close> and \<open>u64::checked_mul\<close>.\<close>

definition checked_add_u64 :: "u64 \<Rightarrow> u64 \<Rightarrow> u64 option" where
  "checked_add_u64 a b = (if unat a + unat b < 2 ^ 64 then Some (a + b) else None)"

definition checked_mul_u64 :: "u64 \<Rightarrow> u64 \<Rightarrow> u64 option" where
  "checked_mul_u64 a b = (if unat a * unat b < 2 ^ 64 then Some (a * b) else None)"

lemma in_i64_bounds: "in_i64 n \<longleftrightarrow> - 9223372036854775808 \<le> n \<and> n \<le> 9223372036854775807"
  by (simp add: in_i64_def i64_min_def i64_max_def)

lemma checked_add_i64_Some [simp]:
  "checked_add_i64 a b = Some c \<longleftrightarrow> c = a + b \<and> in_i64 (a + b)"
  by (auto simp: checked_add_i64_def)

lemma checked_add_i64_None [simp]:
  "checked_add_i64 a b = None \<longleftrightarrow> \<not> in_i64 (a + b)"
  by (auto simp: checked_add_i64_def)

lemma checked_neg_i64_None:
  "in_i64 a \<Longrightarrow> checked_neg_i64 a = None \<longleftrightarrow> a = i64_min"
  by (auto simp: checked_neg_i64_def in_i64_def i64_min_def i64_max_def)

section \<open>Vectors and deques\<close>

text \<open>
  \<open>position\<close> is \<open>Iterator::position\<close>; \<open>insert_at\<close> and \<open>remove_at\<close> are
  \<open>Vec::insert\<close> and \<open>Vec::remove\<close> (also of \<open>VecDeque\<close>); \<open>swap_elems\<close> is
  \<open>slice::swap\<close>; \<open>swap_remove\<close> is \<open>Vec::swap_remove\<close>.
\<close>

fun position :: "('a \<Rightarrow> bool) \<Rightarrow> 'a list \<Rightarrow> nat option" where
  "position P [] = None"
| "position P (x # xs) = (if P x then Some 0 else map_option Suc (position P xs))"

definition insert_at :: "nat \<Rightarrow> 'a \<Rightarrow> 'a list \<Rightarrow> 'a list" where
  "insert_at i x xs = take i xs @ x # drop i xs"

definition remove_at :: "nat \<Rightarrow> 'a list \<Rightarrow> 'a list" where
  "remove_at i xs = take i xs @ drop (Suc i) xs"

definition swap_elems :: "nat \<Rightarrow> nat \<Rightarrow> 'a list \<Rightarrow> 'a list" where
  "swap_elems i j xs = xs[i := xs ! j, j := xs ! i]"

definition swap_remove :: "nat \<Rightarrow> 'a list \<Rightarrow> 'a list" where
  "swap_remove i xs = butlast (xs[i := last xs])"

lemma position_None [simp]: "position P xs = None \<longleftrightarrow> (\<forall>x \<in> set xs. \<not> P x)"
  by (induction xs) auto

lemma position_Some:
  "position P xs = Some i \<longleftrightarrow> i < length xs \<and> P (xs ! i) \<and> (\<forall>j < i. \<not> P (xs ! j))"
proof (induction xs arbitrary: i)
  case Nil
  then show ?case by simp
next
  case (Cons x xs)
  show ?case
  proof (cases i)
    case 0
    then show ?thesis by auto
  next
    case (Suc k)
    with Cons show ?thesis by (auto simp: less_Suc_eq_0_disj)
  qed
qed

lemma position_lt: "position P xs = Some i \<Longrightarrow> i < length xs"
  by (simp add: position_Some)

lemma position_sat: "position P xs = Some i \<Longrightarrow> P (xs ! i)"
  by (simp add: position_Some)

lemma position_cong_set:
  "(\<And>x. x \<in> set xs \<Longrightarrow> P x = Q x) \<Longrightarrow> position P xs = position Q xs"
  by (induction xs) auto

lemma length_insert_at [simp]: "i \<le> length xs \<Longrightarrow> length (insert_at i x xs) = Suc (length xs)"
  by (simp add: insert_at_def)

lemma length_remove_at [simp]: "i < length xs \<Longrightarrow> length (remove_at i xs) = length xs - 1"
  by (simp add: remove_at_def)

lemma set_insert_at [simp]: "set (insert_at i x xs) = insert x (set xs)"
proof -
  have "set (insert_at i x xs) = insert x (set (take i xs @ drop i xs))"
    by (simp add: insert_at_def del: append_take_drop_id)
  then show ?thesis by simp
qed

lemma mset_insert_at [simp]: "mset (insert_at i x xs) = add_mset x (mset xs)"
proof -
  have "mset (insert_at i x xs) = add_mset x (mset (take i xs @ drop i xs))"
    by (simp add: insert_at_def del: append_take_drop_id)
  then show ?thesis by simp
qed

lemma remove_at_split:
  "i < length xs \<Longrightarrow> xs = take i xs @ xs ! i # drop (Suc i) xs"
  by (rule id_take_nth_drop)

lemma mset_remove_at [simp]:
  assumes "i < length xs"
  shows "mset (remove_at i xs) = mset xs - {#xs ! i#}"
proof -
  have "mset xs = mset (take i xs @ xs ! i # drop (Suc i) xs)"
    using remove_at_split [OF assms] by simp
  then show ?thesis by (simp add: remove_at_def)
qed

lemma set_remove_at_subset: "set (remove_at i xs) \<subseteq> set xs"
  using set_take_subset [of i xs] set_drop_subset [of "Suc i" xs] by (auto simp: remove_at_def)

lemma distinct_remove_at: "distinct xs \<Longrightarrow> distinct (remove_at i xs)"
proof (cases "i < length xs")
  case True
  assume d: "distinct xs"
  have "distinct (take i xs @ xs ! i # drop (Suc i) xs)"
    using d remove_at_split [OF True] by simp
  then show ?thesis by (simp add: remove_at_def)
next
  case False
  assume "distinct xs"
  with False show ?thesis by (simp add: remove_at_def)
qed

lemma set_remove_at_distinct:
  assumes "distinct xs" "i < length xs"
  shows "set (remove_at i xs) = set xs - {xs ! i}"
proof -
  have s: "xs = take i xs @ xs ! i # drop (Suc i) xs"
    using remove_at_split [OF assms(2)] .
  with assms(1) have "distinct (take i xs @ xs ! i # drop (Suc i) xs)" by simp
  then have "xs ! i \<notin> set (take i xs) \<union> set (drop (Suc i) xs)" by simp
  moreover have "set xs = insert (xs ! i) (set (take i xs) \<union> set (drop (Suc i) xs))"
    by (subst s) simp
  ultimately show ?thesis by (simp add: remove_at_def)
qed

lemma take_drop_takeWhile:
  "take (length (takeWhile P v)) v = takeWhile P v" "drop (length (takeWhile P v)) v = dropWhile P v"
  by (metis takeWhile_eq_take, metis dropWhile_eq_drop)

lemma mset_swap_remove:
  assumes "i < length xs"
  shows "mset (swap_remove i xs) = mset xs - {#xs ! i#}"
proof -
  let ?ys = "xs[i := last xs]"
  have ne: "?ys \<noteq> []" using assms by auto
  have l: "last ?ys = last xs"
    using assms by (cases "xs = []") (auto simp: last_conv_nth nth_list_update)
  have "mset ?ys = add_mset (last xs) (mset xs - {#xs ! i#})"
    using assms by (simp add: mset_update)
  moreover have "mset ?ys = add_mset (last ?ys) (mset (butlast ?ys))"
  proof -
    have "mset ?ys = mset (butlast ?ys @ [last ?ys])"
      by (metis ne append_butlast_last_id)
    then show ?thesis by simp
  qed
  ultimately show ?thesis by (simp add: swap_remove_def l)
qed

section \<open>Powers of two\<close>

text \<open>\<open>usize::next_power_of_two\<close>.\<close>

fun next_power_of_two :: "nat \<Rightarrow> nat" where
  "next_power_of_two n = (if n \<le> 1 then 1 else 2 * next_power_of_two ((n + 1) div 2))"

declare next_power_of_two.simps [simp del]

lemma next_power_of_two_ge: "n \<le> next_power_of_two n"
proof (induction n rule: next_power_of_two.induct)
  case (1 n)
  then show ?case by (subst next_power_of_two.simps) auto
qed

lemma next_power_of_two_power: "\<exists>k. next_power_of_two n = 2 ^ k"
proof (induction n rule: next_power_of_two.induct)
  case (1 n)
  show ?case
  proof (cases "n \<le> 1")
    case True
    then show ?thesis by (subst next_power_of_two.simps) (auto intro: exI [of _ 0])
  next
    case False
    with 1 obtain k where "next_power_of_two ((n + 1) div 2) = 2 ^ k" by auto
    with False have "next_power_of_two n = 2 ^ Suc k"
      by (subst next_power_of_two.simps) simp
    then show ?thesis by blast
  qed
qed

lemma next_power_of_two_pos [simp]: "0 < next_power_of_two n"
  using next_power_of_two_power [of n] by auto

lemma next_power_of_two_of_power: "next_power_of_two (2 ^ k) = 2 ^ k"
proof (induction k)
  case 0
  show ?case by (simp add: next_power_of_two.simps)
next
  case (Suc k)
  have "(2 ^ Suc k + 1) div 2 = (2 ^ k :: nat)" by simp
  moreover have "\<not> (2 ^ Suc k \<le> (1::nat))"
    using one_less_power [of "2::nat" "Suc k"] by (simp del: power_Suc)
  ultimately show ?case using Suc
    by (subst next_power_of_two.simps) (simp del: power_Suc, simp)
qed

lemma next_power_of_two_least: "n \<le> 2 ^ k \<Longrightarrow> next_power_of_two n \<le> 2 ^ k"
proof (induction n arbitrary: k rule: next_power_of_two.induct)
  case (1 n)
  show ?case
  proof (cases "n \<le> 1")
    case True
    then show ?thesis by (subst next_power_of_two.simps) auto
  next
    case False
    with "1.prems" obtain j where k: "k = Suc j" by (cases k) auto
    with "1.prems" have "(n + 1) div 2 \<le> 2 ^ j" by simp
    with False "1.IH" have "next_power_of_two ((n + 1) div 2) \<le> 2 ^ j" by blast
    with False k show ?thesis by (subst next_power_of_two.simps) simp
  qed
qed

lemma foldl_update_nth:
  "n \<le> length res \<Longrightarrow> foldl (\<lambda>r i. r[i := g (r ! i) i]) res [0..<n] = map (\<lambda>i. if i < n then g (res ! i) i else res ! i) [0..<length res]"
proof (induction n)
  case (Suc n)
  then show ?case by (auto intro!: nth_equalityI simp: nth_list_update)
qed (simp add: map_nth)

lemma take_bit_word_add:
  "take_bit n (take_bit n a + take_bit n (b :: 'a::len word)) = take_bit n (a + b)"
  by transfer (simp add: take_bit_add ac_simps)

text \<open>Probe sequences modulo a capacity, and masks of a power of two.\<close>

lemma and_pow2_minus_1: "n AND (2 ^ k - 1) = n mod (2 ^ k :: nat)"
proof -
  have "n AND (2 ^ k - 1) = n AND mask k" by (simp only: mask_eq_exp_minus_1)
  also have "\<dots> = take_bit k n" by (simp only: take_bit_eq_mask)
  finally show ?thesis by (simp only: take_bit_eq_mod)
qed

lemma offset_exists: "0 < c \<Longrightarrow> i < c \<Longrightarrow> \<exists>d<c. (a + d) mod c = (i :: nat)"
proof -
  assume c: "0 < c" and i: "i < c"
  let ?d = "(i + (c - a mod c)) mod c"
  have "(a + ?d) mod c = (a mod c + (i + (c - a mod c))) mod c" by (simp add: mod_simps)
  also have "a mod c + (i + (c - a mod c)) = i + c"
    using mod_less_divisor [OF c, of a] by linarith
  finally have "(a + ?d) mod c = i" using i by simp
  moreover have "?d < c" using c by simp
  ultimately show ?thesis by blast
qed

lemma offset_unique: "(a + d) mod c = (a + d') mod c \<Longrightarrow> d < c \<Longrightarrow> d' < c \<Longrightarrow> d = (d' :: nat)"
proof -
  have *: "d = d'" if "(a + d) mod c = (a + d') mod c" "d \<le> d'" "d' < c" for d d' :: nat
  proof -
    have "c dvd (a + d') - (a + d)" using that(1,2) by (metis mod_eq_dvd_iff_nat add_le_mono1 add.commute)
    then have "c dvd d' - d" by simp
    with that show ?thesis by (cases "d' - d = 0") (auto dest: dvd_imp_le)
  qed
  assume "(a + d) mod c = (a + d') mod c" "d < c" "d' < c"
  then show ?thesis using * [of d d'] * [of d' d] by (metis nat_le_linear)
qed

lemma map_filter_append: "List.map_filter f (xs @ ys) = List.map_filter f xs @ List.map_filter f ys"
  by (simp add: List.map_filter_def)

lemma map_filter_Nil: "List.map_filter f [] = []"
  by (simp add: List.map_filter_def)

lemma map_filter_Cons: "List.map_filter f (x # xs) =
  (case f x of None \<Rightarrow> List.map_filter f xs | Some y \<Rightarrow> y # List.map_filter f xs)"
  by (simp add: List.map_filter_def split: option.split)

lemma map_filter_cong:
  "(\<And>x. x \<in> set xs \<Longrightarrow> f x = g x) \<Longrightarrow> List.map_filter f xs = List.map_filter g xs"
  by (induction xs) (simp_all add: map_filter_Nil map_filter_Cons split: option.split)

lemma in_set_map_filter: "y \<in> set (List.map_filter f xs) \<longleftrightarrow> (\<exists>x\<in>set xs. f x = Some y)"
  by (induction xs) (auto simp: map_filter_Nil map_filter_Cons split: option.splits)

lemma length_map_filter_less:
  "length (List.map_filter f xs) < length xs \<Longrightarrow> \<exists>i<length xs. f (xs ! i) = None"
proof (induction xs)
  case (Cons x xs)
  then show ?case by (cases "f x") (force simp: map_filter_Cons)+
qed simp

section \<open>Sequences of operations and simulation\<close>

text \<open>A component is a step function from an operation and a state to a state and a result;
  \<open>run\<close> executes a list of operations and collects the results.\<close>

primrec run :: "('op \<Rightarrow> 's \<Rightarrow> 's \<times> 'r) \<Rightarrow> 'op list \<Rightarrow> 's \<Rightarrow> 's \<times> 'r list" where
  "run step [] s = (s, [])"
| "run step (op # ops) s = (let (s', r) = step op s; (s'', rs) = run step ops s' in (s'', r # rs))"

text \<open>The contract between a component and its specification: every operation keeps the
  component's invariant, commutes with the abstraction, and answers what the specification
  answers.  Then so does every sequence of operations.\<close>

locale guarded_simulation =
  fixes pre :: "'op \<Rightarrow> bool"
    and inv :: "'s \<Rightarrow> bool"
    and absf :: "'s \<Rightarrow> 'a"
    and step :: "'op \<Rightarrow> 's \<Rightarrow> 's \<times> 'r"
    and spec :: "'op \<Rightarrow> 'a \<Rightarrow> 'a \<times> 'r"
  assumes guarded_inv: "pre op \<Longrightarrow> inv s \<Longrightarrow> inv (fst (step op s))"
    and guarded_abs: "pre op \<Longrightarrow> inv s \<Longrightarrow> absf (fst (step op s)) = fst (spec op (absf s))"
    and guarded_res: "pre op \<Longrightarrow> inv s \<Longrightarrow> snd (step op s) = snd (spec op (absf s))"
begin

lemma guarded_run:
  "list_all pre ops \<Longrightarrow> inv s \<Longrightarrow> inv (fst (run step ops s)) \<and> absf (fst (run step ops s)) = fst (run spec ops (absf s))
     \<and> snd (run step ops s) = snd (run spec ops (absf s))"
proof (induction ops arbitrary: s)
  case (Cons op ops)
  have pre: "pre op" "list_all pre ops" using Cons.prems by simp_all
  from Cons.IH [OF pre(2) guarded_inv [OF pre(1) Cons.prems(2)]] guarded_abs [OF pre(1) Cons.prems(2)]
    guarded_res [OF pre(1) Cons.prems(2)]
  show ?case by (simp add: Let_def split_beta)
qed simp

end

text \<open>A component whose operations need no guard.\<close>

locale simulation =
  fixes inv :: "'s \<Rightarrow> bool"
    and absf :: "'s \<Rightarrow> 'a"
    and step :: "'op \<Rightarrow> 's \<Rightarrow> 's \<times> 'r"
    and spec :: "'op \<Rightarrow> 'a \<Rightarrow> 'a \<times> 'r"
  assumes step_inv: "inv s \<Longrightarrow> inv (fst (step op s))"
    and step_abs: "inv s \<Longrightarrow> absf (fst (step op s)) = fst (spec op (absf s))"
    and step_res: "inv s \<Longrightarrow> snd (step op s) = snd (spec op (absf s))"

sublocale simulation \<subseteq> guarded_simulation "\<lambda>_. True" inv absf step spec
  by unfold_locales (simp_all add: step_inv step_abs step_res)

context simulation
begin

lemma run_sim:
  "inv s \<Longrightarrow> inv (fst (run step ops s)) \<and> absf (fst (run step ops s)) = fst (run spec ops (absf s))
     \<and> snd (run step ops s) = snd (run spec ops (absf s))"
  by (rule guarded_run) (simp_all add: list_all_iff)

lemma run_results: "inv s \<Longrightarrow> snd (run step ops s) = snd (run spec ops (absf s))"
  by (simp add: run_sim)

lemma run_inv: "inv s \<Longrightarrow> inv (fst (run step ops s))"
  by (simp add: run_sim)

lemma run_abs: "inv s \<Longrightarrow> absf (fst (run step ops s)) = fst (run spec ops (absf s))"
  by (simp add: run_sim)

end

end
