(* ===== verification/Rust_Std.thy ===== *)
theory Rust_Std
  imports Prelude
begin

text \<open>
  The parts of the Rust standard library that the sources call and whose result matters
  for the properties: decimal printing and parsing of integers (\<open>to_string\<close>,
  \<open>parse::<i64>\<close>, \<open>parse::<u64>\<close>), the binary search of slices
  (\<open>binary_search_by\<close>, \<open>partition_point\<close>) and the UTF-8 check of
  \<open>String::from_utf8\<close>.
\<close>

section \<open>Decimal numbers\<close>

definition digit_char :: "nat \<Rightarrow> char" where
  "digit_char d = char_of (48 + d)"

definition is_ascii_digit :: "char \<Rightarrow> bool" where
  "is_ascii_digit c \<longleftrightarrow> 48 \<le> (of_char c :: nat) \<and> (of_char c :: nat) \<le> 57"

definition digit_val :: "char \<Rightarrow> nat" where
  "digit_val c = of_char c - 48"

fun nat_to_string :: "nat \<Rightarrow> string" where
  "nat_to_string n =
     (if n < 10 then [digit_char n] else nat_to_string (n div 10) @ [digit_char (n mod 10)])"

definition int_to_string :: "int \<Rightarrow> string" where
  "int_to_string n =
     (if n < 0 then CHR ''-'' # nat_to_string (nat (- n)) else nat_to_string (nat n))"

definition u64_to_string :: "u64 \<Rightarrow> string" where
  "u64_to_string w = nat_to_string (unat w)"

fun parse_digits_acc :: "nat \<Rightarrow> string \<Rightarrow> nat option" where
  "parse_digits_acc acc [] = Some acc"
| "parse_digits_acc acc (c # cs) =
     (if is_ascii_digit c then parse_digits_acc (acc * 10 + digit_val c) cs else None)"

definition parse_digits :: "string \<Rightarrow> nat option" where
  "parse_digits s = (if s = [] then None else parse_digits_acc 0 s)"

text \<open>
  An optional sign, at least one digit, nothing else; a value out of range is an error.
  An unsigned type takes a plus sign but no minus sign.
\<close>

definition parse_i64 :: "string \<Rightarrow> int option" where
  "parse_i64 s =
     (case s of
        [] \<Rightarrow> None
      | c # cs \<Rightarrow>
          if c = CHR ''-'' then
            (case parse_digits cs of
               None \<Rightarrow> None
             | Some n \<Rightarrow> if in_i64 (- int n) then Some (- int n) else None)
          else
            (case parse_digits (if c = CHR ''+'' then cs else s) of
               None \<Rightarrow> None
             | Some n \<Rightarrow> if in_i64 (int n) then Some (int n) else None))"

definition parse_u64 :: "string \<Rightarrow> u64 option" where
  "parse_u64 s =
     (case s of
        [] \<Rightarrow> None
      | c # cs \<Rightarrow>
          (case parse_digits (if c = CHR ''+'' then cs else s) of
             None \<Rightarrow> None
           | Some n \<Rightarrow> if n < 2 ^ 64 then Some (word_of_nat n) else None))"

declare nat_to_string.simps [simp del]

lemma digit_char_numeral [simp]:
  "digit_char 0 = CHR ''0''" "digit_char (Suc 0) = CHR ''1''" "digit_char 2 = CHR ''2''"
  "digit_char 3 = CHR ''3''" "digit_char 4 = CHR ''4''" "digit_char 5 = CHR ''5''"
  "digit_char 6 = CHR ''6''" "digit_char 7 = CHR ''7''" "digit_char 8 = CHR ''8''"
  "digit_char 9 = CHR ''9''"
  by code_simp+

lemma of_char_digit_char [simp]: "d < 10 \<Longrightarrow> of_char (digit_char d) = 48 + d"
  by (simp add: digit_char_def)

lemma is_ascii_digit_digit_char [simp]: "d < 10 \<Longrightarrow> is_ascii_digit (digit_char d)"
  by (simp add: is_ascii_digit_def)

lemma digit_val_digit_char [simp]: "d < 10 \<Longrightarrow> digit_val (digit_char d) = d"
  by (simp add: digit_val_def)

lemma not_digit_sign [simp]:
  "\<not> is_ascii_digit (CHR ''-'')" "\<not> is_ascii_digit (CHR ''+'')"
  by (simp_all add: is_ascii_digit_def)

lemma nat_to_string_digit [simp]: "n < 10 \<Longrightarrow> nat_to_string n = [digit_char n]"
  by (subst nat_to_string.simps) simp

lemma nat_to_string_step:
  "10 \<le> n \<Longrightarrow> nat_to_string n = nat_to_string (n div 10) @ [digit_char (n mod 10)]"
  by (subst nat_to_string.simps) simp

lemma parse_digits_acc_append:
  "parse_digits_acc a (xs @ ys) = Option.bind (parse_digits_acc a xs) (\<lambda>b. parse_digits_acc b ys)"
  by (induction xs arbitrary: a) auto

lemma nat_to_string_digits: "c \<in> set (nat_to_string n) \<Longrightarrow> is_ascii_digit c"
proof (induction n rule: nat_to_string.induct)
  case (1 n)
  then show ?case
    by (cases "n < 10") (auto simp: nat_to_string.simps [of n])
qed

lemma nat_to_string_nonempty [simp]: "nat_to_string n \<noteq> []"
  by (subst nat_to_string.simps) simp

lemma parse_digits_acc_nat_to_string: "parse_digits_acc 0 (nat_to_string n) = Some n"
proof (induction n rule: nat_to_string.induct)
  case (1 n)
  show ?case
  proof (cases "n < 10")
    case True
    then show ?thesis by (subst nat_to_string.simps) simp
  next
    case False
    with 1 have "parse_digits_acc 0 (nat_to_string (n div 10)) = Some (n div 10)" by simp
    with False show ?thesis
      by (subst nat_to_string.simps) (simp add: parse_digits_acc_append)
  qed
qed

lemma parse_digits_nat_to_string [simp]: "parse_digits (nat_to_string n) = Some n"
  by (simp add: parse_digits_def parse_digits_acc_nat_to_string)

lemma nat_to_string_inject [simp]: "nat_to_string m = nat_to_string n \<longleftrightarrow> m = n"
  by (metis option.inject parse_digits_nat_to_string)

lemma nat_to_string_head:
  obtains c cs where "nat_to_string n = c # cs" "is_ascii_digit c"
proof (cases "nat_to_string n")
  case Nil
  then show ?thesis by simp
next
  case (Cons c cs)
  then have "is_ascii_digit c" using nat_to_string_digits [of c n] by simp
  with Cons that show ?thesis by blast
qed

lemma parse_i64_int_to_string: "in_i64 n \<Longrightarrow> parse_i64 (int_to_string n) = Some n"
proof (cases "n < 0")
  case True
  assume "in_i64 n"
  with True show ?thesis by (simp add: int_to_string_def parse_i64_def)
next
  case False
  assume r: "in_i64 n"
  obtain c cs where s: "nat_to_string (nat n) = c # cs" and d: "is_ascii_digit c"
    by (rule nat_to_string_head)
  have "parse_digits (c # cs) = Some (nat n)"
    using s by (metis parse_digits_nat_to_string)
  moreover have "c \<noteq> CHR ''-''" "c \<noteq> CHR ''+''" using d not_digit_sign by blast+
  ultimately show ?thesis using False r s by (simp add: int_to_string_def parse_i64_def)
qed

lemma parse_i64_in_range: "parse_i64 s = Some n \<Longrightarrow> in_i64 n"
  by (auto simp: parse_i64_def split: list.splits if_splits option.splits)

lemma parse_u64_to_string [simp]: "parse_u64 (u64_to_string w) = Some w"
proof -
  obtain c cs where s: "nat_to_string (unat w) = c # cs" and d: "is_ascii_digit c"
    by (rule nat_to_string_head)
  have "parse_digits (c # cs) = Some (unat w)"
    using s by (metis parse_digits_nat_to_string)
  moreover have "c \<noteq> CHR ''+''" using d not_digit_sign by blast
  moreover have "unat w < 2 ^ 64" using unsigned_less [of w, where ?'a = nat] by simp
  ultimately show ?thesis using s by (simp add: u64_to_string_def parse_u64_def)
qed

lemma int_to_string_inject:
  "in_i64 m \<Longrightarrow> in_i64 n \<Longrightarrow> int_to_string m = int_to_string n \<longleftrightarrow> m = n"
  by (metis option.inject parse_i64_int_to_string)

section \<open>Binary search\<close>

datatype ordering = Less | Equal | Greater

definition compare_int :: "int \<Rightarrow> int \<Rightarrow> ordering" where
  "compare_int a b = (if a < b then Less else if a = b then Equal else Greater)"

text \<open>
  \<open>slice::binary_search_by\<close>: the window \<open>[base, base + size)\<close> is halved until
  one element is left; that element decides the answer.  \<^term>\<open>Inr i\<close> is \<open>Ok(i)\<close>,
  \<^term>\<open>Inl i\<close> is \<open>Err(i)\<close>.
\<close>

function bs_loop :: "('a \<Rightarrow> ordering) \<Rightarrow> 'a list \<Rightarrow> nat \<Rightarrow> nat \<Rightarrow> nat" where
  "bs_loop cmp xs base sz =
     (if 1 < sz then
        bs_loop cmp xs
          (if cmp (xs ! (base + sz div 2)) = Greater then base else base + sz div 2)
          (sz - sz div 2)
      else base)"
  by pat_completeness auto
termination
  by (relation "measure (\<lambda>(cmp, xs, base, sz). sz)") auto

definition binary_search_by :: "('a \<Rightarrow> ordering) \<Rightarrow> 'a list \<Rightarrow> nat + nat" where
  "binary_search_by cmp xs =
     (if xs = [] then Inl 0
      else let base = bs_loop cmp xs 0 (length xs)
           in (case cmp (xs ! base) of
                 Equal \<Rightarrow> Inr base
               | Less \<Rightarrow> Inl (base + 1)
               | Greater \<Rightarrow> Inl base))"

definition partition_point :: "('a \<Rightarrow> bool) \<Rightarrow> 'a list \<Rightarrow> nat" where
  "partition_point P xs =
     (case binary_search_by (\<lambda>x. if P x then Less else Greater) xs of Inr i \<Rightarrow> i | Inl i \<Rightarrow> i)"

declare bs_loop.simps [simp del]

definition split_at_index :: "('a \<Rightarrow> bool) \<Rightarrow> 'a list \<Rightarrow> nat \<Rightarrow> bool" where
  "split_at_index P xs k \<longleftrightarrow> k \<le> length xs \<and> (\<forall>i < length xs. P (xs ! i) \<longleftrightarrow> i < k)"

lemma bs_loop_split:
  assumes "split_at_index (\<lambda>x. cmp x \<noteq> Greater) xs k"
    and "1 \<le> sz" "base + sz \<le> length xs" "base = 0 \<or> base < k" "k \<le> base + sz"
  shows "bs_loop cmp xs base sz = k - 1"
  using assms
proof (induction cmp xs base sz rule: bs_loop.induct)
  case (1 cmp xs base sz)
  show ?case
  proof (cases "1 < sz")
    case False
    with "1.prems" show ?thesis by (subst bs_loop.simps) auto
  next
    case True
    let ?m = "base + sz div 2"
    have m: "?m < length xs" using "1.prems"(3) True by simp
    then have cm: "cmp (xs ! ?m) \<noteq> Greater \<longleftrightarrow> ?m < k"
      using "1.prems"(1) by (simp add: split_at_index_def)
    have "bs_loop cmp xs (if cmp (xs ! ?m) = Greater then base else ?m) (sz - sz div 2) = k - 1"
      by (rule "1.IH" [OF True "1.prems"(1)]) (use "1.prems" True cm in \<open>auto split: if_splits\<close>)
    with True show ?thesis by (subst bs_loop.simps) simp
  qed
qed

lemma partition_point_split:
  assumes "split_at_index P xs k"
  shows "partition_point P xs = k"
proof (cases "xs = []")
  case True
  with assms show ?thesis
    by (simp add: partition_point_def binary_search_by_def split_at_index_def)
next
  case False
  let ?cmp = "\<lambda>x. if P x then Less else Greater"
  have s: "split_at_index (\<lambda>x. ?cmp x \<noteq> Greater) xs k"
    using assms by (simp add: split_at_index_def)
  have b: "bs_loop ?cmp xs 0 (length xs) = k - 1"
    by (rule bs_loop_split [OF s]) (use False assms in \<open>auto simp: split_at_index_def Suc_le_eq\<close>)
  have "k - 1 < length xs" using False assms
    by (auto simp: split_at_index_def intro: le_less_trans)
  then have "P (xs ! (k - 1)) \<longleftrightarrow> k - 1 < k"
    using assms by (simp add: split_at_index_def)
  with b False show ?thesis
    by (cases k) (auto simp: partition_point_def binary_search_by_def)
qed

lemma split_at_index_sorted:
  assumes "sorted_wrt (\<lambda>x y. P y \<longrightarrow> P x) xs"
  shows "split_at_index P xs (length (takeWhile P xs))"
  unfolding split_at_index_def
proof (intro conjI allI impI iffI)
  show "length (takeWhile P xs) \<le> length xs" by (rule length_takeWhile_le)
next
  fix i assume i: "i < length xs" and p: "P (xs ! i)"
  show "i < length (takeWhile P xs)"
  proof (rule ccontr)
    assume "\<not> ?thesis"
    then have le: "length (takeWhile P xs) \<le> i" by simp
    let ?j = "length (takeWhile P xs)"
    have j: "?j < length xs" using le i by simp
    have nP: "\<not> P (xs ! ?j)" using j by (rule nth_length_takeWhile)
    have "P (xs ! ?j)"
    proof (cases "?j = i")
      case True
      then show ?thesis using p by simp
    next
      case False
      with le have "?j < i" by simp
      with assms i p show ?thesis by (simp add: sorted_wrt_iff_nth_less)
    qed
    with nP show False ..
  qed
next
  fix i assume "i < length xs" and "i < length (takeWhile P xs)"
  then show "P (xs ! i)" by (metis nth_mem set_takeWhileD takeWhile_nth)
qed

lemma partition_point_sorted [std_simps]:
  "sorted_wrt (\<lambda>x y. P y \<longrightarrow> P x) xs \<Longrightarrow> partition_point P xs = length (takeWhile P xs)"
  by (rule partition_point_split [OF split_at_index_sorted])

text \<open>On a strictly ascending vector of integers, the search is exact.\<close>

lemma sorted_distinct_nth_less:
  "sorted xs \<Longrightarrow> distinct xs \<Longrightarrow> i < j \<Longrightarrow> j < length xs \<Longrightarrow> xs ! i < (xs ! j :: int)"
  by (metis dual_order.strict_iff_order less_trans nth_eq_iff_index_eq sorted_nth_mono less_imp_le)

lemma binary_search_int:
  fixes xs :: "int list"
  assumes sd: "sorted xs" "distinct xs"
  shows "binary_search_by (\<lambda>x. compare_int x n) xs =
    (if n \<in> set xs then Inr (length (takeWhile (\<lambda>x. x < n) xs))
     else Inl (length (takeWhile (\<lambda>x. x < n) xs)))"
proof (cases "xs = []")
  case True
  then show ?thesis by (simp add: binary_search_by_def)
next
  case False
  let ?cmp = "\<lambda>x. compare_int x n"
  let ?k = "length (takeWhile (\<lambda>x. x \<le> n) xs)" and ?l = "length (takeWhile (\<lambda>x. x < n) xs)"
  have ng: "?cmp x \<noteq> Greater \<longleftrightarrow> x \<le> n" for x by (auto simp: compare_int_def)
  have "sorted_wrt (\<lambda>x y. y \<le> n \<longrightarrow> x \<le> n) xs"
    by (rule sorted_wrt_mono_rel [OF _ sd(1)]) auto
  then have sk: "split_at_index (\<lambda>x. x \<le> n) xs ?k" by (rule split_at_index_sorted)
  have "sorted_wrt (\<lambda>x y. y < n \<longrightarrow> x < n) xs"
    by (rule sorted_wrt_mono_rel [OF _ sd(1)]) auto
  then have sl: "split_at_index (\<lambda>x. x < n) xs ?l" by (rule split_at_index_sorted)
  have "split_at_index (\<lambda>x. ?cmp x \<noteq> Greater) xs ?k"
    using sk by (simp add: ng)
  then have b: "bs_loop ?cmp xs 0 (length xs) = ?k - 1"
    by (rule bs_loop_split) (use False in \<open>auto simp: Suc_le_eq length_takeWhile_le\<close>)
  have lk: "?l \<le> ?k"
  proof (rule ccontr)
    assume "\<not> ?thesis"
    then have k: "?k < ?l" by simp
    moreover have "?l \<le> length xs" by (rule length_takeWhile_le)
    ultimately have "xs ! ?k < n" "\<not> xs ! ?k \<le> n"
      using sk sl by (auto simp: split_at_index_def)
    then show False by simp
  qed
  have kl: "?k \<le> Suc ?l"
  proof (rule ccontr)
    assume "\<not> ?thesis"
    then have "Suc ?l < ?k" by simp
    moreover have "?k \<le> length xs" by (rule length_takeWhile_le)
    ultimately have "\<not> xs ! ?l < n" "xs ! Suc ?l \<le> n" "xs ! ?l < xs ! Suc ?l"
      using sk sl sd by (auto simp: split_at_index_def intro: sorted_distinct_nth_less)
    then show False by simp
  qed
  show ?thesis
  proof (cases "n \<in> set xs")
    case True
    then obtain i where i: "i < length xs" "xs ! i = n" by (auto simp: in_set_conv_nth)
    then have "i < ?k" "\<not> i < ?l" using sk sl by (auto simp: split_at_index_def)
    with lk kl have "?k = Suc ?l" "i = ?l" by simp_all
    with i b False True show ?thesis
      by (simp add: binary_search_by_def compare_int_def)
  next
    case nin: False
    have kl2: "?k = ?l"
    proof (rule ccontr)
      assume "?k \<noteq> ?l"
      with lk kl have "?k = Suc ?l" by simp
      moreover have "?k \<le> length xs" by (rule length_takeWhile_le)
      ultimately have "xs ! ?l \<le> n" "\<not> xs ! ?l < n" "?l < length xs"
        using sk sl by (auto simp: split_at_index_def)
      then show False using nin nth_mem [of ?l xs] by force
    qed
    show ?thesis
    proof (cases "?l = 0")
      case True
      then have "\<not> xs ! 0 < n" using sl False by (auto simp: split_at_index_def)
      moreover have "xs ! 0 \<noteq> n" using nin False by (metis length_greater_0_conv nth_mem)
      ultimately show ?thesis using b False nin True kl2
        by (simp add: binary_search_by_def compare_int_def)
    next
      case pos: False
      then have "?l - 1 < ?l" "?l - 1 < length xs"
        using length_takeWhile_le [of "\<lambda>x. x < n" xs] by linarith+
      then have "xs ! (?l - 1) < n" using sl by (simp only: split_at_index_def)
      then show ?thesis using b False nin pos kl2
        by (simp add: binary_search_by_def compare_int_def)
    qed
  qed
qed

section \<open>UTF-8\<close>

text \<open>
  The check of \<open>String::from_utf8\<close>: the well-formed byte sequences of the Unicode
  standard (no overlong forms, no surrogates, nothing above U+10FFFF).
\<close>

definition byte_in :: "nat \<Rightarrow> nat \<Rightarrow> char \<Rightarrow> bool" where
  "byte_in lo hi c \<longleftrightarrow> lo \<le> of_char c \<and> of_char c \<le> hi"

definition utf8_char_width :: "char \<Rightarrow> nat" where
  "utf8_char_width a =
     (if byte_in 0x00 0x7F a then 1
      else if byte_in 0xC2 0xDF a then 2
      else if byte_in 0xE0 0xEF a then 3
      else if byte_in 0xF0 0xF4 a then 4
      else 0)"

fun utf8_tail_ok :: "string \<Rightarrow> bool" where
  "utf8_tail_ok [a] = True"
| "utf8_tail_ok [a, b] = byte_in 0x80 0xBF b"
| "utf8_tail_ok [a, b, c] =
     (byte_in (if byte_in 0xE0 0xE0 a then 0xA0 else 0x80)
              (if byte_in 0xED 0xED a then 0x9F else 0xBF) b \<and> byte_in 0x80 0xBF c)"
| "utf8_tail_ok [a, b, c, d] =
     (byte_in (if byte_in 0xF0 0xF0 a then 0x90 else 0x80)
              (if byte_in 0xF4 0xF4 a then 0x8F else 0xBF) b \<and>
      byte_in 0x80 0xBF c \<and> byte_in 0x80 0xBF d)"
| "utf8_tail_ok _ = False"

text \<open>\<open>utf8_step\<close> drops the first encoded character.\<close>

definition utf8_step :: "string \<Rightarrow> string option" where
  "utf8_step s =
     (case s of
        [] \<Rightarrow> None
      | a # _ \<Rightarrow>
          let w = utf8_char_width a
          in if w \<noteq> 0 \<and> w \<le> length s \<and> utf8_tail_ok (take w s) then Some (drop w s) else None)"

lemma utf8_step_length: "utf8_step s = Some r \<Longrightarrow> length r < length s"
  by (cases s) (auto simp: utf8_step_def Let_def split: if_split_asm)

lemma utf8_step_append: "utf8_step xs = Some r \<Longrightarrow> utf8_step (xs @ ys) = Some (r @ ys)"
proof -
  assume st: "utf8_step xs = Some r"
  then obtain a t where xs: "xs = a # t" by (cases xs) (auto simp: utf8_step_def)
  let ?w = "utf8_char_width a"
  from st have w: "?w \<noteq> 0" "?w \<le> length xs" "utf8_tail_ok (take ?w xs)" and r: "r = drop ?w xs"
    by (auto simp: utf8_step_def Let_def xs split: if_split_asm)
  have "take ?w (xs @ ys) = take ?w xs" "drop ?w (xs @ ys) = r @ ys"
    using w(2) r by simp_all
  with w show ?thesis by (simp add: utf8_step_def Let_def xs)
qed

function valid_utf8 :: "string \<Rightarrow> bool" where
  "valid_utf8 s =
     (s = [] \<or> (case utf8_step s of None \<Rightarrow> False | Some r \<Rightarrow> valid_utf8 r))"
  by pat_completeness auto
termination
  by (relation "measure length") (auto simp: utf8_step_length)

declare valid_utf8.simps [simp del]

lemma valid_utf8_Nil [simp]: "valid_utf8 []"
  by (subst valid_utf8.simps) simp

lemma valid_utf8_append: "valid_utf8 xs \<Longrightarrow> valid_utf8 ys \<Longrightarrow> valid_utf8 (xs @ ys)"
proof (induction xs rule: valid_utf8.induct)
  case (1 s)
  show ?case
  proof (cases "s = []")
    case True
    with "1.prems" show ?thesis by simp
  next
    case False
    with "1.prems"(1) obtain r where r: "utf8_step s = Some r" "valid_utf8 r"
      by (subst (asm) valid_utf8.simps) (auto split: option.splits)
    with "1.IH" [OF r(1) r(2) "1.prems"(2)] False show ?thesis
      by (subst valid_utf8.simps) (simp add: utf8_step_append)
  qed
qed

lemma valid_utf8_ascii_Cons [simp]: "byte_in 0 127 c \<Longrightarrow> valid_utf8 (c # s) = valid_utf8 s"
  by (subst valid_utf8.simps) (simp add: utf8_step_def utf8_char_width_def)

lemma valid_utf8_ascii: "\<forall>c \<in> set s. byte_in 0 127 c \<Longrightarrow> valid_utf8 s"
  by (induction s) auto

section \<open>Integers as bytes\<close>

text \<open>\<open>to_le_bytes\<close> and \<open>from_le_bytes\<close> at any width, and the native order of a target.\<close>

primrec le_bytes :: "nat \<Rightarrow> nat \<Rightarrow> string" where
  "le_bytes 0 n = []"
| "le_bytes (Suc w) n = char_of (n mod 256) # le_bytes w (n div 256)"

primrec of_le_bytes :: "string \<Rightarrow> nat" where
  "of_le_bytes [] = 0"
| "of_le_bytes (b # bs) = of_char b + 256 * of_le_bytes bs"

definition to_ne_bytes :: "bool \<Rightarrow> nat \<Rightarrow> string" where
  "to_ne_bytes little n = (if little then le_bytes 8 n else rev (le_bytes 8 n))"

definition from_ne_bytes :: "bool \<Rightarrow> string \<Rightarrow> nat" where
  "from_ne_bytes little bs = of_le_bytes (if little then bs else rev bs)"

lemma length_le_bytes [simp]: "length (le_bytes w n) = w"
  by (induction w arbitrary: n) simp_all

lemma length_to_ne_bytes [simp]: "length (to_ne_bytes little n) = 8"
  by (simp add: to_ne_bytes_def)

lemma of_le_bytes_le_bytes [std_simps]: "of_le_bytes (le_bytes w n) = n mod 256 ^ w"
proof (induction w arbitrary: n)
  case (Suc w)
  then show ?case by (simp add: mod_mult2_eq)
qed simp

lemma of_le_bytes_append: "of_le_bytes (xs @ ys) = of_le_bytes xs + 256 ^ length xs * of_le_bytes ys"
  by (induction xs) (simp_all add: algebra_simps)

lemma of_char_less_256: "of_char b < (256 :: nat)"
  by (metis of_char_mod_256 mod_less_divisor zero_less_numeral)

lemma digit_bound: "(b :: nat) < 256 \<Longrightarrow> x < n \<Longrightarrow> b + 256 * x < 256 * n"
  by simp

lemma of_le_bytes_bound: "of_le_bytes bs < 256 ^ length bs"
  by (induction bs) (simp_all add: digit_bound of_char_less_256 del: of_char_mod_256)

lemma le_bytes_of_le_bytes [std_simps]: "length bs = w \<Longrightarrow> le_bytes w (of_le_bytes bs) = bs"
proof (induction bs arbitrary: w)
  case (Cons b bs)
  have lt: "of_char b < (256 :: nat)" by (rule of_char_less_256)
  have "(of_char b + 256 * of_le_bytes bs) div 256 = of_le_bytes bs" using lt by simp
  moreover have "(of_char b + 256 * of_le_bytes bs) mod 256 = of_char b" using lt by simp
  ultimately show ?case using Cons by auto
qed simp

lemma from_to_ne_bytes [std_simps]: "n < 2 ^ 64 \<Longrightarrow> from_ne_bytes little (to_ne_bytes little n) = n"
  by (simp add: from_ne_bytes_def to_ne_bytes_def of_le_bytes_le_bytes)

lemma take_le_bytes: "k \<le> w \<Longrightarrow> take k (le_bytes w n) = le_bytes k n"
proof (induction w arbitrary: k n)
  case (Suc w)
  then show ?case by (cases k) simp_all
qed simp

section \<open>Ordered maps\<close>

text \<open>A \<open>BTreeMap\<close> is the list of its pairs in ascending order of the keys.\<close>

fun bt_insert :: "'k :: linorder \<Rightarrow> 'v \<Rightarrow> ('k \<times> 'v) list \<Rightarrow> ('k \<times> 'v) list" where
  "bt_insert k v [] = [(k, v)]"
| "bt_insert k v ((k', v') # xs) =
     (if k < k' then (k, v) # (k', v') # xs else if k = k' then (k, v) # xs else (k', v') # bt_insert k v xs)"

definition bt_wf :: "('k :: linorder \<times> 'v) list \<Rightarrow> bool" where
  "bt_wf xs \<longleftrightarrow> sorted_wrt (<) (map fst xs)"

text \<open>\<open>BTreeMap::range\<close> over a closed range panics when its start is above its end.\<close>

definition bt_range :: "('k :: linorder \<times> 'v) list \<Rightarrow> 'k \<Rightarrow> 'k \<Rightarrow> ('k \<times> 'v) list option" where
  "bt_range xs lo hi = (if hi < lo then None else Some (filter (\<lambda>(k, v). lo \<le> k \<and> k \<le> hi) xs))"

lemma bt_insert_set: "set (map fst (bt_insert k v xs)) = insert k (set (map fst xs))"
proof (induction xs)
  case (Cons p xs)
  then show ?case by (cases p) (simp add: insert_commute)
qed simp

lemma bt_insert_wf: "bt_wf xs \<Longrightarrow> bt_wf (bt_insert k v xs)"
proof (induction xs)
  case (Cons p xs)
  obtain k' v' where p: "p = (k', v')" by (cases p)
  from Cons have IH: "bt_wf (bt_insert k v xs)" and less: "\<forall>x\<in>set (map fst xs). k' < x" and wf: "bt_wf xs"
    by (auto simp: bt_wf_def p)
  have "\<forall>x\<in>set (map fst (bt_insert k v xs)). k' < x" if "k' < k"
    using that less unfolding bt_insert_set by auto
  moreover have "\<forall>x\<in>set (map fst xs). k < x" if "k < k'" using that less by (auto intro: less_trans)
  ultimately show ?case using IH less wf by (auto simp: p bt_wf_def)
qed (simp add: bt_wf_def)

lemma bt_insert_map: "bt_wf xs \<Longrightarrow> map_of (bt_insert k v xs) = (map_of xs)(k \<mapsto> v)"
proof (induction xs)
  case (Cons p xs)
  then show ?case by (cases p) (auto simp: bt_wf_def fun_eq_iff)
qed simp

lemma bt_insert_last: "\<forall>e\<in>set xs. fst e < k \<Longrightarrow> bt_insert k v xs = xs @ [(k, v)]"
  by (induction xs) (auto simp: not_less_iff_gr_or_eq)

lemma bt_delete_wf: "bt_wf xs \<Longrightarrow> bt_wf (AList.delete k xs)"
  by (simp add: bt_wf_def AList.delete_eq sorted_wrt_map sorted_wrt_filter)

end
