(* ===== verification/Small_Str.thy ===== *)
theory Small_Str
  imports Rust_Std
begin

text \<open>
  The two string types that keep up to fifteen bytes in place and longer strings in a heap block:
  \<open>SmallStr\<close> (\<open>src/src/storage/value/small_str.rs\<close>) for values and \<open>CompactKey\<close>
  (\<open>src/crates/customhash/src/key.rs\<close>) for keys.  Both pack the block's address and length into the
  fifteen bytes.  The heap is a map from addresses to blocks; the address a new block gets is an
  argument, chosen by the allocator.  Reading or freeing memory that is not a live block of the
  expected size is undefined behaviour in the source and \<^const>\<open>None\<close> here.  The byte order of the
  target is the argument \<open>little\<close>.
\<close>

type_synonym heap = "u64 \<Rightarrow> string option"

record small_str =
  data :: string
  len :: u8

definition SMALL_STR_CAP :: nat where "SMALL_STR_CAP = 15"

definition zero_data :: string where
  "zero_data = replicate SMALL_STR_CAP (char_of (0 :: nat))"

text \<open>\<open>copy_from_slice\<close> into a sub-range of a byte array.\<close>

definition copy_into :: "string \<Rightarrow> nat \<Rightarrow> string \<Rightarrow> string" where
  "copy_into arr start bs = take start arr @ bs @ drop (start + length bs) arr"

definition store_heap_len :: "bool \<Rightarrow> string \<Rightarrow> nat \<Rightarrow> string" where
  "store_heap_len little arr n = copy_into arr 8 (take 7 (to_ne_bytes little n))"

definition read_heap_len :: "bool \<Rightarrow> string \<Rightarrow> nat" where
  "read_heap_len little arr =
     from_ne_bytes little (copy_into (replicate 8 (char_of (0 :: nat))) 0 (take 7 (drop 8 arr)))"

definition read_ptr :: "bool \<Rightarrow> string \<Rightarrow> u64" where
  "read_ptr little arr = of_nat (from_ne_bytes little (take 8 arr))"

section \<open>The operations of the value string\<close>

definition small_new :: "bool \<Rightarrow> u64 \<Rightarrow> heap \<Rightarrow> string \<Rightarrow> small_str \<times> heap" where
  "small_new little a h s =
     (if length s \<le> SMALL_STR_CAP then
        (\<lparr>data = copy_into zero_data 0 s, len = of_nat (length s)\<rparr>, h)
      else
        (let arr = copy_into zero_data 0 (to_ne_bytes little (unat a))
         in (\<lparr>data = store_heap_len little arr (length s), len = 255\<rparr>, h(a \<mapsto> s))))"

definition small_from_string :: "bool \<Rightarrow> u64 \<Rightarrow> heap \<Rightarrow> string \<Rightarrow> small_str \<times> heap" where
  "small_from_string little a h s =
     (if length s \<le> SMALL_STR_CAP then
        (\<lparr>data = copy_into zero_data 0 s, len = of_nat (length s)\<rparr>, h)
      else
        (let arr = copy_into zero_data 0 (to_ne_bytes little (unat a))
         in (\<lparr>data = store_heap_len little arr (length s), len = 255\<rparr>, h(a \<mapsto> s))))"

text \<open>Reading \<open>n\<close> bytes of the block at an address, and returning a block of \<open>n\<close> bytes.\<close>

definition read_block :: "heap \<Rightarrow> u64 \<Rightarrow> nat \<Rightarrow> string option" where
  "read_block h a n = (case h a of None \<Rightarrow> None
     | Some bs \<Rightarrow> if n \<le> length bs then Some (take n bs) else None)"

definition free_block :: "heap \<Rightarrow> u64 \<Rightarrow> nat \<Rightarrow> heap option" where
  "free_block h a n = (case h a of None \<Rightarrow> None
     | Some bs \<Rightarrow> if n = length bs then Some (h(a := None)) else None)"

definition small_as_str :: "bool \<Rightarrow> heap \<Rightarrow> small_str \<Rightarrow> string option" where
  "small_as_str little h s =
     (if len s \<noteq> 255 then Some (take (unat (len s)) (data s))
      else read_block h (read_ptr little (data s)) (read_heap_len little (data s)))"

definition small_len :: "bool \<Rightarrow> small_str \<Rightarrow> nat" where
  "small_len little s = (if len s \<noteq> 255 then unat (len s) else read_heap_len little (data s))"

definition small_is_empty :: "bool \<Rightarrow> small_str \<Rightarrow> bool" where
  "small_is_empty little s = (small_len little s = 0)"

definition small_drop :: "bool \<Rightarrow> heap \<Rightarrow> small_str \<Rightarrow> heap option" where
  "small_drop little h s =
     (if len s = 255 then free_block h (read_ptr little (data s)) (read_heap_len little (data s)) else Some h)"

definition small_into_string :: "bool \<Rightarrow> heap \<Rightarrow> small_str \<Rightarrow> (string \<times> heap) option" where
  "small_into_string little h s =
     (if len s \<noteq> 255 then map_option (\<lambda>t. (t, h)) (small_as_str little h s)
      else let a = read_ptr little (data s); n = read_heap_len little (data s)
           in (case read_block h a n of None \<Rightarrow> None
               | Some t \<Rightarrow> map_option (Pair t) (free_block h a n)))"

text \<open>\<open>*self = Self::from_string(owned)\<close>: the new string is built first, then the old one is dropped.\<close>

definition small_assign :: "bool \<Rightarrow> u64 \<Rightarrow> heap \<Rightarrow> small_str \<Rightarrow> string \<Rightarrow> (small_str \<times> heap) option" where
  "small_assign little a h s owned =
     (let (s', h') = small_from_string little a h owned in map_option (Pair s') (small_drop little h' s))"

definition small_push_str :: "bool \<Rightarrow> u64 \<Rightarrow> heap \<Rightarrow> small_str \<Rightarrow> string \<Rightarrow> (small_str \<times> heap) option" where
  "small_push_str little a h s t = (case small_as_str little h s of None \<Rightarrow> None
     | Some owned \<Rightarrow> small_assign little a h s (owned @ t))"

definition small_ensure_len :: "bool \<Rightarrow> u64 \<Rightarrow> heap \<Rightarrow> small_str \<Rightarrow> nat \<Rightarrow> (small_str \<times> heap) option" where
  "small_ensure_len little a h s min_len =
     (if small_len little s < min_len then
        (case small_as_str little h s of None \<Rightarrow> None
         | Some owned \<Rightarrow> small_assign little a h s
             (owned @ replicate (min_len - length owned) (char_of (0 :: nat))))
      else Some (s, h))"

definition small_eq :: "bool \<Rightarrow> heap \<Rightarrow> small_str \<Rightarrow> small_str \<Rightarrow> bool option" where
  "small_eq little h s t = (case (small_as_str little h s, small_as_str little h t) of
     (Some x, Some y) \<Rightarrow> Some (x = y) | _ \<Rightarrow> None)"

text \<open>\<open>#[derive(Clone)]\<close> copies the two fields.\<close>

definition small_clone :: "small_str \<Rightarrow> small_str" where
  "small_clone s = \<lparr>data = data s, len = len s\<rparr>"

section \<open>The key string\<close>

record compact_key =
  kdata :: string
  tag :: u8

definition key_from_string :: "bool \<Rightarrow> u64 \<Rightarrow> heap \<Rightarrow> string \<Rightarrow> compact_key \<times> heap" where
  "key_from_string little a h s =
     (if length s \<le> 15 then
        (\<lparr>kdata = copy_into (replicate 15 (char_of (0 :: nat))) 0 s, tag = of_nat (length s)\<rparr>, h)
      else
        (let arr = copy_into (replicate 15 (char_of (0 :: nat))) 0 (to_ne_bytes little (unat a))
         in (\<lparr>kdata = store_heap_len little arr (length s), tag = 255\<rparr>, h(a \<mapsto> s))))"

definition key_as_str :: "bool \<Rightarrow> heap \<Rightarrow> compact_key \<Rightarrow> string option" where
  "key_as_str little h k =
     (if tag k \<noteq> 255 then Some (take (unat (tag k)) (kdata k))
      else read_block h (read_ptr little (kdata k)) (read_heap_len little (kdata k)))"

definition key_drop :: "bool \<Rightarrow> heap \<Rightarrow> compact_key \<Rightarrow> heap option" where
  "key_drop little h k =
     (if tag k = 255 then free_block h (read_ptr little (kdata k)) (read_heap_len little (kdata k)) else Some h)"

definition key_eq :: "bool \<Rightarrow> heap \<Rightarrow> compact_key \<Rightarrow> string \<Rightarrow> bool option" where
  "key_eq little h k s = map_option (\<lambda>t. t = s) (key_as_str little h k)"

section \<open>The packing\<close>

lemma length_zero_data [simp]: "length zero_data = 15"
  by (simp add: zero_data_def SMALL_STR_CAP_def)

lemma copy_into_0: "length bs \<le> length arr \<Longrightarrow> take (length bs) (copy_into arr 0 bs) = bs"
  by (simp add: copy_into_def)

lemma take_copy_into: "start \<le> length arr \<Longrightarrow> n \<le> start \<Longrightarrow> take n (copy_into arr start bs) = take n arr"
  by (simp add: copy_into_def)

lemma drop_copy_into: "start \<le> length arr \<Longrightarrow> drop start (copy_into arr start bs) = bs @ drop (start + length bs) arr"
  by (simp add: copy_into_def)

lemma length_copy_into: "start + length bs \<le> length arr \<Longrightarrow> length (copy_into arr start bs) = length arr"
  by (simp add: copy_into_def)

lemma unat_lt: "unat (a :: u64) < 2 ^ 64"
  using unsigned_less [of a, where ?'a = nat] by simp

lemma packed_ptr:
  assumes "length arr = 15"
  shows "read_ptr little (store_heap_len little (copy_into arr 0 (to_ne_bytes little (unat a))) n) = a"
proof -
  have len: "length (copy_into arr 0 (to_ne_bytes little (unat a))) = 15"
    using assms by (simp add: length_copy_into)
  have "take 8 (store_heap_len little (copy_into arr 0 (to_ne_bytes little (unat a))) n)
      = take 8 (copy_into arr 0 (to_ne_bytes little (unat a)))"
    unfolding store_heap_len_def using len by (intro take_copy_into) simp_all
  also have "\<dots> = to_ne_bytes little (unat a)"
    using copy_into_0 [of "to_ne_bytes little (unat a)" arr] assms by simp
  finally show ?thesis using unat_lt [of a] by (simp add: read_ptr_def from_to_ne_bytes)
qed

lemma packed_len_bytes:
  assumes "length arr = 15"
  shows "take 7 (drop 8 (store_heap_len little arr n)) = take 7 (to_ne_bytes little n)"
  unfolding store_heap_len_def using assms by (simp add: drop_copy_into)

text \<open>On a little-endian target the seven stored bytes are the low seven of the length.\<close>

lemma packed_len_little:
  assumes "length arr = 15" "n < 2 ^ 56"
  shows "read_heap_len True (store_heap_len True arr n) = n"
proof -
  have "take 7 (to_ne_bytes True n) = le_bytes 7 n" by (simp add: to_ne_bytes_def take_le_bytes)
  moreover have "copy_into (replicate 8 (char_of (0 :: nat))) 0 (le_bytes 7 n) = le_bytes 7 n @ [char_of (0 :: nat)]"
    by (simp add: copy_into_def)
  ultimately show ?thesis using assms
    by (simp add: read_heap_len_def packed_len_bytes from_ne_bytes_def of_le_bytes_append of_le_bytes_le_bytes)
qed

lemma small_from_string_new: "small_from_string little a h s = small_new little a h s"
  by (simp add: small_from_string_def small_new_def)

lemma short_tag: "n \<le> 15 \<Longrightarrow> unat (of_nat n :: u8) = n" "n \<le> 15 \<Longrightarrow> (of_nat n :: u8) \<noteq> 255"
proof -
  show *: "unat (of_nat n :: u8) = n" if "n \<le> 15" using that by (simp add: unat_of_nat)
  show "(of_nat n :: u8) \<noteq> 255" if "n \<le> 15"
  proof
    assume "(of_nat n :: u8) = 255"
    then have "unat (of_nat n :: u8) = unat (255 :: u8)" by simp
    with * [OF that] that show False by simp
  qed
qed

text \<open>What a string built by \<open>new\<close> holds: the block it points to, if it is long, and its length.\<close>

lemma small_new_fields:
  assumes "length s < 2 ^ 56"
  shows "length s \<le> 15 \<Longrightarrow> len (fst (small_new True a h s)) \<noteq> 255"
    "length s \<le> 15 \<Longrightarrow> take (unat (len (fst (small_new True a h s)))) (data (fst (small_new True a h s))) = s"
    "15 < length s \<Longrightarrow> len (fst (small_new True a h s)) = 255"
    "15 < length s \<Longrightarrow> read_ptr True (data (fst (small_new True a h s))) = a"
    "15 < length s \<Longrightarrow> read_heap_len True (data (fst (small_new True a h s))) = length s"
    "snd (small_new True a h s) = (if length s \<le> 15 then h else h(a \<mapsto> s))"
  using assms
  by (simp_all add: small_new_def SMALL_STR_CAP_def Let_def short_tag packed_ptr packed_len_little length_copy_into
      copy_into_0)

section \<open>Ownership\<close>

text \<open>A string value holds the text \<open>x\<close> in the heap \<open>h\<close>.\<close>

definition holds :: "heap \<Rightarrow> small_str \<Rightarrow> string \<Rightarrow> bool" where
  "holds h s x \<longleftrightarrow> (if len s = 255
     then h (read_ptr True (data s)) = Some x \<and> read_heap_len True (data s) = length x
     else take (unat (len s)) (data s) = x \<and> unat (len s) = length x)"

lemma holds_new:
  assumes "length x < 2 ^ 56"
  shows "holds (snd (small_new True a h x)) (fst (small_new True a h x)) x"
proof (cases "length x \<le> 15")
  case True
  then have "unat (len (fst (small_new True a h x))) = length x"
    by (simp add: small_new_def SMALL_STR_CAP_def short_tag)
  with True small_new_fields(1,2) [OF assms True, of a h] show ?thesis by (simp add: holds_def)
next
  case False
  then show ?thesis using small_new_fields(3-6) [OF assms, of a h] by (simp add: holds_def)
qed

lemma holds_as_str: "holds h s x \<Longrightarrow> small_as_str True h s = Some x"
  by (auto simp: holds_def small_as_str_def read_block_def split: if_splits)

lemma holds_len: "holds h s x \<Longrightarrow> small_len True s = length x"
  by (simp add: holds_def small_len_def split: if_splits)

lemma holds_drop:
  "holds h s x \<Longrightarrow> small_drop True h s = Some (if len s = 255 then h(read_ptr True (data s) := None) else h)"
  by (simp add: holds_def small_drop_def free_block_def)

lemma holds_into_string:
  "holds h s x \<Longrightarrow> small_into_string True h s
     = Some (x, if len s = 255 then h(read_ptr True (data s) := None) else h)"
  by (auto simp: holds_def small_into_string_def small_as_str_def read_block_def free_block_def Let_def
      split: if_splits)

lemma holds_other: "holds h s x \<Longrightarrow> len s = 255 \<longrightarrow> read_ptr True (data s) \<noteq> a \<Longrightarrow> holds (h(a := b)) s x"
  by (auto simp: holds_def split: if_splits)

lemma holds_fresh: "holds h s x \<Longrightarrow> h a = None \<Longrightarrow> len s = 255 \<longrightarrow> read_ptr True (data s) \<noteq> a"
  by (auto simp: holds_def)

text \<open>Assigning a new text to a string that holds an old one.\<close>

lemma holds_assign:
  assumes s: "holds h s x" and a: "h a = None" and y: "length y < 2 ^ 56"
  shows "\<exists>s' h'. small_assign True a h s y = Some (s', h') \<and> holds h' s' y
    \<and> (\<forall>b. b \<noteq> a \<longrightarrow> len s = 255 \<longrightarrow> b \<noteq> read_ptr True (data s) \<longrightarrow> h' b = h b)"
proof -
  define s' h' where "s' = fst (small_new True a h y)" and "h' = snd (small_new True a h y)"
  have new: "small_from_string True a h y = (s', h')" by (simp add: small_from_string_new s'_def h'_def)
  have held: "holds h' s' y" unfolding s'_def h'_def by (rule holds_new [OF y])
  have h': "h' = (if length y \<le> 15 then h else h(a \<mapsto> y))"
    unfolding h'_def by (rule small_new_fields(6) [OF y])
  have old: "holds h' s x" using h' s holds_fresh [OF s a] holds_other [OF s, of a] by auto
  have ptr: "len s' = 255 \<longrightarrow> len s = 255 \<longrightarrow> read_ptr True (data s') \<noteq> read_ptr True (data s)"
    using small_new_fields(1,4) [OF y, of a h] holds_fresh [OF s a] unfolding s'_def
    by (cases "length y \<le> 15") auto
  have "small_assign True a h s y = Some (s', if len s = 255 then h'(read_ptr True (data s) := None) else h')"
    by (simp add: small_assign_def new holds_drop [OF old])
  moreover have "holds (if len s = 255 then h'(read_ptr True (data s) := None) else h') s' y"
    using held ptr by (auto intro: holds_other)
  ultimately show ?thesis using h' by (intro exI conjI) auto
qed

section \<open>Properties\<close>

text \<open>C35: on a little-endian target every string shorter than \<open>2 ^ 56\<close> bytes survives the packing:
  the value built from it reads back as the same bytes and reports its length, turning it into
  a \<open>String\<close> gives the bytes back, and dropping it leaves the heap as it was before.\<close>

theorem small_str_round_trip:
  assumes "length x < 2 ^ 56" "h a = None"
  defines "s \<equiv> fst (small_new True a h x)" and "h' \<equiv> snd (small_new True a h x)"
  shows "small_as_str True h' s = Some x \<and> small_len True s = length x
    \<and> small_drop True h' s = Some h \<and> small_into_string True h' s = Some (x, h)"
proof -
  have held: "holds h' s x" unfolding s_def h'_def by (rule holds_new [OF assms(1)])
  have "(if len s = 255 then h'(read_ptr True (data s) := None) else h') = h"
    unfolding s_def h'_def using small_new_fields [OF assms(1), of a h] assms(2)
    by (cases "length x \<le> 15") (auto simp: fun_eq_iff)
  then show ?thesis
    using holds_as_str [OF held] holds_len [OF held] holds_drop [OF held] holds_into_string [OF held] by simp
qed

theorem small_str_round_trip_witness:
  "small_as_str True (snd (small_new True 4096 Map.empty ''a string of nineteen''))
     (fst (small_new True 4096 Map.empty ''a string of nineteen'')) = Some ''a string of nineteen''"
  using small_str_round_trip [of "''a string of nineteen''" Map.empty 4096] by simp

text \<open>Appending to a value that owns its text builds the concatenation and releases the old
  block: the result owns the new text, and no other block of the heap changes.\<close>

theorem push_str_appends:
  assumes "holds h s x" "h a = None" "length (x @ t) < 2 ^ 56"
  shows "\<exists>s' h'. small_push_str True a h s t = Some (s', h') \<and> small_as_str True h' s' = Some (x @ t)
    \<and> (\<forall>b. b \<noteq> a \<longrightarrow> len s = 255 \<longrightarrow> b \<noteq> read_ptr True (data s) \<longrightarrow> h' b = h b)"
proof -
  obtain s' h' where "small_assign True a h s (x @ t) = Some (s', h')" "holds h' s' (x @ t)"
    "\<forall>b. b \<noteq> a \<longrightarrow> len s = 255 \<longrightarrow> b \<noteq> read_ptr True (data s) \<longrightarrow> h' b = h b"
    using holds_assign [OF assms] by blast
  then show ?thesis by (auto simp: small_push_str_def holds_as_str [OF assms(1)] holds_as_str)
qed

theorem push_str_appends_witness:
  "\<exists>s' h'. small_push_str True 64 Map.empty (fst (small_new True 0 Map.empty ''0123456789'')) ''abcdefghij'' = Some (s', h')
     \<and> small_as_str True h' s' = Some ''0123456789abcdefghij''"
proof -
  have "holds Map.empty (fst (small_new True 0 Map.empty ''0123456789'')) ''0123456789''"
    using holds_new [of "''0123456789''" 0 Map.empty] small_new_fields(6) [of "''0123456789''" 0 Map.empty] by simp
  from push_str_appends [OF this, where a = 64 and t = "''abcdefghij''"] show ?thesis by auto
qed

text \<open>C36: the derived \<open>Clone\<close> copies the packed address of a long string instead of the string.
  After the copy of a string of more than fifteen bytes is dropped, the original points to freed
  memory: reading it and dropping it are both undefined.  Strings of up to fifteen bytes are not
  affected.\<close>

theorem clone_of_long_string_dangles:
  assumes "length x < 2 ^ 56" "h a = None"
  defines "s \<equiv> fst (small_new True a h x)" and "h' \<equiv> snd (small_new True a h x)"
  shows "\<exists>h''. small_drop True h' (small_clone s) = Some h''
    \<and> (if 15 < length x then small_as_str True h'' s = None \<and> small_drop True h'' s = None
       else small_as_str True h'' s = Some x)"
proof -
  have held: "holds h' s x" unfolding s_def h'_def by (rule holds_new [OF assms(1)])
  have clone: "small_clone s = s" by (simp add: small_clone_def)
  show ?thesis
  proof (cases "15 < length x")
    case True
    then have "len s = 255" unfolding s_def by (rule small_new_fields(3) [OF assms(1)])
    with True show ?thesis unfolding clone holds_drop [OF held]
      by (simp add: small_as_str_def small_drop_def read_block_def free_block_def)
  next
    case False
    then have "len s \<noteq> 255" unfolding s_def by (intro small_new_fields(1) [OF assms(1)]) simp
    with False show ?thesis unfolding clone holds_drop [OF held] by (simp add: holds_as_str [OF held])
  qed
qed

theorem clone_of_long_string_dangles_witness:
  "\<exists>h''. small_drop True (snd (small_new True 64 Map.empty ''a string of nineteen''))
       (small_clone (fst (small_new True 64 Map.empty ''a string of nineteen''))) = Some h''
     \<and> small_as_str True h'' (fst (small_new True 64 Map.empty ''a string of nineteen'')) = None"
  using clone_of_long_string_dangles [of "''a string of nineteen''" Map.empty 64] by auto

text \<open>On a big-endian target the seven stored bytes are the high ones, so a long string of fewer
  than 256 bytes reports length zero and reads back as the empty string.\<close>

theorem big_endian_length_lost:
  assumes "15 < length x" "length x < 256"
  shows "small_len False (fst (small_new False a h x)) = 0"
proof -
  have zeros: "le_bytes w 0 = replicate w (char_of (0 :: nat))" for w by (induction w) simp_all
  have "le_bytes 8 (length x) = char_of (length x) # replicate 7 (char_of (0 :: nat))"
    using assms zeros [of 7] le_bytes.simps(2) [of 7 "length x"] by simp
  then have bytes: "take 7 (to_ne_bytes False (length x)) = replicate 7 (char_of (0 :: nat))"
    by (simp add: to_ne_bytes_def)
  have "of_le_bytes (replicate w (char_of (0 :: nat))) = 0" for w by (induction w) simp_all
  then have "from_ne_bytes False (copy_into (replicate 8 (char_of (0 :: nat))) 0 (replicate 7 (char_of (0 :: nat)))) = 0"
    by (simp add: from_ne_bytes_def copy_into_def flip: replicate_add replicate_Suc)
  with assms bytes show ?thesis
    by (simp add: small_len_def small_new_def SMALL_STR_CAP_def Let_def read_heap_len_def packed_len_bytes length_copy_into)
qed

theorem big_endian_length_lost_witness:
  "small_len False (fst (small_new False 64 Map.empty ''a string of nineteen'')) = 0"
  using big_endian_length_lost [of "''a string of nineteen''" 64 Map.empty] by simp

end
