(* ===== verification/Shard.thy ===== *)
theory Shard
  imports Prelude
begin

text \<open>
  One shard of the concurrent hash map (\<open>src/crates/customhash/src/shard.rs\<close>): the packed
  state word of an entry, the slot table with linear probing, growth, and the insertion of a new
  key.  The model is sequential: an operation runs to its end before the next one starts, so the
  insert gate and the growth mutex are free whenever an operation begins and are left out, and
  a compare-and-swap succeeds.  A slot pointer is an optional entry; the index of the slot stands
  for the reference that \<open>find\<close> returns.  An uninitialised value is \<^const>\<open>None\<close>.
\<close>

section \<open>The state word of an entry\<close>

definition STATE_LOCK :: u64 where "STATE_LOCK = 1"
definition STATE_OCCUPIED :: u64 where "STATE_OCCUPIED = 2"
definition STATE_SEQ_ONE :: u64 where "STATE_SEQ_ONE = 4"

definition LOAD_NUM :: nat where "LOAD_NUM = 9"
definition LOAD_DEN :: nat where "LOAD_DEN = 10"
definition INITIAL_SHARD_CAPACITY :: nat where "INITIAL_SHARD_CAPACITY = 8"
definition DEFAULT_SHARD_CAPACITY :: nat where "DEFAULT_SHARD_CAPACITY = 32768"

definition state_seq :: "u64 \<Rightarrow> 32 word" where
  "state_seq st = ucast (drop_bit 2 st)"

definition state_occupied :: "u64 \<Rightarrow> bool" where
  "state_occupied st \<longleftrightarrow> st AND STATE_OCCUPIED \<noteq> 0"

definition state_set_occupied :: "u64 \<Rightarrow> bool \<Rightarrow> u64" where
  "state_set_occupied st b = (if b then st OR STATE_OCCUPIED else st AND NOT STATE_OCCUPIED)"

definition state_seq_add :: "u64 \<Rightarrow> u64" where
  "state_seq_add st = st + STATE_SEQ_ONE"

definition state_lock :: "u64 \<Rightarrow> u64" where
  "state_lock st = st OR STATE_LOCK"

definition state_unlock :: "u64 \<Rightarrow> u64" where
  "state_unlock st = st AND NOT STATE_LOCK"

text \<open>An entry at rest: the lock is free and the sequence number is even.\<close>

definition state_quiescent :: "u64 \<Rightarrow> bool" where
  "state_quiescent st \<longleftrightarrow> \<not> bit st 0 \<and> \<not> bit st 2"

lemma bit_STATE [simp]:
  "bit STATE_LOCK n \<longleftrightarrow> n = 0" "bit STATE_OCCUPIED n \<longleftrightarrow> n = 1"
proof -
  show "bit STATE_LOCK n \<longleftrightarrow> n = 0" by (simp add: STATE_LOCK_def bit_1_iff)
  have "bit (2 ^ 1 :: u64) n \<longleftrightarrow> n = 1" by (auto simp only: bit_exp_iff possible_bit_word) simp
  then show "bit STATE_OCCUPIED n \<longleftrightarrow> n = 1" by (simp add: STATE_OCCUPIED_def)
qed

lemma state_occupied_bit: "state_occupied st \<longleftrightarrow> bit st 1"
proof -
  have "st AND STATE_OCCUPIED = (if bit st 1 then STATE_OCCUPIED else 0)"
    by (rule bit_word_eqI) (auto simp: bit_and_iff)
  then show ?thesis by (simp add: state_occupied_def STATE_OCCUPIED_def)
qed

lemma bit_seq_add_low: "n < 2 \<Longrightarrow> bit (state_seq_add st) n = bit st n"
proof -
  assume n: "n < 2"
  have "take_bit 2 (st + 4) = take_bit 2 (take_bit 2 st + take_bit 2 (4 :: u64))"
    by (simp only: take_bit_word_add)
  also have "take_bit 2 (4 :: u64) = 0" by simp
  finally have "take_bit 2 (st + 4) = take_bit 2 st" by simp
  then have "bit (take_bit 2 (st + 4)) n = bit (take_bit 2 st) n" by simp
  with n show ?thesis by (simp add: state_seq_add_def STATE_SEQ_ONE_def bit_take_bit_iff)
qed

lemma bit_seq_add_2: "bit (state_seq_add st) 2 \<longleftrightarrow> \<not> bit st 2"
proof -
  have bit2: "bit w 2 \<longleftrightarrow> odd (unat w div 4)" for w :: u64
  proof -
    have "bit w 2 \<longleftrightarrow> bit (unat w) 2" by (simp add: bit_unsigned_iff)
    then show ?thesis by (simp add: bit_iff_odd [of "unat w"])
  qed
  have lt: "unat st < 2 ^ 64" using unsigned_less [of st, where ?'a = nat] by simp
  have "odd (unat (st + 4) div 4) \<longleftrightarrow> even (unat st div 4)"
  proof (cases "unat st + 4 < 2 ^ 64")
    case True
    moreover have "(unat st + 4) div 4 = Suc (unat st div 4)" by simp
    ultimately show ?thesis by (simp add: unat_word_ariths del: div_add_self2)
  next
    case False
    with lt have "unat st div 4 = 4611686018427387903" by simp
    moreover from False lt have "unat (st + 4) < 4"
      by (auto simp: unat_word_ariths mod_if)
    ultimately show ?thesis by simp
  qed
  then show ?thesis by (simp add: bit2 state_seq_add_def STATE_SEQ_ONE_def)
qed

section \<open>Entries\<close>

record 'v entry =
  e_hash :: u64
  e_key :: string
  e_state :: u64
  e_value :: "'v option"

text \<open>The three ways an operation that holds the entry's lock changes the entry: it replaces the
  value, it brings a removed entry back, or it drops the value and leaves a tombstone.\<close>

definition write_value :: "'v entry \<Rightarrow> 'v \<Rightarrow> 'v entry" where
  "write_value e v = e\<lparr>
     e_value := Some v,
     e_state := state_unlock (state_seq_add (state_seq_add (state_lock (e_state e))))\<rparr>"

definition revive :: "'v entry \<Rightarrow> 'v \<Rightarrow> 'v entry" where
  "revive e v = e\<lparr>
     e_value := Some v,
     e_state := state_unlock (state_seq_add
       (state_set_occupied (state_seq_add (state_lock (e_state e))) True))\<rparr>"

definition vacate :: "'v entry \<Rightarrow> 'v entry" where
  "vacate e = e\<lparr>
     e_value := None,
     e_state := state_unlock (state_seq_add
       (state_set_occupied (state_seq_add (state_lock (e_state e))) False))\<rparr>"

definition lock_unlock :: "'v entry \<Rightarrow> 'v entry" where
  "lock_unlock e = e\<lparr>e_state := state_unlock (state_lock (e_state e))\<rparr>"

lemma state_ops_bits:
  "bit (state_lock st) n \<longleftrightarrow> bit st n \<or> n = 0"
  "n < 64 \<Longrightarrow> bit (state_unlock st) n \<longleftrightarrow> bit st n \<and> n \<noteq> 0"
  "n < 64 \<Longrightarrow> bit (state_set_occupied st b) n \<longleftrightarrow> (if n = 1 then b else bit st n)"
  by (auto simp: state_lock_def state_unlock_def state_set_occupied_def bit_simps)

lemmas state_bits = state_occupied_bit state_quiescent_def state_ops_bits bit_seq_add_low
  bit_seq_add_2

definition entry_ok :: "(string \<Rightarrow> u64) \<Rightarrow> 'v entry \<Rightarrow> bool" where
  "entry_ok hs e \<longleftrightarrow> e_hash e = hs (e_key e) \<and> state_quiescent (e_state e)
     \<and> (state_occupied (e_state e) \<longleftrightarrow> e_value e \<noteq> None)"

text \<open>What a reader sees in an entry.\<close>

definition live_value :: "'v entry \<Rightarrow> 'v option" where
  "live_value e = (if state_occupied (e_state e) then e_value e else None)"

lemma entry_fields [simp]:
  "e_key (write_value e v) = e_key e" "e_key (revive e v) = e_key e" "e_key (vacate e) = e_key e"
  "e_key (lock_unlock e) = e_key e"
  by (simp_all add: write_value_def revive_def vacate_def lock_unlock_def)

lemma live_value_write [simp]:
  "state_occupied (e_state e) \<Longrightarrow> live_value (write_value e v) = Some v"
  "live_value (revive e v) = Some v" "live_value (vacate e) = None"
  "live_value (lock_unlock e) = live_value e"
  by (simp_all add: live_value_def write_value_def revive_def vacate_def lock_unlock_def state_bits)

lemma entry_ok_write [simp]:
  "entry_ok hs e \<Longrightarrow> state_occupied (e_state e) \<Longrightarrow> entry_ok hs (write_value e v)"
  "entry_ok hs e \<Longrightarrow> entry_ok hs (revive e v)" "entry_ok hs e \<Longrightarrow> entry_ok hs (vacate e)"
  "entry_ok hs e \<Longrightarrow> entry_ok hs (lock_unlock e)"
  by (simp_all add: entry_ok_def write_value_def revive_def vacate_def lock_unlock_def state_bits)

section \<open>The slot table\<close>

record 'v slot_table =
  slots :: "'v entry option list"
  capacity :: nat
  tmask :: nat
  threshold :: nat

definition slot_table_new :: "nat \<Rightarrow> 'v slot_table" where
  "slot_table_new n = (let cap = max (next_power_of_two n) 8 in
     \<lparr>slots = replicate cap None, capacity = cap, tmask = cap - 1,
      threshold = cap * LOAD_NUM div LOAD_DEN\<rparr>)"

definition set_slot :: "'v slot_table \<Rightarrow> nat \<Rightarrow> 'v entry \<Rightarrow> 'v slot_table" where
  "set_slot t i e = t\<lparr>slots := (slots t)[i := Some e]\<rparr>"

text \<open>The probe loop shared by \<open>find\<close> and \<open>insert_new\<close>.  The loop of the source has no bound; the
  model gives it one round per slot and reports \<open>Spinning\<close> if no round ends it, an outcome
  excluded below for every table that keeps its invariant.\<close>

datatype probe_result = Found nat | Vacant nat | Spinning

fun probe :: "nat \<Rightarrow> 'v slot_table \<Rightarrow> string \<Rightarrow> u64 \<Rightarrow> nat \<Rightarrow> probe_result" where
  "probe 0 t k h i = Spinning"
| "probe (Suc n) t k h i = (case slots t ! i of
      None \<Rightarrow> Vacant i
    | Some e \<Rightarrow> if e_hash e = h \<and> e_key e = k then Found i
        else probe n t k h ((i + 1) AND tmask t))"

definition home :: "'v slot_table \<Rightarrow> u64 \<Rightarrow> nat" where
  "home t h = unat h AND tmask t"

definition find_slot :: "'v slot_table \<Rightarrow> string \<Rightarrow> u64 \<Rightarrow> nat option" where
  "find_slot t k h = (case probe (capacity t) t k h (home t h) of Found i \<Rightarrow> Some i | _ \<Rightarrow> None)"

definition slot_keys :: "'v entry option list \<Rightarrow> string list" where
  "slot_keys ss = List.map_filter (map_option e_key) ss"

definition live_pair :: "'v entry option \<Rightarrow> (string \<times> 'v) option" where
  "live_pair s = (case s of None \<Rightarrow> None
     | Some e \<Rightarrow> (case live_value e of None \<Rightarrow> None | Some v \<Rightarrow> Some (e_key e, v)))"

definition live_pairs :: "'v entry option list \<Rightarrow> (string \<times> 'v) list" where
  "live_pairs ss = List.map_filter live_pair ss"

lemma slot_keys_simps [simp]:
  "slot_keys [] = []" "slot_keys (None # ss) = slot_keys ss"
  "slot_keys (Some e # ss) = e_key e # slot_keys ss"
  "slot_keys (xs @ ys) = slot_keys xs @ slot_keys ys"
  by (simp_all add: slot_keys_def map_filter_Nil map_filter_Cons map_filter_append)

lemma live_pairs_simps [simp]:
  "live_pairs [] = []" "live_pairs (None # ss) = live_pairs ss"
  "live_pairs (Some e # ss) = (case live_value e of None \<Rightarrow> live_pairs ss
     | Some v \<Rightarrow> (e_key e, v) # live_pairs ss)"
  "live_pairs (xs @ ys) = live_pairs xs @ live_pairs ys"
  by (simp_all add: live_pairs_def live_pair_def map_filter_Nil map_filter_Cons map_filter_append
      split: option.splits)

lemma replicate_None_simps [simp]:
  "slot_keys (replicate n None) = []" "live_pairs (replicate n None) = []"
  by (induction n) simp_all

lemma live_keys_subset: "fst ` set (live_pairs ss) \<subseteq> set (slot_keys ss)"
proof (induction ss)
  case (Cons s ss)
  then show ?case by (cases s) (auto split: option.splits)
qed simp

lemma slot_keys_nth: "i < length ss \<Longrightarrow> ss ! i = Some e \<Longrightarrow> e_key e \<in> set (slot_keys ss)"
  unfolding slot_keys_def in_set_map_filter by (metis nth_mem option.simps(9))

lemma slot_keys_obtain:
  assumes "k \<in> set (slot_keys ss)"
  obtains i e where "i < length ss" "ss ! i = Some e" "e_key e = k"
proof -
  from assms obtain s where "s \<in> set ss" "map_option e_key s = Some k"
    by (auto simp: slot_keys_def in_set_map_filter)
  then show ?thesis using that by (auto simp: in_set_conv_nth)
qed

lemma map_of_live_None: "k \<notin> set (slot_keys ss) \<Longrightarrow> map_of (live_pairs ss) k = None"
  using live_keys_subset [of ss] by (metis map_of_eq_None_iff subsetD)

subsection \<open>The invariant of a table\<close>

definition table_shape :: "'v slot_table \<Rightarrow> bool" where
  "table_shape t \<longleftrightarrow> length (slots t) = capacity t \<and> (\<exists>k. capacity t = 2 ^ k) \<and> 8 \<le> capacity t
     \<and> tmask t = capacity t - 1 \<and> threshold t = capacity t * LOAD_NUM div LOAD_DEN"

definition slot_at :: "'v slot_table \<Rightarrow> u64 \<Rightarrow> nat \<Rightarrow> 'v entry option" where
  "slot_at t h d = slots t ! ((unat h + d) mod capacity t)"

text \<open>An entry sits at some offset of its probe sequence with no empty slot before it.\<close>

definition reachable :: "'v slot_table \<Rightarrow> nat \<Rightarrow> 'v entry \<Rightarrow> bool" where
  "reachable t i e \<longleftrightarrow> (\<exists>d<capacity t. (unat (e_hash e) + d) mod capacity t = i
     \<and> (\<forall>d'<d. slot_at t (e_hash e) d' \<noteq> None))"

definition table_wf :: "(string \<Rightarrow> u64) \<Rightarrow> 'v slot_table \<Rightarrow> bool" where
  "table_wf hs t \<longleftrightarrow> table_shape t \<and> distinct (slot_keys (slots t))
     \<and> (\<forall>i<capacity t. \<forall>e. slots t ! i = Some e \<longrightarrow> entry_ok hs e \<and> reachable t i e)"

lemma table_wf_shape [dest]: "table_wf hs t \<Longrightarrow> table_shape t"
  by (simp add: table_wf_def)

lemma shape_index:
  assumes "table_shape t"
  shows "n AND tmask t = n mod capacity t" "home t h = unat h mod capacity t" "0 < capacity t"
  using assms and_pow2_minus_1 unfolding table_shape_def home_def by (metis, metis, simp)

lemma table_shape_new [simp]: "table_shape (slot_table_new n)"
proof -
  have "max (next_power_of_two n) 8 = 2 ^ k \<Longrightarrow> \<exists>k. max (next_power_of_two n) 8 = 2 ^ k" for k
    by blast
  moreover have "8 = (2 :: nat) ^ 3" by simp
  ultimately have "\<exists>k. max (next_power_of_two n) 8 = 2 ^ k"
    by (metis max_def next_power_of_two_power)
  then show ?thesis by (simp add: table_shape_def slot_table_new_def Let_def)
qed

lemma slots_new [simp]:
  "slots (slot_table_new n) = replicate (capacity (slot_table_new n :: 'a slot_table)) (None :: 'a entry option)"
  by (simp add: slot_table_new_def Let_def)

lemma table_wf_new [simp]: "table_wf hs (slot_table_new n)"
  by (simp add: table_wf_def)

lemma set_slot_simps [simp]:
  "slots (set_slot t i e) = (slots t)[i := Some e]" "capacity (set_slot t i e) = capacity t"
  "tmask (set_slot t i e) = tmask t" "threshold (set_slot t i e) = threshold t"
  "home (set_slot t i e) h = home t h"
  by (simp_all add: set_slot_def home_def)

lemma table_shape_set_slot [simp]: "table_shape (set_slot t i e) = table_shape t"
  by (simp add: table_shape_def)

text \<open>The effect of one slot update on the keys and on the live pairs of the table.\<close>

lemma slot_split:
  assumes "i < length ss"
  obtains a b where "ss = a @ ss ! i # b" "ss[i := s] = a @ s # b" "length a = i"
proof (rule that [of "take i ss" "drop (Suc i) ss"])
  show "ss = take i ss @ ss ! i # drop (Suc i) ss" using assms by (rule id_take_nth_drop)
  show "ss[i := s] = take i ss @ s # drop (Suc i) ss" using assms by (rule upd_conv_take_nth_drop)
  show "length (take i ss) = i" using assms by simp
qed

lemma slot_keys_same:
  assumes "i < length ss" "ss ! i = Some e0" "e_key e = e_key e0"
  shows "slot_keys (ss[i := Some e]) = slot_keys ss"
proof -
  obtain a b where "ss = a @ ss ! i # b" "ss[i := Some e] = a @ Some e # b"
    by (rule slot_split [OF assms(1), of "Some e"])
  then show ?thesis using assms(2,3) by (metis slot_keys_simps(3,4))
qed

lemma slot_keys_new:
  assumes "i < length ss" "ss ! i = None"
  shows "mset (slot_keys (ss[i := Some e])) = add_mset (e_key e) (mset (slot_keys ss))"
proof -
  obtain a b where ss: "ss = a @ ss ! i # b" "ss[i := Some e] = a @ Some e # b"
    by (rule slot_split [OF assms(1), of "Some e"])
  from ss(1) assms(2) have "slot_keys ss = slot_keys a @ slot_keys b"
    by (metis slot_keys_simps(2,4))
  with ss(2) show ?thesis by simp
qed

lemma live_pairs_upd:
  assumes i: "i < length ss" and old: "case ss ! i of None \<Rightarrow> e_key e \<notin> set (slot_keys ss)
      | Some e0 \<Rightarrow> e_key e0 = e_key e" and d: "distinct (slot_keys ss)"
  shows "map_of (live_pairs (ss[i := Some e])) = (map_of (live_pairs ss))(e_key e := live_value e)"
proof -
  obtain a b where ss: "ss = a @ ss ! i # b" "ss[i := Some e] = a @ Some e # b"
    by (rule slot_split [OF i, of "Some e"])
  obtain s where s: "ss = a @ s # b" "ss ! i = s" using ss(1) by blast
  have "e_key e \<notin> set (slot_keys a)" "e_key e \<notin> set (slot_keys b)"
    using old d unfolding s(2) by (auto simp: s(1) split: option.splits)
  then have k: "map_of (live_pairs a) (e_key e) = None" "map_of (live_pairs b) (e_key e) = None"
    by (simp_all add: map_of_live_None)
  define m where "m = map_of (live_pairs b) ++ map_of (live_pairs a)"
  have upd: "map_of (live_pairs (a @ Some e' # b)) = m(e_key e := live_value e')"
    if "e_key e' = e_key e" for e'
    using k that by (cases "live_value e'") (auto simp: m_def fun_eq_iff map_add_def split: option.split)
  show ?thesis
  proof (cases s)
    case None
    then have "map_of (live_pairs ss) = m" by (simp add: s(1) m_def)
    with upd [of e] show ?thesis by (simp only: ss(2) refl)
  next
    case (Some e0)
    with old s(2) have "e_key e0 = e_key e" by simp
    with Some s(1) have "map_of (live_pairs ss) = m(e_key e := live_value e0)" by (simp only: upd)
    with upd [of e] show ?thesis by (simp only: ss(2) refl fun_upd_upd)
  qed
qed

lemma slot_at_set_slot:
  assumes "slot_at t h d \<noteq> None" "table_shape t"
  shows "slot_at (set_slot t i e) h d \<noteq> None"
proof (cases "(unat h + d) mod capacity t = i")
  case True
  moreover have "(unat h + d) mod capacity t < length (slots t)"
    using assms(2) shape_index(3) [OF assms(2)] by (simp add: table_shape_def)
  ultimately show ?thesis by (simp add: slot_at_def)
qed (use assms(1) in \<open>simp add: slot_at_def\<close>)

lemma reachable_set_slot: "table_shape t \<Longrightarrow> reachable t i e \<Longrightarrow> reachable (set_slot t j e') i e"
  unfolding reachable_def using slot_at_set_slot by (metis set_slot_simps(2))

lemma table_wf_entry:
  "table_wf hs t \<Longrightarrow> i < capacity t \<Longrightarrow> slots t ! i = Some e \<Longrightarrow> entry_ok hs e \<and> reachable t i e"
  by (simp add: table_wf_def)

lemma table_wf_set_slot:
  assumes wf: "table_wf hs t" and i: "i < capacity t" and ok: "entry_ok hs e"
    and r: "reachable t i e" and d: "distinct (slot_keys ((slots t)[i := Some e]))"
  shows "table_wf hs (set_slot t i e)"
proof -
  have sh: "table_shape t" using wf by blast
  have "entry_ok hs e' \<and> reachable (set_slot t i e) j e'"
    if "j < capacity t" "(slots t)[i := Some e] ! j = Some e'" for j e'
  proof (cases "j = i")
    case True
    with that i sh have "e' = e" by (simp add: table_shape_def)
    with ok r True sh show ?thesis by (simp add: reachable_set_slot)
  next
    case False
    with that have "slots t ! j = Some e'" by simp
    with wf that(1) sh show ?thesis by (meson reachable_set_slot table_wf_entry)
  qed
  with sh d show ?thesis by (simp add: table_wf_def)
qed

text \<open>Replacing an entry by one of the same key, and filling a slot that the probe for a new key
  reaches, keep the invariant and change the contents at that key only.\<close>

lemma set_slot_same:
  assumes wf: "table_wf hs t" and i: "i < capacity t" and e0: "slots t ! i = Some e0"
    and k: "e_key e = e_key e0" and ok: "entry_ok hs e"
  shows "table_wf hs (set_slot t i e)" "slot_keys (slots (set_slot t i e)) = slot_keys (slots t)"
    "map_of (live_pairs (slots (set_slot t i e))) = (map_of (live_pairs (slots t)))(e_key e := live_value e)"
proof -
  have len: "i < length (slots t)" using wf i by (auto simp: table_wf_def table_shape_def)
  have d: "distinct (slot_keys (slots t))" using wf by (simp add: table_wf_def)
  show keys: "slot_keys (slots (set_slot t i e)) = slot_keys (slots t)"
    using slot_keys_same [OF len e0 k] by simp
  have "e_hash e = e_hash e0" using ok table_wf_entry [OF wf i e0] k by (simp add: entry_ok_def)
  then have "reachable t i e" using table_wf_entry [OF wf i e0] by (simp add: reachable_def)
  with wf i ok d keys show "table_wf hs (set_slot t i e)" by (simp add: table_wf_set_slot)
  show "map_of (live_pairs (slots (set_slot t i e))) = (map_of (live_pairs (slots t)))(e_key e := live_value e)"
    using live_pairs_upd [OF len _ d, of e] e0 k by simp
qed

lemma set_slot_new:
  assumes wf: "table_wf hs t" and k: "e_key e \<notin> set (slot_keys (slots t))" and ok: "entry_ok hs e"
    and d: "d < capacity t" and v: "slot_at t (e_hash e) d = None"
    and path: "\<And>d'. d' < d \<Longrightarrow> slot_at t (e_hash e) d' \<noteq> None"
    and i: "i = (unat (e_hash e) + d) mod capacity t"
  shows "table_wf hs (set_slot t i e)"
    "mset (slot_keys (slots (set_slot t i e))) = add_mset (e_key e) (mset (slot_keys (slots t)))"
    "map_of (live_pairs (slots (set_slot t i e))) = (map_of (live_pairs (slots t)))(e_key e := live_value e)"
proof -
  have sh: "table_shape t" using wf by blast
  have i': "i < capacity t" using i shape_index(3) [OF sh] by simp
  have len: "i < length (slots t)" using sh i' by (simp add: table_shape_def)
  have d': "distinct (slot_keys (slots t))" using wf by (simp add: table_wf_def)
  have none: "slots t ! i = None" using v i by (simp add: slot_at_def)
  show keys: "mset (slot_keys (slots (set_slot t i e))) = add_mset (e_key e) (mset (slot_keys (slots t)))"
    using slot_keys_new [OF len none] by simp
  have "reachable t i e" unfolding reachable_def using d i path by blast
  moreover have "distinct (slot_keys ((slots t)[i := Some e]))"
    using keys k d' by (metis distinct.simps(2) mset.simps(2) mset_eq_imp_distinct_iff set_slot_simps(1))
  ultimately show "table_wf hs (set_slot t i e)" using wf i' ok by (simp add: table_wf_set_slot)
  show "map_of (live_pairs (slots (set_slot t i e))) = (map_of (live_pairs (slots t)))(e_key e := live_value e)"
    using live_pairs_upd [OF len _ d', of e] none k by simp
qed

subsection \<open>Probing\<close>

lemma slot_key_index_unique:
  assumes "distinct (slot_keys ss)" "i < length ss" "j < length ss"
    "ss ! i = Some e" "ss ! j = Some e'" "e_key e = e_key e'"
  shows "i = j"
proof (rule ccontr)
  assume "i \<noteq> j"
  have *: False if "distinct (slot_keys ss)" "i < j" "j < length ss" "ss ! i = Some e"
    "ss ! j = Some e'" "e_key e = e_key e'" for i j e e'
  proof -
    have split: "ss = take j ss @ Some e' # drop (Suc j) ss" using that id_take_nth_drop by metis
    then have "slot_keys ss = slot_keys (take j ss) @ e_key e' # slot_keys (drop (Suc j) ss)"
      by (metis slot_keys_simps(3,4))
    moreover have "e_key e \<in> set (slot_keys (take j ss))"
      using that by (intro slot_keys_nth [of i]) simp_all
    ultimately show False using that by simp
  qed
  from \<open>i \<noteq> j\<close> assms * [of i j e e'] * [of j i e' e] show False by (metis linorder_neqE_nat)
qed

lemma probe_walk:
  assumes sh: "table_shape t"
  shows "(\<And>d'. d' < d \<Longrightarrow> \<exists>e. slots t ! ((i + d') mod capacity t) = Some e \<and> \<not> (e_hash e = h \<and> e_key e = k))
    \<Longrightarrow> d \<le> n \<Longrightarrow> i < capacity t \<Longrightarrow> probe n t k h i = probe (n - d) t k h ((i + d) mod capacity t)"
proof (induction d arbitrary: n i)
  case (Suc d)
  then obtain n' where n: "n = Suc n'" "d \<le> n'" by (cases n) auto
  from Suc.prems(1) [of 0] Suc.prems(3) obtain e where
    "slots t ! i = Some e" "\<not> (e_hash e = h \<and> e_key e = k)" by auto
  then have "probe n t k h i = probe n' t k h ((i + 1) mod capacity t)"
    using n(1) shape_index(1) [OF sh] by auto
  also have "\<dots> = probe (n' - d) t k h (((i + 1) mod capacity t + d) mod capacity t)"
    using shape_index(3) [OF sh] n(2) Suc.prems(1) [of "Suc _"]
    by (intro Suc.IH) (auto simp: mod_simps)
  also have "((i + 1) mod capacity t + d) mod capacity t = (i + Suc d) mod capacity t"
    by (simp add: mod_simps)
  finally show ?case using n(1) by simp
qed simp

lemma probe_present:
  assumes wf: "table_wf hs t" and i: "i < capacity t" and e: "slots t ! i = Some e"
  shows "probe (capacity t) t (e_key e) (hs (e_key e)) (home t (hs (e_key e))) = Found i"
proof -
  have sh: "table_shape t" using wf by blast
  have h: "e_hash e = hs (e_key e)" and r: "reachable t i e"
    using table_wf_entry [OF wf i e] by (simp_all add: entry_ok_def)
  then obtain d where d: "d < capacity t" "(unat (hs (e_key e)) + d) mod capacity t = i"
    "\<And>d'. d' < d \<Longrightarrow> slot_at t (hs (e_key e)) d' \<noteq> None"
    by (auto simp: reachable_def)
  let ?h = "unat (hs (e_key e))"
  have step: "\<exists>e'. slots t ! ((?h mod capacity t + d') mod capacity t) = Some e'
      \<and> \<not> (e_hash e' = hs (e_key e) \<and> e_key e' = e_key e)" if "d' < d" for d'
  proof -
    from d(3) [OF that] obtain e' where e': "slots t ! ((?h + d') mod capacity t) = Some e'"
      by (auto simp: slot_at_def)
    have "e_key e' \<noteq> e_key e"
    proof
      assume "e_key e' = e_key e"
      with e e' wf sh i have "(?h + d') mod capacity t = i"
        using shape_index(3) [OF sh]
        by (intro slot_key_index_unique [of "slots t" _ _ e' e]) (auto simp: table_wf_def table_shape_def)
      with d(1,2) that have "d' = d" using offset_unique [of ?h d' "capacity t" d] by simp
      with that show False by simp
    qed
    with e' show ?thesis by (simp add: mod_simps)
  qed
  have "probe (capacity t) t (e_key e) (hs (e_key e)) (?h mod capacity t)
    = probe (capacity t - d) t (e_key e) (hs (e_key e)) ((?h mod capacity t + d) mod capacity t)"
    using d(1) shape_index(3) [OF sh] step by (intro probe_walk [OF sh]) simp_all
  also have "(?h mod capacity t + d) mod capacity t = i" using d(2) by (simp add: mod_simps)
  also have "capacity t - d = Suc (capacity t - d - 1)" using d(1) by simp
  finally show ?thesis using e h shape_index(2) [OF sh] by simp
qed

lemma slot_at_vacancy:
  assumes sh: "table_shape t" and room: "length (slot_keys (slots t)) < capacity t"
  obtains d where "d < capacity t" "slot_at t h d = None" "\<And>d'. d' < d \<Longrightarrow> slot_at t h d' \<noteq> None"
proof -
  have "length (slot_keys (slots t)) < length (slots t)" using sh room by (simp add: table_shape_def)
  then obtain i where i: "i < length (slots t)" "slots t ! i = None"
    unfolding slot_keys_def by (auto dest: length_map_filter_less)
  with sh obtain d where d: "d < capacity t" "slot_at t h d = None"
    using offset_exists [OF shape_index(3) [OF sh], of i "unat h"]
    by (auto simp: slot_at_def table_shape_def)
  define m where "m = (LEAST d. slot_at t h d = None)"
  have "slot_at t h m = None" "m \<le> d" unfolding m_def using d(2) by (rule LeastI, rule Least_le)
  moreover have "slot_at t h d' \<noteq> None" if "d' < m" for d' using that unfolding m_def
    by (metis not_less_Least)
  ultimately show ?thesis using that d(1) by (meson le_less_trans)
qed

lemma probe_absent:
  assumes sh: "table_shape t" and k: "k \<notin> set (slot_keys (slots t))"
    and d: "d < capacity t" "slot_at t h d = None" "\<And>d'. d' < d \<Longrightarrow> slot_at t h d' \<noteq> None"
  shows "probe (capacity t) t k h (home t h) = Vacant ((unat h + d) mod capacity t)"
proof -
  have step: "\<exists>e. slots t ! ((unat h mod capacity t + d') mod capacity t) = Some e
      \<and> \<not> (e_hash e = h \<and> e_key e = k)" if "d' < d" for d'
  proof -
    from d(3) [OF that] obtain e where e: "slots t ! ((unat h + d') mod capacity t) = Some e"
      by (auto simp: slot_at_def)
    moreover have "(unat h + d') mod capacity t < length (slots t)"
      using sh shape_index(3) [OF sh] by (simp add: table_shape_def)
    ultimately have "e_key e \<noteq> k" using k by (metis slot_keys_nth)
    with e show ?thesis by (simp add: mod_simps)
  qed
  have "probe (capacity t) t k h (unat h mod capacity t)
    = probe (capacity t - d) t k h ((unat h mod capacity t + d) mod capacity t)"
    using d(1) shape_index(3) [OF sh] step by (intro probe_walk [OF sh]) simp_all
  also have "(unat h mod capacity t + d) mod capacity t = (unat h + d) mod capacity t"
    by (simp add: mod_simps)
  also have "capacity t - d = Suc (capacity t - d - 1)" using d(1) by simp
  finally show ?thesis using d(2) shape_index(2) [OF sh] by (simp add: slot_at_def)
qed

lemma find_slot_present:
  "table_wf hs t \<Longrightarrow> i < capacity t \<Longrightarrow> slots t ! i = Some e \<Longrightarrow> find_slot t (e_key e) (hs (e_key e)) = Some i"
  by (simp add: find_slot_def probe_present)

lemma find_slot_absent:
  assumes "table_wf hs t" "length (slot_keys (slots t)) < capacity t" "k \<notin> set (slot_keys (slots t))"
  shows "find_slot t k h = None"
proof -
  have sh: "table_shape t" using assms(1) by blast
  obtain d where "d < capacity t" "slot_at t h d = None" "\<And>d'. d' < d \<Longrightarrow> slot_at t h d' \<noteq> None"
    by (rule slot_at_vacancy [OF sh assms(2), of h]) blast
  from probe_absent [OF sh assms(3) this] show ?thesis by (simp add: find_slot_def)
qed

section \<open>A shard\<close>

record 'v shard =
  tbl :: "'v slot_table"
  slen :: nat

definition shard_new :: "nat \<Rightarrow> 'v shard" where
  "shard_new cap = \<lparr>tbl = slot_table_new cap, slen = 0\<rparr>"

definition shard_find :: "'v shard \<Rightarrow> string \<Rightarrow> u64 \<Rightarrow> nat option" where
  "shard_find sh k h = find_slot (tbl sh) k h"

definition entry_at :: "'v shard \<Rightarrow> nat \<Rightarrow> 'v entry" where
  "entry_at sh i = the (slots (tbl sh) ! i)"

definition put_entry :: "'v shard \<Rightarrow> nat \<Rightarrow> 'v entry \<Rightarrow> 'v shard" where
  "put_entry sh i e = sh\<lparr>tbl := set_slot (tbl sh) i e\<rparr>"

text \<open>Moving the live entries into a fresh table: \<open>place\<close> is the inner loop, with one round per
  slot of the new table.\<close>

fun place :: "nat \<Rightarrow> 'v slot_table \<Rightarrow> 'v entry \<Rightarrow> nat \<Rightarrow> 'v slot_table" where
  "place 0 t e i = t"
| "place (Suc n) t e i = (case slots t ! i of
      None \<Rightarrow> set_slot t i e
    | Some _ \<Rightarrow> place n t e ((i + 1) AND tmask t))"

definition move_slot :: "'v slot_table \<Rightarrow> 'v entry option \<Rightarrow> 'v slot_table" where
  "move_slot t s = (case s of None \<Rightarrow> t
     | Some e \<Rightarrow> if \<not> state_occupied (e_state e) then t
         else place (capacity t) t e (home t (e_hash e)))"

definition live_count :: "'v entry option list \<Rightarrow> nat" where
  "live_count ss = length (filter (\<lambda>s. case s of None \<Rightarrow> False | Some e \<Rightarrow> state_occupied (e_state e)) ss)"

definition grow_locked :: "'v shard \<Rightarrow> 'v shard" where
  "grow_locked sh = (let old = tbl sh in
     if slen sh < threshold old then sh
     else \<lparr>tbl = foldl move_slot (slot_table_new (next_power_of_two (capacity old * 2))) (slots old),
           slen = live_count (slots old)\<rparr>)"

text \<open>The retry loop of \<open>insert_new\<close>: \<^const>\<open>None\<close> if the rounds run out or the probe spins.\<close>

fun insert_new_loop :: "nat \<Rightarrow> 'v shard \<Rightarrow> string \<Rightarrow> 'v \<Rightarrow> u64 \<Rightarrow> ('v shard \<times> bool) option" where
  "insert_new_loop 0 sh k v h = None"
| "insert_new_loop (Suc n) sh k v h = (let t = tbl sh in
     if slen sh \<ge> threshold t then insert_new_loop n (grow_locked sh) k v h
     else case probe (capacity t) t k h (home t h) of
         Vacant i \<Rightarrow> Some (put_entry (sh\<lparr>slen := slen sh + 1\<rparr>) i
             \<lparr>e_hash = h, e_key = k, e_state = STATE_OCCUPIED, e_value = Some v\<rparr>, True)
       | Found i \<Rightarrow> (let e = entry_at sh i in
             Some (put_entry sh i (revive e v), \<not> state_occupied (e_state e)))
       | Spinning \<Rightarrow> None)"

definition insert_new :: "'v shard \<Rightarrow> string \<Rightarrow> 'v \<Rightarrow> u64 \<Rightarrow> 'v shard \<times> bool" where
  "insert_new sh k v h = (case insert_new_loop 2 sh k v h of Some r \<Rightarrow> r | None \<Rightarrow> (sh, False))"

definition insert_hashed :: "'v shard \<Rightarrow> string \<Rightarrow> 'v \<Rightarrow> u64 \<Rightarrow> 'v shard \<times> bool" where
  "insert_hashed sh k v h = (case shard_find sh k h of
      Some i \<Rightarrow> (let e = entry_at sh i in
        if state_occupied (e_state e) then (put_entry sh i (write_value e v), False)
        else (put_entry sh i (revive e v), True))
    | None \<Rightarrow> insert_new sh k v h)"

subsection \<open>The invariant of a shard and what its operations do\<close>

definition shard_wf :: "(string \<Rightarrow> u64) \<Rightarrow> 'v shard \<Rightarrow> bool" where
  "shard_wf hs sh \<longleftrightarrow> table_wf hs (tbl sh) \<and> slen sh = length (slot_keys (slots (tbl sh)))
     \<and> slen sh \<le> threshold (tbl sh)"

definition shard_lookup :: "'v shard \<Rightarrow> string \<Rightarrow> 'v option" where
  "shard_lookup sh = map_of (live_pairs (slots (tbl sh)))"

definition shard_keys :: "'v shard \<Rightarrow> string set" where
  "shard_keys sh = set (slot_keys (slots (tbl sh)))"

lemma threshold_less:
  assumes "table_shape t" shows "threshold t < capacity t"
proof -
  have "capacity t * 9 < capacity t * 10" using assms by (simp add: table_shape_def)
  then have "capacity t * 9 div 10 < capacity t" by (simp add: div_less_iff_less_mult)
  then show ?thesis using assms by (simp add: table_shape_def LOAD_NUM_def LOAD_DEN_def)
qed

lemma shard_room:
  assumes "shard_wf hs sh" shows "length (slot_keys (slots (tbl sh))) < capacity (tbl sh)"
  using assms threshold_less [of "tbl sh"] by (auto simp: shard_wf_def)

lemma shard_wf_new [simp]: "shard_wf hs (shard_new n)" "shard_lookup (shard_new n) = Map.empty"
  "shard_keys (shard_new n) = {}"
  by (simp_all add: shard_wf_def shard_new_def shard_lookup_def shard_keys_def)

lemma shard_find_absent: "shard_wf hs sh \<Longrightarrow> k \<notin> shard_keys sh \<Longrightarrow> shard_find sh k h = None"
  unfolding shard_find_def shard_keys_def
  by (rule find_slot_absent) (auto simp: shard_wf_def shard_room dest: shard_room)

lemma shard_find_present:
  assumes "shard_wf hs sh" "k \<in> shard_keys sh"
  obtains i where "shard_find sh k (hs k) = Some i" "i < capacity (tbl sh)"
    "slots (tbl sh) ! i = Some (entry_at sh i)" "e_key (entry_at sh i) = k" "entry_ok hs (entry_at sh i)"
    "shard_lookup sh k = live_value (entry_at sh i)"
proof -
  have wf: "table_wf hs (tbl sh)" using assms(1) by (simp add: shard_wf_def)
  then have len: "length (slots (tbl sh)) = capacity (tbl sh)"
    by (auto simp: table_wf_def table_shape_def)
  from assms(2) obtain i e where i: "i < length (slots (tbl sh))" "slots (tbl sh) ! i = Some e" "e_key e = k"
    unfolding shard_keys_def by (rule slot_keys_obtain)
  then have e: "entry_at sh i = e" by (simp add: entry_at_def)
  from wf i len have "find_slot (tbl sh) k (hs k) = Some i" using find_slot_present by metis
  moreover have "(slots (tbl sh))[i := Some e] = slots (tbl sh)" using i(2) by (metis list_update_id)
  then have "shard_lookup sh = (shard_lookup sh)(k := live_value e)"
    using live_pairs_upd [OF i(1), of e] i wf by (simp add: table_wf_def shard_lookup_def)
  then have "shard_lookup sh k = live_value e" by (metis fun_upd_same)
  ultimately show ?thesis using that [of i] e i len wf table_wf_entry [OF wf, of i e]
    by (simp add: shard_find_def)
qed

lemma put_entry_same:
  assumes "shard_wf hs sh" "i < capacity (tbl sh)" "slots (tbl sh) ! i = Some e0"
    "e_key e = e_key e0" "entry_ok hs e"
  shows "shard_wf hs (put_entry sh i e)" "shard_keys (put_entry sh i e) = shard_keys sh"
    "shard_lookup (put_entry sh i e) = (shard_lookup sh)(e_key e := live_value e)"
proof -
  have "table_wf hs (tbl sh)" using assms(1) by (simp add: shard_wf_def)
  note same = set_slot_same [OF this assms(2-5)]
  show "shard_wf hs (put_entry sh i e)" using assms(1) same(1,2)
    by (simp add: shard_wf_def put_entry_def del: set_slot_simps(1))
  show "shard_keys (put_entry sh i e) = shard_keys sh" using same(2)
    by (simp add: shard_keys_def put_entry_def del: set_slot_simps(1))
  show "shard_lookup (put_entry sh i e) = (shard_lookup sh)(e_key e := live_value e)" using same(3)
    by (simp add: shard_lookup_def put_entry_def del: set_slot_simps(1))
qed

subsection \<open>Growth\<close>

lemma place_finds:
  assumes sh: "table_shape t"
  shows "(\<And>d'. d' < d \<Longrightarrow> slots t ! ((i + d') mod capacity t) \<noteq> None) \<Longrightarrow>
    slots t ! ((i + d) mod capacity t) = None \<Longrightarrow> d < n \<Longrightarrow> i < capacity t \<Longrightarrow>
    place n t e i = set_slot t ((i + d) mod capacity t) e"
proof (induction d arbitrary: n i)
  case 0
  then show ?case by (cases n) simp_all
next
  case (Suc d)
  then obtain n' where n: "n = Suc n'" "d < n'" by (cases n) auto
  from Suc.prems(1) [of 0] Suc.prems(4) obtain e0 where "slots t ! i = Some e0" by auto
  then have "place n t e i = place n' t e ((i + 1) mod capacity t)"
    using n(1) shape_index(1) [OF sh] by simp
  also have "\<dots> = set_slot t (((i + 1) mod capacity t + d) mod capacity t) e"
    using Suc.prems(1) [of "Suc _"] Suc.prems(2) n(2) shape_index(3) [OF sh]
    by (intro Suc.IH) (auto simp: mod_simps)
  finally show ?case by (simp add: mod_simps)
qed

lemma place_new:
  assumes wf: "table_wf hs t" and k: "e_key e \<notin> set (slot_keys (slots t))" and ok: "entry_ok hs e"
    and room: "length (slot_keys (slots t)) < capacity t"
  defines "t' \<equiv> place (capacity t) t e (home t (e_hash e))"
  shows "table_wf hs t'" "capacity t' = capacity t" "threshold t' = threshold t"
    "mset (slot_keys (slots t')) = add_mset (e_key e) (mset (slot_keys (slots t)))"
    "map_of (live_pairs (slots t')) = (map_of (live_pairs (slots t)))(e_key e := live_value e)"
proof -
  have sh: "table_shape t" using wf by blast
  obtain d where d: "d < capacity t" "slot_at t (e_hash e) d = None"
    "\<And>d'. d' < d \<Longrightarrow> slot_at t (e_hash e) d' \<noteq> None"
    by (rule slot_at_vacancy [OF sh room, of "e_hash e"]) blast
  have "t' = set_slot t ((home t (e_hash e) + d) mod capacity t) e"
    unfolding t'_def using d shape_index [OF sh]
    by (intro place_finds [OF sh]) (simp_all add: slot_at_def mod_simps)
  then have t': "t' = set_slot t ((unat (e_hash e) + d) mod capacity t) e"
    using shape_index(2) [OF sh] by (simp add: mod_simps)
  then show "capacity t' = capacity t" "threshold t' = threshold t" by simp_all
  note new = set_slot_new [OF wf k ok d(1,2) d(3) refl, folded t']
  show "table_wf hs t'" by (rule new(1))
  show "mset (slot_keys (slots t')) = add_mset (e_key e) (mset (slot_keys (slots t)))" by (rule new(2))
  show "map_of (live_pairs (slots t')) = (map_of (live_pairs (slots t)))(e_key e := live_value e)"
    by (rule new(3))
qed

definition slots_ok :: "(string \<Rightarrow> u64) \<Rightarrow> 'v entry option list \<Rightarrow> bool" where
  "slots_ok hs ss \<longleftrightarrow> (\<forall>e. Some e \<in> set ss \<longrightarrow> entry_ok hs e)"

lemma table_wf_slots_ok: "table_wf hs t \<Longrightarrow> slots_ok hs (slots t)"
  by (auto simp: table_wf_def table_shape_def slots_ok_def in_set_conv_nth)

lemma live_count_length: "slots_ok hs ss \<Longrightarrow> live_count ss = length (live_pairs ss)"
proof (induction ss)
  case (Cons s ss)
  then show ?case
    by (cases s) (auto simp: live_count_def slots_ok_def entry_ok_def live_value_def split: option.splits)
qed (simp add: live_count_def)

lemma live_value_ok: "entry_ok hs e \<Longrightarrow> state_occupied (e_state e) \<Longrightarrow> \<exists>v. live_value e = Some v"
  by (auto simp: entry_ok_def live_value_def)

text \<open>Moving a list of slots into a table with enough room keeps the invariant, drops the
  tombstones, and adds exactly the live pairs.\<close>

lemma foldl_move_slot:
  assumes "table_wf hs t" "slots_ok hs ss" "distinct (slot_keys ss)"
    "set (slot_keys ss) \<inter> set (slot_keys (slots t)) = {}"
    "length (slot_keys (slots t)) + length (live_pairs ss) < capacity t"
  shows "table_wf hs (foldl move_slot t ss) \<and> capacity (foldl move_slot t ss) = capacity t
    \<and> threshold (foldl move_slot t ss) = threshold t
    \<and> mset (slot_keys (slots (foldl move_slot t ss)))
        = mset (slot_keys (slots t)) + mset (map fst (live_pairs ss))
    \<and> map_of (live_pairs (slots (foldl move_slot t ss)))
        = map_of (live_pairs (slots t)) ++ map_of (live_pairs ss)"
  using assms
proof (induction ss arbitrary: t)
  case (Cons s ss)
  have ok: "slots_ok hs ss" "distinct (slot_keys ss)"
    using Cons.prems(2,3) by (cases s; simp add: slots_ok_def)+
  show ?case
  proof (cases "\<exists>e. s = Some e \<and> state_occupied (e_state e)")
    case False
    then have "live_pairs (s # ss) = live_pairs ss" "move_slot t s = t"
      by (cases s; simp add: live_value_def move_slot_def)+
    moreover have "set (slot_keys ss) \<inter> set (slot_keys (slots t)) = {}"
      using Cons.prems(4) by (cases s) auto
    ultimately show ?thesis using Cons.IH [OF Cons.prems(1) ok] Cons.prems(5) by simp
  next
    case True
    then obtain e where e: "s = Some e" "state_occupied (e_state e)" by blast
    have eok: "entry_ok hs e" using Cons.prems(2) e(1) by (simp add: slots_ok_def)
    with e(2) obtain v where v: "live_value e = Some v" using live_value_ok by blast
    define t1 where "t1 = place (capacity t) t e (home t (e_hash e))"
    have k: "e_key e \<notin> set (slot_keys (slots t))" "e_key e \<notin> set (slot_keys ss)"
      using Cons.prems(3,4) e(1) by auto
    have room: "length (slot_keys (slots t)) < capacity t" using Cons.prems(5) by simp
    note new = place_new [OF Cons.prems(1) k(1) eok room, folded t1_def]
    have keys: "set (slot_keys (slots t1)) = insert (e_key e) (set (slot_keys (slots t)))"
      using new(4) by (metis set_mset_add_mset_insert set_mset_mset)
    have len: "length (slot_keys (slots t1)) = Suc (length (slot_keys (slots t)))"
      using new(4) by (metis size_add_mset size_mset)
    have fold: "foldl move_slot t (s # ss) = foldl move_slot t1 ss"
      using e by (simp add: move_slot_def t1_def)
    have maps: "map_of (live_pairs (slots t1)) ++ map_of (live_pairs ss)
        = map_of (live_pairs (slots t)) ++ map_of (live_pairs (s # ss))"
      using new(5) v e(1) map_of_live_None [OF k(2)]
      by (auto simp: fun_eq_iff map_add_def split: option.splits)
    have disj: "set (slot_keys ss) \<inter> set (slot_keys (slots t1)) = {}"
      using keys k(2) Cons.prems(4) e(1) by auto
    have "length (slot_keys (slots t1)) + length (live_pairs ss) < capacity t1"
      using len Cons.prems(5) new(2) v e(1) by simp
    from Cons.IH [OF new(1) ok disj this] show ?thesis
      unfolding fold maps [symmetric] using new(2,3,4) v e(1) by simp
  qed
qed simp

lemma live_pairs_distinct: "distinct (slot_keys ss) \<Longrightarrow> distinct (map fst (live_pairs ss))"
proof (induction ss)
  case (Cons s ss)
  then show ?case
    using live_keys_subset [of ss] by (cases s) (auto split: option.splits)
qed simp

lemma live_pairs_length: "length (live_pairs ss) \<le> length (slot_keys ss)"
proof (induction ss)
  case (Cons s ss)
  then show ?case by (cases s) (auto split: option.splits)
qed simp

text \<open>Rebuilding a shard on a fresh table of sufficient size: shared by growth and compaction.\<close>

lemma shard_rebuild:
  assumes wf: "shard_wf hs sh" and room: "length (live_pairs (slots (tbl sh))) \<le> threshold (slot_table_new n :: 'v slot_table)"
  defines "sh' \<equiv> \<lparr>tbl = foldl move_slot (slot_table_new n :: 'v slot_table) (slots (tbl sh)),
    slen = live_count (slots (tbl sh))\<rparr>"
  shows "shard_wf hs sh'" "shard_lookup sh' = shard_lookup sh" "shard_keys sh' \<subseteq> shard_keys sh"
    "threshold (tbl sh') = threshold (slot_table_new n :: 'v slot_table)"
    "slen sh' = length (live_pairs (slots (tbl sh)))"
proof -
  let ?t = "slot_table_new n :: 'v slot_table" and ?ss = "slots (tbl sh)"
  have t: "table_wf hs (tbl sh)" using wf by (simp add: shard_wf_def)
  have ok: "slots_ok hs ?ss" using t by (rule table_wf_slots_ok)
  have d: "distinct (slot_keys ?ss)" using t by (simp add: table_wf_def)
  have less: "length (live_pairs ?ss) < capacity ?t"
    using room threshold_less [OF table_shape_new, of n] by (rule le_less_trans)
  have moved: "table_wf hs (foldl move_slot ?t ?ss)" "threshold (foldl move_slot ?t ?ss) = threshold ?t"
    "mset (slot_keys (slots (foldl move_slot ?t ?ss))) = mset (map fst (live_pairs ?ss))"
    "map_of (live_pairs (slots (foldl move_slot ?t ?ss))) = map_of (live_pairs ?ss)"
    using foldl_move_slot [OF table_wf_new ok d, of n] less by simp_all
  have "length (slot_keys (slots (foldl move_slot ?t ?ss))) = length (live_pairs ?ss)"
    using moved(3) by (metis length_map size_mset)
  with moved room show "shard_wf hs sh'"
    unfolding shard_wf_def sh'_def by (simp add: live_count_length [OF ok])
  show "shard_lookup sh' = shard_lookup sh" using moved(4) by (simp add: shard_lookup_def sh'_def)
  show "shard_keys sh' \<subseteq> shard_keys sh"
    using live_keys_subset [of ?ss] moved(3) unfolding shard_keys_def sh'_def
    by (metis image_set select_convs(1) set_mset_mset)
  show "threshold (tbl sh') = threshold ?t" using moved(2) by (simp add: sh'_def)
  show "slen sh' = length (live_pairs (slots (tbl sh)))" by (simp add: sh'_def live_count_length [OF ok])
qed

lemma grow_locked_ok:
  assumes wf: "shard_wf hs sh"
  shows "shard_wf hs (grow_locked sh)" "shard_lookup (grow_locked sh) = shard_lookup sh"
    "shard_keys (grow_locked sh) \<subseteq> shard_keys sh" "slen (grow_locked sh) < threshold (tbl (grow_locked sh))"
proof -
  define n where "n = next_power_of_two (capacity (tbl sh) * 2)"
  let ?t = "slot_table_new n :: 'a slot_table"
  have shape: "table_shape (tbl sh)" using wf by (auto simp: shard_wf_def)
  then have cap: "8 \<le> capacity (tbl sh)" "threshold (tbl sh) = capacity (tbl sh) * 9 div 10"
    by (simp_all add: table_shape_def LOAD_NUM_def LOAD_DEN_def)
  have "capacity (tbl sh) * 2 \<le> n" unfolding n_def by (rule next_power_of_two_ge)
  also have "n \<le> capacity ?t"
    by (simp add: slot_table_new_def Let_def next_power_of_two_ge le_max_iff_disj)
  finally have "capacity (tbl sh) * 2 \<le> capacity ?t" .
  then have thr: "threshold (tbl sh) < threshold ?t"
    using cap by (simp add: slot_table_new_def Let_def LOAD_NUM_def LOAD_DEN_def)
  have live: "length (live_pairs (slots (tbl sh))) \<le> threshold (tbl sh)"
    using wf live_pairs_length [of "slots (tbl sh)"] by (simp add: shard_wf_def)
  have room: "length (live_pairs (slots (tbl sh))) \<le> threshold ?t" using live thr by simp
  note built = shard_rebuild [OF wf room]
  show "shard_wf hs (grow_locked sh)" "shard_lookup (grow_locked sh) = shard_lookup sh"
    "shard_keys (grow_locked sh) \<subseteq> shard_keys sh" "slen (grow_locked sh) < threshold (tbl (grow_locked sh))"
    unfolding grow_locked_def Let_def n_def [symmetric] using wf built live thr by simp_all
qed

lemma insert_new_room:
  assumes wf: "shard_wf hs sh" and k: "k \<notin> shard_keys sh" and room: "slen sh < threshold (tbl sh)"
  shows "\<exists>sh'. insert_new_loop (Suc n) sh k v (hs k) = Some (sh', True) \<and> shard_wf hs sh'
    \<and> shard_lookup sh' = (shard_lookup sh)(k \<mapsto> v) \<and> shard_keys sh' \<subseteq> insert k (shard_keys sh)"
proof -
  let ?t = "tbl sh"
  let ?e = "\<lparr>e_hash = hs k, e_key = k, e_state = STATE_OCCUPIED, e_value = Some v\<rparr>"
  have t: "table_wf hs ?t" using wf by (simp add: shard_wf_def)
  then have shp: "table_shape ?t" by blast
  have k': "k \<notin> set (slot_keys (slots ?t))" using k by (simp add: shard_keys_def)
  obtain d where d: "d < capacity ?t" "slot_at ?t (hs k) d = None"
    "\<And>d'. d' < d \<Longrightarrow> slot_at ?t (hs k) d' \<noteq> None"
    by (rule slot_at_vacancy [OF shp shard_room [OF wf], of "hs k"]) blast
  define i where "i = (unat (hs k) + d) mod capacity ?t"
  define t' where "t' = set_slot ?t i ?e"
  have ok: "entry_ok hs ?e" by (simp add: entry_ok_def state_bits)
  have live: "live_value ?e = Some v" by (simp add: live_value_def state_bits)
  have new: "table_wf hs t'" "mset (slot_keys (slots t')) = add_mset k (mset (slot_keys (slots ?t)))"
    "map_of (live_pairs (slots t')) = (map_of (live_pairs (slots ?t)))(k \<mapsto> v)"
    unfolding t'_def using set_slot_new [OF t _ ok, of d i] k' d live
    by (simp_all add: i_def del: set_slot_simps(1))
  have "length (slot_keys (slots t')) = Suc (slen sh)" "set (slot_keys (slots t')) = insert k (shard_keys sh)"
    using new(2) wf unfolding shard_wf_def shard_keys_def
    by (metis size_add_mset size_mset, metis set_mset_add_mset_insert set_mset_mset)
  moreover have "threshold t' = threshold ?t" by (simp add: t'_def)
  ultimately have "shard_wf hs \<lparr>tbl = t', slen = Suc (slen sh)\<rparr>"
    "shard_lookup \<lparr>tbl = t', slen = Suc (slen sh)\<rparr> = (shard_lookup sh)(k \<mapsto> v)"
    "shard_keys \<lparr>tbl = t', slen = Suc (slen sh)\<rparr> = insert k (shard_keys sh)"
    using new(1,3) room by (simp_all add: shard_wf_def shard_lookup_def shard_keys_def)
  moreover have "insert_new_loop (Suc n) sh k v (hs k) = Some (\<lparr>tbl = t', slen = Suc (slen sh)\<rparr>, True)"
    using room probe_absent [OF shp k' d] by (cases sh) (simp add: put_entry_def t'_def i_def Let_def)
  ultimately show ?thesis by auto
qed

lemma insert_new_ok:
  assumes wf: "shard_wf hs sh" and k: "k \<notin> shard_keys sh"
  shows "\<exists>sh'. insert_new_loop 2 sh k v (hs k) = Some (sh', True) \<and> insert_new sh k v (hs k) = (sh', True)
    \<and> shard_wf hs sh' \<and> shard_lookup sh' = (shard_lookup sh)(k \<mapsto> v)
    \<and> shard_keys sh' \<subseteq> insert k (shard_keys sh)"
proof (cases "slen sh < threshold (tbl sh)")
  case True
  from insert_new_room [OF wf k True, of 1 v] show ?thesis
    by (auto simp: insert_new_def numeral_2_eq_2)
next
  case False
  note grown = grow_locked_ok [OF wf]
  have "k \<notin> shard_keys (grow_locked sh)" using k grown(3) by blast
  from insert_new_room [OF grown(1) this grown(4), of 0 v] obtain sh' where
    "insert_new_loop 1 (grow_locked sh) k v (hs k) = Some (sh', True)" "shard_wf hs sh'"
    "shard_lookup sh' = (shard_lookup sh)(k \<mapsto> v)" "shard_keys sh' \<subseteq> insert k (shard_keys sh)"
    using grown(2,3) by auto
  moreover have "insert_new_loop 2 sh k v (hs k) = insert_new_loop 1 (grow_locked sh) k v (hs k)"
    using False by (simp add: numeral_2_eq_2)
  ultimately show ?thesis by (simp add: insert_new_def)
qed

lemma insert_hashed_ok:
  assumes wf: "shard_wf hs sh"
  obtains sh' where "insert_hashed sh k v (hs k) = (sh', shard_lookup sh k = None)" "shard_wf hs sh'"
    "shard_lookup sh' = (shard_lookup sh)(k \<mapsto> v)" "shard_keys sh' \<subseteq> insert k (shard_keys sh)"
proof (cases "k \<in> shard_keys sh")
  case True
  then obtain i where i: "shard_find sh k (hs k) = Some i" "i < capacity (tbl sh)"
    "slots (tbl sh) ! i = Some (entry_at sh i)" "e_key (entry_at sh i) = k" "entry_ok hs (entry_at sh i)"
    "shard_lookup sh k = live_value (entry_at sh i)"
    by (rule shard_find_present [OF wf])
  let ?e = "entry_at sh i"
  show ?thesis
  proof (cases "state_occupied (e_state ?e)")
    case True
    note put = put_entry_same [OF wf i(2,3), of "write_value ?e v"]
    from True i put live_value_ok [OF i(5) True] show ?thesis
      by (intro that [of "put_entry sh i (write_value ?e v)"]) (auto simp: insert_hashed_def Let_def)
  next
    case False
    note put = put_entry_same [OF wf i(2,3), of "revive ?e v"]
    from False i put show ?thesis
      by (intro that [of "put_entry sh i (revive ?e v)"])
        (auto simp: insert_hashed_def Let_def live_value_def [of ?e])
  qed
next
  case False
  then have "shard_lookup sh k = None"
    by (simp add: shard_lookup_def shard_keys_def map_of_live_None)
  moreover from insert_new_ok [OF wf False] obtain sh' where
    "insert_new sh k v (hs k) = (sh', True)" "shard_wf hs sh'"
    "shard_lookup sh' = (shard_lookup sh)(k \<mapsto> v)" "shard_keys sh' \<subseteq> insert k (shard_keys sh)"
    by blast
  ultimately show ?thesis using that shard_find_absent [OF wf False]
    by (simp add: insert_hashed_def)
qed

end
