(* ===== verification/Custom_Map.thy ===== *)
theory Custom_Map
  imports Shard
begin

text \<open>
  The sharded hash map that holds the key space (\<open>src/crates/customhash/src/lib.rs\<close> and
  \<open>ops.rs\<close>).  The hasher is a field of the map, as in the source; \<open>foldhash\<close>, which provides it, is
  not modelled, and every theorem holds for any hash function.  A closure argument is a function;
  a closure that updates captured variables takes and returns them as an extra argument.

  The contents of the map are the partial function \<open>cm_lookup\<close>.  The facts collected in
  \<open>map_laws\<close> describe every operation through it, and the storage layer is verified over them.
\<close>

section \<open>The operations\<close>

datatype full = Full

record 'v custom_map =
  shards :: "'v shard list"
  shift :: nat
  shard_mask :: nat
  hasher :: "string \<Rightarrow> u64"
  key_count :: nat
  max_keys :: nat

definition USIZE_MAX :: nat where "USIZE_MAX = 2 ^ 64 - 1"

fun trailing_zeros :: "nat \<Rightarrow> nat" where
  "trailing_zeros n = (if n = 0 then 64 else if odd n then 0 else Suc (trailing_zeros (n div 2)))"

declare trailing_zeros.simps [simp del]

definition cm_build :: "(string \<Rightarrow> u64) \<Rightarrow> nat \<Rightarrow> nat \<Rightarrow> nat \<Rightarrow> 'v custom_map" where
  "cm_build hs n per_shard limit = \<lparr>
     shards = map (\<lambda>_. shard_new per_shard) [0..<n],
     shift = min (64 - trailing_zeros n) 63,
     shard_mask = n - 1,
     hasher = hs,
     key_count = 0,
     max_keys = limit\<rparr>"

definition cm_with_shards :: "(string \<Rightarrow> u64) \<Rightarrow> nat \<Rightarrow> 'v custom_map" where
  "cm_with_shards hs n = cm_build hs (max (next_power_of_two n) 1) DEFAULT_SHARD_CAPACITY USIZE_MAX"

definition cm_with_capacity :: "(string \<Rightarrow> u64) \<Rightarrow> nat \<Rightarrow> nat \<Rightarrow> 'v custom_map" where
  "cm_with_capacity hs shard_count expected_keys =
     cm_build hs (max (next_power_of_two shard_count) 1) INITIAL_SHARD_CAPACITY expected_keys"

definition locate :: "'v custom_map \<Rightarrow> string \<Rightarrow> u64 \<times> nat" where
  "locate m k = (let h = hasher m k in (h, unat (drop_bit (shift m) h) AND shard_mask m))"

definition shard_of :: "'v custom_map \<Rightarrow> string \<Rightarrow> nat" where
  "shard_of m k = snd (locate m k)"

text \<open>The lookup every operation starts with: the entry of the key, and what to do with it.\<close>

definition found_entry :: "'v custom_map \<Rightarrow> string \<Rightarrow> (nat \<times> 'v entry) option" where
  "found_entry m k = (let (h, idx) = locate m k; sh = shards m ! idx in
     map_option (\<lambda>i. (i, entry_at sh i)) (shard_find sh k h))"

definition put_shard :: "'v custom_map \<Rightarrow> nat \<Rightarrow> 'v shard \<Rightarrow> 'v custom_map" where
  "put_shard m idx sh = m\<lparr>shards := (shards m)[idx := sh]\<rparr>"

definition put_found :: "'v custom_map \<Rightarrow> string \<Rightarrow> nat \<Rightarrow> 'v entry \<Rightarrow> 'v custom_map" where
  "put_found m k i e = (let idx = shard_of m k in put_shard m idx (put_entry (shards m ! idx) i e))"

definition cm_with_entry :: "'v custom_map \<Rightarrow> string \<Rightarrow> u64 \<Rightarrow> nat \<Rightarrow> ('v \<Rightarrow> 'r) \<Rightarrow> 'r option" where
  "cm_with_entry m k h idx f = (let sh = shards m ! idx in
     case shard_find sh k h of None \<Rightarrow> None
     | Some i \<Rightarrow> (let e = entry_at sh i in
         if \<not> state_occupied (e_state e) then None else Some (f (the (e_value e)))))"

definition cm_contains_key :: "'v custom_map \<Rightarrow> string \<Rightarrow> bool" where
  "cm_contains_key m k = (case found_entry m k of None \<Rightarrow> False
     | Some (i, e) \<Rightarrow> state_occupied (e_state e))"

definition cm_get :: "'v custom_map \<Rightarrow> string \<Rightarrow> 'v option" where
  "cm_get m k = (case found_entry m k of None \<Rightarrow> None
     | Some (i, e) \<Rightarrow> if \<not> state_occupied (e_state e) then None else Some (the (e_value e)))"

definition add_key :: "'v custom_map \<Rightarrow> bool \<Rightarrow> 'v custom_map" where
  "add_key m is_new = (if is_new then m\<lparr>key_count := key_count m + 1\<rparr> else m)"

definition cm_insert :: "'v custom_map \<Rightarrow> string \<Rightarrow> 'v \<Rightarrow> 'v custom_map \<times> bool" where
  "cm_insert m k v = (let (h, idx) = locate m k;
       (sh, is_new) = insert_hashed (shards m ! idx) k v h
     in (add_key (put_shard m idx sh) is_new, is_new))"

definition cm_try_insert :: "'v custom_map \<Rightarrow> string \<Rightarrow> 'v \<Rightarrow> 'v custom_map \<times> (full + bool)" where
  "cm_try_insert m k v =
     (if key_count m \<ge> max_keys m \<and> \<not> cm_contains_key m k then (m, Inl Full)
      else let (m', b) = cm_insert m k v in (m', Inr b))"

definition cm_set :: "'v custom_map \<Rightarrow> string \<Rightarrow> 'v \<Rightarrow> 'v custom_map \<times> bool" where
  "cm_set m k v = (case found_entry m k of
      Some (i, e) \<Rightarrow>
        if state_occupied (e_state e) then
          (let cur = state_seq_add (state_lock (e_state e));
               final_val = (cur + STATE_SEQ_ONE) AND NOT STATE_LOCK
           in (put_found m k i (e\<lparr>e_value := Some v, e_state := final_val\<rparr>), False))
        else
          (let cur = state_seq_add (state_lock (e_state e));
               final_val = ((cur + STATE_SEQ_ONE) OR STATE_OCCUPIED) AND NOT STATE_LOCK
           in (add_key (put_found m k i (e\<lparr>e_value := Some v, e_state := final_val\<rparr>)) True, True))
    | None \<Rightarrow> (let (h, idx) = locate m k; (sh, is_new) = insert_new (shards m ! idx) k v h
        in (add_key (put_shard m idx sh) is_new, is_new)))"

definition cm_try_set :: "'v custom_map \<Rightarrow> string \<Rightarrow> 'v \<Rightarrow> 'v custom_map \<times> (full + bool)" where
  "cm_try_set m k v =
     (if key_count m \<ge> max_keys m \<and> \<not> cm_contains_key m k then (m, Inl Full)
      else let (m', b) = cm_set m k v in (m', Inr b))"

text \<open>\<open>remove_with\<close>, of which \<open>remove\<close> and \<open>remove_no_clone\<close> are the instances that return a clone
  of the value and a flag.\<close>

definition cm_remove_with :: "'v custom_map \<Rightarrow> string \<Rightarrow> ('v \<Rightarrow> 'r) \<Rightarrow> 'v custom_map \<times> 'r option" where
  "cm_remove_with m k f = (case found_entry m k of None \<Rightarrow> (m, None)
     | Some (i, e) \<Rightarrow> if \<not> state_occupied (e_state e) then (m, None)
         else (let m' = put_found m k i (vacate e)
               in (m'\<lparr>key_count := key_count m' - 1\<rparr>, Some (f (the (e_value e))))))"

definition cm_remove :: "'v custom_map \<Rightarrow> string \<Rightarrow> 'v custom_map \<times> 'v option" where
  "cm_remove m k = (case found_entry m k of None \<Rightarrow> (m, None)
     | Some (i, e) \<Rightarrow> if \<not> state_occupied (e_state e) then (m, None)
         else (let m' = put_found m k i (vacate e)
               in (m'\<lparr>key_count := key_count m' - 1\<rparr>, Some (the (e_value e)))))"

definition cm_remove_no_clone :: "'v custom_map \<Rightarrow> string \<Rightarrow> 'v custom_map \<times> bool" where
  "cm_remove_no_clone m k = (case found_entry m k of None \<Rightarrow> (m, False)
     | Some (i, e) \<Rightarrow> if \<not> state_occupied (e_state e) then (m, False)
         else (let m' = put_found m k i (vacate e)
               in (m'\<lparr>key_count := key_count m' - 1\<rparr>, True)))"

definition cm_try_update ::
  "'v custom_map \<Rightarrow> string \<Rightarrow> ('v \<Rightarrow> ('v \<times> 'r) option) \<Rightarrow> 'v custom_map \<times> 'r option" where
  "cm_try_update m k f = (case found_entry m k of None \<Rightarrow> (m, None)
     | Some (i, e) \<Rightarrow> if \<not> state_occupied (e_state e) then (put_found m k i (lock_unlock e), None)
         else (case f (the (e_value e)) of
             Some (new_val, r) \<Rightarrow> (put_found m k i (write_value e new_val), Some r)
           | None \<Rightarrow> (put_found m k i (lock_unlock e), None)))"

definition cm_update ::
  "'v custom_map \<Rightarrow> string \<Rightarrow> ('v \<Rightarrow> 'v \<times> 'r) \<Rightarrow> 'v custom_map \<times> 'r option" where
  "cm_update m k f = (case found_entry m k of None \<Rightarrow> (m, None)
     | Some (i, e) \<Rightarrow> if \<not> state_occupied (e_state e) then (put_found m k i (lock_unlock e), None)
         else (let (new_val, r) = f (the (e_value e))
               in (put_found m k i (write_value e new_val), Some r)))"

definition cm_update_with ::
  "'v custom_map \<Rightarrow> string \<Rightarrow> ('v \<Rightarrow> 'v \<times> 'r) \<Rightarrow> 'v custom_map \<times> 'r option" where
  "cm_update_with m k f = (case found_entry m k of None \<Rightarrow> (m, None)
     | Some (i, e) \<Rightarrow> if \<not> state_occupied (e_state e) then (put_found m k i (lock_unlock e), None)
         else (let (new_val, r) = f (the (e_value e))
               in (put_found m k i (write_value e new_val), Some r)))"

definition cm_get_locked :: "'v custom_map \<Rightarrow> string \<Rightarrow> ('v \<Rightarrow> 'r) \<Rightarrow> 'v custom_map \<times> 'r option" where
  "cm_get_locked m k f = (case found_entry m k of None \<Rightarrow> (m, None)
     | Some (i, e) \<Rightarrow> (put_found m k i (lock_unlock e),
         if \<not> state_occupied (e_state e) then None else Some (f (the (e_value e)))))"

text \<open>\<open>read_consistent\<close> retries while the sequence number is odd.  With no concurrent writer an
  odd number never becomes even: the loop then has no result, the value \<^const>\<open>None\<close> of
  \<open>read_loop\<close>.\<close>

definition read_loop :: "'v entry \<Rightarrow> ('v \<Rightarrow> 'r) \<Rightarrow> 'r option option" where
  "read_loop e f = (if state_seq (e_state e) AND 1 \<noteq> 0 then None
     else if \<not> state_occupied (e_state e) then Some None
     else Some (Some (f (the (e_value e)))))"

definition cm_read_consistent :: "'v custom_map \<Rightarrow> string \<Rightarrow> ('v \<Rightarrow> 'r) \<Rightarrow> 'r option" where
  "cm_read_consistent m k f = (case found_entry m k of None \<Rightarrow> None
     | Some (i, e) \<Rightarrow> (case read_loop e f of Some r \<Rightarrow> r | None \<Rightarrow> None))"

definition cm_insert_if_absent :: "'v custom_map \<Rightarrow> string \<Rightarrow> 'v \<Rightarrow> 'v custom_map \<times> bool" where
  "cm_insert_if_absent m k v = (case found_entry m k of
      Some (i, e) \<Rightarrow> if state_occupied (e_state e) then (m, False)
        else (add_key (put_found m k i (revive e v)) True, True)
    | None \<Rightarrow> (let (h, idx) = locate m k; (sh, is_new) = insert_new (shards m ! idx) k v h
        in (add_key (put_shard m idx sh) is_new, is_new)))"

definition cm_len :: "'v custom_map \<Rightarrow> nat" where
  "cm_len m = key_count m"

definition cm_is_empty :: "'v custom_map \<Rightarrow> bool" where
  "cm_is_empty m = (cm_len m = 0)"

subsection \<open>Traversals and maintenance\<close>

definition shard_pairs :: "'v shard \<Rightarrow> (string \<times> 'v) list" where
  "shard_pairs sh = live_pairs (slots (tbl sh))"

definition all_pairs :: "'v custom_map \<Rightarrow> (string \<times> 'v) list" where
  "all_pairs m = concat (map shard_pairs (shards m))"

definition cm_for_each :: "'v custom_map \<Rightarrow> (string \<Rightarrow> 'v \<Rightarrow> 's \<Rightarrow> 's) \<Rightarrow> 's \<Rightarrow> 's" where
  "cm_for_each m f s = fold (\<lambda>(k, v). f k v) (all_pairs m) s"

definition cm_keys :: "'v custom_map \<Rightarrow> string list" where
  "cm_keys m = cm_for_each m (\<lambda>k _ out. out @ [k]) []"

definition cm_defragment_values :: "'v custom_map \<Rightarrow> nat \<Rightarrow> ('v \<Rightarrow> 'v) \<Rightarrow> 'v custom_map \<times> nat" where
  "cm_defragment_values m budget rebuild = foldl (\<lambda>(m, rebuilt) key.
       case cm_update_with m key (\<lambda>v. (rebuild v, ())) of
         (m', Some _) \<Rightarrow> (m', rebuilt + 1)
       | (m', None) \<Rightarrow> (m', rebuilt)) (m, 0) (take budget (cm_keys m))"

text \<open>One round of the loop over slots in \<open>retain\<close> and \<open>retain_shard_range\<close>.\<close>

definition retain_slot ::
  "(string \<Rightarrow> 'v \<Rightarrow> 's \<Rightarrow> bool \<times> 's) \<Rightarrow> nat \<Rightarrow> nat \<Rightarrow> 'v custom_map \<times> 's \<Rightarrow> 'v custom_map \<times> 's" where
  "retain_slot f idx i ms = (case ms of (m, s) \<Rightarrow> (let sh = shards m ! idx in
     case slots (tbl sh) ! i of None \<Rightarrow> (m, s)
     | Some e \<Rightarrow> if \<not> state_occupied (e_state e) then (m, s)
         else (let (keep, s') = f (e_key e) (the (e_value e)) s in
           if keep then (m, s')
           else let m' = put_shard m idx (put_entry sh i (vacate e))
                in (m'\<lparr>key_count := key_count m' - 1\<rparr>, s'))))"

definition cm_retain ::
  "'v custom_map \<Rightarrow> (string \<Rightarrow> 'v \<Rightarrow> 's \<Rightarrow> bool \<times> 's) \<Rightarrow> 's \<Rightarrow> 'v custom_map \<times> 's" where
  "cm_retain m f s = fold (\<lambda>idx ms. fold (retain_slot f idx)
       [0..<capacity (tbl (shards (fst ms) ! idx))] ms) [0..<length (shards m)] (m, s)"

definition cm_retain_shard_range ::
  "'v custom_map \<Rightarrow> nat \<Rightarrow> nat \<Rightarrow> nat \<Rightarrow> (string \<Rightarrow> 'v \<Rightarrow> 's \<Rightarrow> bool \<times> 's) \<Rightarrow> 's
    \<Rightarrow> ('v custom_map \<times> 's) \<times> (nat \<times> nat) option" where
  "cm_retain_shard_range m idx start_slot max_slots f s =
     (if idx \<ge> length (shards m) then ((m, s), None)
      else let cap = capacity (tbl (shards m ! idx));
               start = min start_slot cap;
               fin = min (min (start + max_slots) USIZE_MAX) cap
           in (fold (retain_slot f idx) [start..<fin] (m, s), Some (fin, cap)))"

definition cm_retain_shard ::
  "'v custom_map \<Rightarrow> nat \<Rightarrow> (string \<Rightarrow> 'v \<Rightarrow> 's \<Rightarrow> bool \<times> 's) \<Rightarrow> 's \<Rightarrow> 'v custom_map \<times> 's" where
  "cm_retain_shard m idx f s = fst (cm_retain_shard_range m idx 0 USIZE_MAX f s)"

definition compact_table :: "'v shard \<Rightarrow> 'v shard" where
  "compact_table sh = (let old = tbl sh; live = live_count (slots old);
       new_cap = max (next_power_of_two (live * LOAD_DEN div LOAD_NUM + 1)) 8
     in if new_cap \<ge> capacity old then sh
        else \<lparr>tbl = foldl move_slot (slot_table_new new_cap) (slots old), slen = live\<rparr>)"

definition cm_compact_shard :: "'v custom_map \<Rightarrow> nat \<Rightarrow> 'v custom_map" where
  "cm_compact_shard m idx = (if idx \<ge> length (shards m) then m
     else put_shard m idx (compact_table (shards m ! idx)))"

definition cm_clear :: "'v custom_map \<Rightarrow> 'v custom_map" where
  "cm_clear m = m\<lparr>shards := map (\<lambda>_. shard_new INITIAL_SHARD_CAPACITY) (shards m), key_count := 0\<rparr>"

definition cm_shard_count :: "'v custom_map \<Rightarrow> nat" where
  "cm_shard_count m = length (shards m)"

text \<open>Indexing past the last shard panics: \<^const>\<open>None\<close>.\<close>

definition cm_shard_slot_count :: "'v custom_map \<Rightarrow> nat \<Rightarrow> nat option" where
  "cm_shard_slot_count m idx = (if idx < length (shards m) then Some (capacity (tbl (shards m ! idx))) else None)"

definition cm_shard_layout_matches :: "'v custom_map \<Rightarrow> nat list \<Rightarrow> bool" where
  "cm_shard_layout_matches m capacities = (length capacities = length (shards m)
     \<and> list_all (\<lambda>(sh, cap). capacity (tbl sh) = cap) (zip (shards m) capacities))"

definition cm_peek_slot_with ::
  "'v custom_map \<Rightarrow> nat \<Rightarrow> nat \<Rightarrow> (string \<Rightarrow> 'v \<Rightarrow> 'r) \<Rightarrow> 'r option option" where
  "cm_peek_slot_with m idx slot f = (if idx \<ge> length (shards m) then None
     else Some (let t = tbl (shards m ! idx) in
       if slot \<ge> capacity t then None
       else case slots t ! slot of None \<Rightarrow> None
         | Some e \<Rightarrow> if \<not> state_occupied (e_state e) then None
             else Some (f (e_key e) (the (e_value e)))))"

definition cm_peek_slot :: "'v custom_map \<Rightarrow> nat \<Rightarrow> nat \<Rightarrow> (string \<times> 'v) option option" where
  "cm_peek_slot m idx slot = (if idx \<ge> length (shards m) then None
     else Some (let t = tbl (shards m ! idx) in
       if slot \<ge> capacity t then None
       else case slots t ! slot of None \<Rightarrow> None
         | Some e \<Rightarrow> if \<not> state_occupied (e_state e) then None
             else Some (e_key e, the (e_value e))))"

section \<open>The invariant and the contents\<close>

definition cm_lookup :: "'v custom_map \<Rightarrow> string \<Rightarrow> 'v option" where
  "cm_lookup m k = shard_lookup (shards m ! shard_of m k) k"

definition cm_wf :: "'v custom_map \<Rightarrow> bool" where
  "cm_wf m \<longleftrightarrow> (\<exists>k. length (shards m) = 2 ^ k) \<and> shard_mask m = length (shards m) - 1
     \<and> (\<forall>i<length (shards m). shard_wf (hasher m) (shards m ! i)
          \<and> (\<forall>k\<in>shard_keys (shards m ! i). shard_of m k = i))
     \<and> key_count m = card (dom (cm_lookup m))"

lemma shard_of_less: "cm_wf m \<Longrightarrow> shard_of m k < length (shards m)"
proof -
  assume "cm_wf m"
  then obtain j where "length (shards m) = 2 ^ j" "shard_mask m = 2 ^ j - 1"
    by (auto simp: cm_wf_def)
  then show ?thesis by (simp only: shard_of_def locate_def Let_def snd_conv and_pow2_minus_1) simp
qed

lemma cm_wf_shard: "cm_wf m \<Longrightarrow> i < length (shards m) \<Longrightarrow> shard_wf (hasher m) (shards m ! i)"
  by (simp add: cm_wf_def)

lemma cm_wf_located: "cm_wf m \<Longrightarrow> i < length (shards m) \<Longrightarrow> k \<in> shard_keys (shards m ! i) \<Longrightarrow> shard_of m k = i"
  by (simp add: cm_wf_def)

lemma shard_lookup_keys: "shard_lookup sh k = Some v \<Longrightarrow> k \<in> shard_keys sh"
  unfolding shard_lookup_def shard_keys_def by (metis map_of_live_None option.distinct(1))

lemma finite_cm_lookup: "cm_wf m \<Longrightarrow> finite (dom (cm_lookup m))"
proof -
  assume wf: "cm_wf m"
  have "dom (cm_lookup m) \<subseteq> (\<Union>sh\<in>set (shards m). dom (shard_lookup sh))"
    using shard_of_less [OF wf] by (force simp: cm_lookup_def)
  moreover have "finite (\<Union>sh\<in>set (shards m). dom (shard_lookup sh))"
    by (simp add: shard_lookup_def finite_dom_map_of)
  ultimately show ?thesis by (rule finite_subset)
qed

lemma put_shard_simps [simp]:
  "hasher (put_shard m i sh) = hasher m" "shift (put_shard m i sh) = shift m"
  "shard_mask (put_shard m i sh) = shard_mask m" "key_count (put_shard m i sh) = key_count m"
  "max_keys (put_shard m i sh) = max_keys m" "shards (put_shard m i sh) = (shards m)[i := sh]"
  by (simp_all add: put_shard_def)

lemma shard_of_cong [simp]:
  "shard_of (put_shard m i sh) = shard_of m" "shard_of (m\<lparr>key_count := n\<rparr>) = shard_of m"
  by (simp_all add: fun_eq_iff shard_of_def locate_def)

lemma cm_lookup_key_count [simp]: "cm_lookup (m\<lparr>key_count := n\<rparr>) = cm_lookup m"
  by (simp add: cm_lookup_def fun_eq_iff)

text \<open>Every operation on one key replaces the shard of that key by one that differs in the
  contents at that key only.\<close>

lemma replace_shard:
  assumes wf: "cm_wf m" and i: "i = shard_of m k" and sh: "shard_wf (hasher m) sh"
    and look: "shard_lookup sh = (shard_lookup (shards m ! i))(k := x)"
    and keys: "shard_keys sh \<subseteq> insert k (shard_keys (shards m ! i))"
  shows "cm_lookup (put_shard m i sh) = (cm_lookup m)(k := x)"
    "n = card (dom ((cm_lookup m)(k := x))) \<Longrightarrow> cm_wf ((put_shard m i sh)\<lparr>key_count := n\<rparr>)"
proof -
  have less: "shard_of m k' < length (shards m)" for k' using wf by (rule shard_of_less)
  show *: "cm_lookup (put_shard m i sh) = (cm_lookup m)(k := x)"
  proof
    fix k'
    show "cm_lookup (put_shard m i sh) k' = ((cm_lookup m)(k := x)) k'"
      using look i less [of k] by (cases "shard_of m k' = i") (auto simp: cm_lookup_def nth_list_update)
  qed
  assume n: "n = card (dom ((cm_lookup m)(k := x)))"
  have "shard_of m k' = j" if "j < length (shards m)" "k' \<in> shard_keys ((shards m)[i := sh] ! j)" for j k'
    using that keys i cm_wf_located [OF wf, of j k'] less [of k]
    by (cases "j = i") (auto simp: subset_iff)
  moreover have "shard_wf (hasher m) ((shards m)[i := sh] ! j)" if "j < length (shards m)" for j
    using that sh cm_wf_shard [OF wf, of j] by (cases "j = i") auto
  ultimately show "cm_wf ((put_shard m i sh)\<lparr>key_count := n\<rparr>)"
    using wf n * by (simp add: cm_wf_def)
qed

lemma card_dom_upd:
  assumes "finite (dom f)"
  shows "card (dom (f(k \<mapsto> v))) = (if f k = None then card (dom f) + 1 else card (dom f))"
    "card (dom (f(k := None))) = (if f k = None then card (dom f) else card (dom f) - 1)"
  using assms by (auto simp: dom_fun_upd card_insert_if insert_absorb domIff)

lemma cm_wf_key_count: "cm_wf m \<Longrightarrow> key_count m = card (dom (cm_lookup m))"
  by (simp add: cm_wf_def)

lemma put_shard_key_count: "(put_shard m i sh)\<lparr>key_count := key_count m\<rparr> = put_shard m i sh"
  by (simp add: put_shard_def)

text \<open>The three ways the count of keys follows.\<close>

lemma replace_shard_count:
  assumes wf: "cm_wf m" and i: "i = shard_of m k" and sh: "shard_wf (hasher m) sh"
    and look: "shard_lookup sh = (shard_lookup (shards m ! i))(k := x)"
    and keys: "shard_keys sh \<subseteq> insert k (shard_keys (shards m ! i))"
  shows "cm_lookup m k = None \<Longrightarrow> x = Some v \<Longrightarrow> cm_wf (add_key (put_shard m i sh) True)"
    "(x = None \<longleftrightarrow> cm_lookup m k = None) \<Longrightarrow> cm_wf (put_shard m i sh)"
    "cm_lookup m k \<noteq> None \<Longrightarrow> x = None \<Longrightarrow> cm_wf ((put_shard m i sh)\<lparr>key_count := key_count m - 1\<rparr>)"
proof -
  note fin = finite_cm_lookup [OF wf]
  note rep = replace_shard(2) [OF wf i sh look keys]
  show "cm_lookup m k = None \<Longrightarrow> x = Some v \<Longrightarrow> cm_wf (add_key (put_shard m i sh) True)"
    unfolding add_key_def using rep card_dom_upd(1) [OF fin, of k v] cm_wf_key_count [OF wf] by simp
  have "(x = None \<longleftrightarrow> cm_lookup m k = None) \<Longrightarrow> card (dom ((cm_lookup m)(k := x))) = card (dom (cm_lookup m))"
    by (cases x) (auto simp: card_dom_upd [OF fin] simp del: dom_fun_upd)
  then show "(x = None \<longleftrightarrow> cm_lookup m k = None) \<Longrightarrow> cm_wf (put_shard m i sh)"
    using rep [of "key_count m"] cm_wf_key_count [OF wf] by (metis put_shard_key_count)
  show "cm_lookup m k \<noteq> None \<Longrightarrow> x = None \<Longrightarrow> cm_wf ((put_shard m i sh)\<lparr>key_count := key_count m - 1\<rparr>)"
    using rep [of "key_count m - 1"] card_dom_upd(2) [OF fin, of k] cm_wf_key_count [OF wf] by metis
qed

section \<open>The operations through the contents\<close>

lemma locate_eq: "locate m k = (hasher m k, shard_of m k)"
  by (simp add: shard_of_def locate_def Let_def)

lemma found_entry_None:
  assumes wf: "cm_wf m" and none: "found_entry m k = None"
  shows "k \<notin> shard_keys (shards m ! shard_of m k)" "cm_lookup m k = None"
proof -
  have sh: "shard_wf (hasher m) (shards m ! shard_of m k)"
    using wf shard_of_less cm_wf_shard by metis
  show *: "k \<notin> shard_keys (shards m ! shard_of m k)"
  proof
    assume "k \<in> shard_keys (shards m ! shard_of m k)"
    then obtain i where "shard_find (shards m ! shard_of m k) k (hasher m k) = Some i"
      by (rule shard_find_present [OF sh])
    with none show False by (simp add: found_entry_def locate_eq Let_def)
  qed
  then show "cm_lookup m k = None"
    unfolding cm_lookup_def by (metis shard_lookup_keys not_None_eq)
qed

lemma found_entry_Some:
  assumes wf: "cm_wf m" and some: "found_entry m k = Some (i, e)"
  shows "e_key e = k" "entry_ok (hasher m) e" "cm_lookup m k = live_value e"
    "i < capacity (tbl (shards m ! shard_of m k))" "slots (tbl (shards m ! shard_of m k)) ! i = Some e"
proof -
  let ?sh = "shards m ! shard_of m k"
  have sh: "shard_wf (hasher m) ?sh" using wf shard_of_less cm_wf_shard by metis
  have "k \<in> shard_keys ?sh"
  proof (rule ccontr)
    assume "k \<notin> shard_keys ?sh"
    from shard_find_absent [OF sh this] some show False
      by (simp add: found_entry_def locate_eq Let_def)
  qed
  then obtain j where j: "shard_find ?sh k (hasher m k) = Some j" "j < capacity (tbl ?sh)"
    "slots (tbl ?sh) ! j = Some (entry_at ?sh j)" "e_key (entry_at ?sh j) = k"
    "entry_ok (hasher m) (entry_at ?sh j)" "shard_lookup ?sh k = live_value (entry_at ?sh j)"
    by (rule shard_find_present [OF sh])
  with some have ie: "i = j" "e = entry_at ?sh j" by (auto simp: found_entry_def locate_eq Let_def)
  show "e_key e = k" "entry_ok (hasher m) e" "cm_lookup m k = live_value e"
    "i < capacity (tbl ?sh)" "slots (tbl ?sh) ! i = Some e"
    using j unfolding ie by (simp_all add: cm_lookup_def)
qed

lemma put_found_ok:
  assumes wf: "cm_wf m" and some: "found_entry m k = Some (i, e)"
    and e': "e_key e' = k" "entry_ok (hasher m) e'"
  shows "cm_lookup (put_found m k i e') = (cm_lookup m)(k := live_value e')"
    "cm_lookup m k = None \<Longrightarrow> live_value e' = Some v \<Longrightarrow> cm_wf (add_key (put_found m k i e') True)"
    "(live_value e' = None \<longleftrightarrow> cm_lookup m k = None) \<Longrightarrow> cm_wf (put_found m k i e')"
    "cm_lookup m k \<noteq> None \<Longrightarrow> live_value e' = None \<Longrightarrow>
      cm_wf ((put_found m k i e')\<lparr>key_count := key_count (put_found m k i e') - 1\<rparr>)"
proof -
  let ?sh = "shards m ! shard_of m k"
  have sh: "shard_wf (hasher m) ?sh" using wf shard_of_less cm_wf_shard by metis
  note e = found_entry_Some [OF wf some]
  have "e_key e' = e_key e" using e(1) e'(1) by simp
  note put = put_entry_same [OF sh e(4,5) this e'(2)]
  have pf: "put_found m k i e' = put_shard m (shard_of m k) (put_entry ?sh i e')"
    by (simp add: put_found_def Let_def)
  have keys: "shard_keys (put_entry ?sh i e') \<subseteq> insert k (shard_keys ?sh)" using put(2) by blast
  note look = put(3) [unfolded e'(1)]
  show "cm_lookup (put_found m k i e') = (cm_lookup m)(k := live_value e')"
    unfolding pf by (rule replace_shard(1) [OF wf refl put(1) look keys])
  note cnt = replace_shard_count [OF wf refl put(1) look keys, folded pf]
  show "cm_lookup m k = None \<Longrightarrow> live_value e' = Some v \<Longrightarrow> cm_wf (add_key (put_found m k i e') True)"
    by (rule cnt(1))
  show "(live_value e' = None \<longleftrightarrow> cm_lookup m k = None) \<Longrightarrow> cm_wf (put_found m k i e')"
    by (rule cnt(2))
  have "key_count (put_found m k i e') = key_count m" by (simp add: pf)
  then show "cm_lookup m k \<noteq> None \<Longrightarrow> live_value e' = None \<Longrightarrow>
      cm_wf ((put_found m k i e')\<lparr>key_count := key_count (put_found m k i e') - 1\<rparr>)"
    using cnt(3) by simp
qed

lemma cm_lookup_add_key [simp]: "cm_lookup (add_key m b) = cm_lookup m"
  by (simp add: add_key_def)

lemma hasher_simps [simp]: "hasher (put_found m k i e) = hasher m" "hasher (add_key m b) = hasher m"
  "max_keys (put_found m k i e) = max_keys m" "max_keys (add_key m b) = max_keys m"
  by (simp_all add: put_found_def add_key_def Let_def)

lemma found_cases:
  assumes wf: "cm_wf m"
  obtains (absent) "found_entry m k = None" "cm_lookup m k = None"
  | (dead) i e where "found_entry m k = Some (i, e)" "\<not> state_occupied (e_state e)"
      "cm_lookup m k = None" "e_key e = k" "entry_ok (hasher m) e"
  | (live) i e v where "found_entry m k = Some (i, e)" "state_occupied (e_state e)"
      "e_value e = Some v" "cm_lookup m k = Some v" "e_key e = k" "entry_ok (hasher m) e"
proof (cases "found_entry m k")
  case None
  then show ?thesis by (rule absent) (rule found_entry_None(2) [OF wf None])
next
  case (Some ie)
  obtain i e where ie: "ie = (i, e)" by (cases ie)
  note e = found_entry_Some [OF wf Some [unfolded ie]]
  show ?thesis
  proof (cases "state_occupied (e_state e)")
    case True
    then obtain v where v: "e_value e = Some v" using e(2) by (auto simp: entry_ok_def)
    with True e(3) have "cm_lookup m k = Some v" by (simp add: live_value_def)
    then show ?thesis using live [OF _ True v _ e(1,2)] Some ie by simp
  next
    case False
    with e(3) have "cm_lookup m k = None" by (simp add: live_value_def)
    then show ?thesis using dead [OF _ False _ e(1,2)] Some ie by simp
  qed
qed

text \<open>Placing a new key with \<open>insert_new\<close>.\<close>

lemma put_new_ok:
  assumes wf: "cm_wf m" and none: "found_entry m k = None"
  shows "\<exists>sh. insert_new (shards m ! shard_of m k) k v (hasher m k) = (sh, True)
    \<and> cm_lookup (put_shard m (shard_of m k) sh) = (cm_lookup m)(k \<mapsto> v)
    \<and> cm_wf (add_key (put_shard m (shard_of m k) sh) True)"
proof -
  let ?sh = "shards m ! shard_of m k"
  have sh: "shard_wf (hasher m) ?sh" using wf shard_of_less cm_wf_shard by metis
  note absent = found_entry_None [OF wf none]
  from insert_new_ok [OF sh absent(1), of v] obtain sh' where
    new: "insert_new ?sh k v (hasher m k) = (sh', True)" "shard_wf (hasher m) sh'"
    "shard_lookup sh' = (shard_lookup ?sh)(k \<mapsto> v)" "shard_keys sh' \<subseteq> insert k (shard_keys ?sh)"
    by blast
  show ?thesis
    using new(1) replace_shard(1) [OF wf refl new(2-4)]
      replace_shard_count(1) [OF wf refl new(2-4) absent(2) refl] by simp
qed

lemma cm_contains_key_lookup [map_laws]: "cm_wf m \<Longrightarrow> cm_contains_key m k = (cm_lookup m k \<noteq> None)"
  by (erule found_cases [of m k]) (simp_all add: cm_contains_key_def)

lemma cm_get_lookup [map_laws]: "cm_wf m \<Longrightarrow> cm_get m k = cm_lookup m k"
  by (erule found_cases [of m k]) (simp_all add: cm_get_def)

lemma cm_with_entry_lookup [map_laws]:
  "cm_wf m \<Longrightarrow> cm_with_entry m k (hasher m k) (shard_of m k) f = map_option f (cm_lookup m k)"
proof -
  assume wf: "cm_wf m"
  have "cm_with_entry m k (hasher m k) (shard_of m k) f = map_option f (cm_get m k)"
    by (auto simp: cm_with_entry_def cm_get_def found_entry_def locate_eq Let_def split: option.split)
  with wf show ?thesis by (simp add: cm_get_lookup)
qed

lemma read_loop_ok: "entry_ok hs e \<Longrightarrow> read_loop e f = Some (map_option f (live_value e))"
proof -
  assume ok: "entry_ok hs e"
  have "odd (state_seq (e_state e)) \<longleftrightarrow> bit (e_state e) 2"
    by (simp add: state_seq_def bit_0 [symmetric] bit_ucast_iff bit_drop_bit_eq del: bit_0)
  then have "state_seq (e_state e) AND 1 = 0 \<longleftrightarrow> \<not> bit (e_state e) 2"
    by (auto simp add: and_one_eq even_iff_mod_2_eq_zero [symmetric])
  with ok show ?thesis by (auto simp: read_loop_def entry_ok_def state_quiescent_def live_value_def)
qed

lemma cm_read_consistent_lookup [map_laws]:
  "cm_wf m \<Longrightarrow> cm_read_consistent m k f = map_option f (cm_lookup m k)"
  by (erule found_cases [of m k]) (simp_all add: cm_read_consistent_def read_loop_ok live_value_def)

lemma lookup_upd_id: "f k = x \<Longrightarrow> f(k := x) = f"
  by auto

lemma cm_get_locked_ok:
  assumes wf: "cm_wf m"
  shows "snd (cm_get_locked m k f) = map_option f (cm_lookup m k)
    \<and> cm_lookup (fst (cm_get_locked m k f)) = cm_lookup m \<and> cm_wf (fst (cm_get_locked m k f))"
  using wf
proof (cases rule: found_cases [of m k])
  case absent
  with wf show ?thesis by (simp add: cm_get_locked_def)
next
  case (dead i e)
  note put = put_found_ok [OF wf dead(1), of "lock_unlock e"]
  from dead put show ?thesis by (simp add: cm_get_locked_def live_value_def [of e] lookup_upd_id)
next
  case (live i e v)
  note put = put_found_ok [OF wf live(1), of "lock_unlock e"]
  from live put show ?thesis by (simp add: cm_get_locked_def live_value_def [of e] lookup_upd_id)
qed

lemma cm_insert_ok:
  assumes wf: "cm_wf m"
  shows "snd (cm_insert m k v) = (cm_lookup m k = None)
    \<and> cm_lookup (fst (cm_insert m k v)) = (cm_lookup m)(k \<mapsto> v) \<and> cm_wf (fst (cm_insert m k v))"
proof -
  let ?sh = "shards m ! shard_of m k"
  have sh: "shard_wf (hasher m) ?sh" using wf shard_of_less cm_wf_shard by metis
  obtain sh' where new: "insert_hashed ?sh k v (hasher m k) = (sh', shard_lookup ?sh k = None)"
    "shard_wf (hasher m) sh'" "shard_lookup sh' = (shard_lookup ?sh)(k \<mapsto> v)"
    "shard_keys sh' \<subseteq> insert k (shard_keys ?sh)"
    by (rule insert_hashed_ok [OF sh])
  have look: "shard_lookup ?sh k = cm_lookup m k" by (simp add: cm_lookup_def)
  note rep = replace_shard(1) [OF wf refl new(2-4)] replace_shard_count [OF wf refl new(2-4)]
  have "cm_insert m k v = (add_key (put_shard m (shard_of m k) sh') (cm_lookup m k = None), cm_lookup m k = None)"
    using new(1) by (simp add: cm_insert_def locate_eq look)
  with rep show ?thesis by (cases "cm_lookup m k") (simp_all add: add_key_def)
qed

lemma set_state_words:
  assumes "entry_ok hs e"
  shows "let st = (state_seq_add (state_lock (e_state e)) + STATE_SEQ_ONE) AND NOT STATE_LOCK
    in state_occupied st = state_occupied (e_state e) \<and> state_quiescent st"
    "let st = ((state_seq_add (state_lock (e_state e)) + STATE_SEQ_ONE) OR STATE_OCCUPIED) AND NOT STATE_LOCK
    in state_occupied st \<and> state_quiescent st"
proof -
  have fold: "st + STATE_SEQ_ONE = state_seq_add st" for st by (simp add: state_seq_add_def)
  have bits: "bit (st AND NOT STATE_LOCK) n = (bit st n \<and> n \<noteq> 0)"
    "bit (st OR STATE_OCCUPIED) n = (bit st n \<or> n = 1)" if "n < 64" for st n
    using that by (auto simp: bit_simps)
  show "let st = (state_seq_add (state_lock (e_state e)) + STATE_SEQ_ONE) AND NOT STATE_LOCK
    in state_occupied st = state_occupied (e_state e) \<and> state_quiescent st"
    "let st = ((state_seq_add (state_lock (e_state e)) + STATE_SEQ_ONE) OR STATE_OCCUPIED) AND NOT STATE_LOCK
    in state_occupied st \<and> state_quiescent st"
    using assms unfolding fold Let_def entry_ok_def by (simp_all add: state_bits bits)
qed

lemma cm_set_ok:
  assumes wf: "cm_wf m"
  shows "snd (cm_set m k v) = (cm_lookup m k = None)
    \<and> cm_lookup (fst (cm_set m k v)) = (cm_lookup m)(k \<mapsto> v) \<and> cm_wf (fst (cm_set m k v))"
  using wf
proof (cases rule: found_cases [of m k])
  case absent
  with put_new_ok [OF wf absent(1), of v] show ?thesis
    by (auto simp: cm_set_def locate_eq)
next
  case (dead i e)
  let ?st = "((state_seq_add (state_lock (e_state e)) + STATE_SEQ_ONE) OR STATE_OCCUPIED) AND NOT STATE_LOCK"
  let ?e = "e\<lparr>e_value := Some v, e_state := ?st\<rparr>"
  have "entry_ok (hasher m) ?e" "live_value ?e = Some v"
    using dead set_state_words(2) [OF dead(5)] by (simp_all add: entry_ok_def live_value_def Let_def)
  then show ?thesis using dead put_found_ok [OF wf dead(1), of ?e] by (simp add: cm_set_def Let_def)
next
  case (live i e v0)
  let ?st = "(state_seq_add (state_lock (e_state e)) + STATE_SEQ_ONE) AND NOT STATE_LOCK"
  let ?e = "e\<lparr>e_value := Some v, e_state := ?st\<rparr>"
  have "entry_ok (hasher m) ?e" "live_value ?e = Some v"
    using live set_state_words(1) [OF live(6)] by (simp_all add: entry_ok_def live_value_def Let_def)
  then show ?thesis using live put_found_ok [OF wf live(1), of ?e] by (simp add: cm_set_def Let_def)
qed

lemma cm_insert_if_absent_ok:
  assumes wf: "cm_wf m"
  shows "snd (cm_insert_if_absent m k v) = (cm_lookup m k = None)
    \<and> cm_lookup (fst (cm_insert_if_absent m k v)) =
        (if cm_lookup m k = None then (cm_lookup m)(k \<mapsto> v) else cm_lookup m)
    \<and> cm_wf (fst (cm_insert_if_absent m k v))"
  using wf
proof (cases rule: found_cases [of m k])
  case absent
  with put_new_ok [OF wf absent(1), of v] show ?thesis
    by (auto simp: cm_insert_if_absent_def locate_eq)
next
  case (dead i e)
  then show ?thesis using put_found_ok [OF wf dead(1), of "revive e v"]
    by (simp add: cm_insert_if_absent_def)
next
  case (live i e v0)
  with wf show ?thesis by (simp add: cm_insert_if_absent_def)
qed

lemma cm_remove_with_ok:
  assumes wf: "cm_wf m"
  shows "snd (cm_remove_with m k f) = map_option f (cm_lookup m k)
    \<and> cm_lookup (fst (cm_remove_with m k f)) = (cm_lookup m)(k := None) \<and> cm_wf (fst (cm_remove_with m k f))"
  using wf
proof (cases rule: found_cases [of m k])
  case absent
  with wf show ?thesis by (simp add: cm_remove_with_def lookup_upd_id)
next
  case (dead i e)
  with wf show ?thesis by (simp add: cm_remove_with_def lookup_upd_id)
next
  case (live i e v)
  then show ?thesis using put_found_ok [OF wf live(1), of "vacate e"]
    by (simp add: cm_remove_with_def Let_def)
qed

lemma cm_remove_ok:
  assumes wf: "cm_wf m"
  shows "snd (cm_remove m k) = cm_lookup m k
    \<and> cm_lookup (fst (cm_remove m k)) = (cm_lookup m)(k := None) \<and> cm_wf (fst (cm_remove m k))"
  using wf
proof (cases rule: found_cases [of m k])
  case absent
  with wf show ?thesis by (simp add: cm_remove_def lookup_upd_id)
next
  case (dead i e)
  with wf show ?thesis by (simp add: cm_remove_def lookup_upd_id)
next
  case (live i e v)
  then show ?thesis using put_found_ok [OF wf live(1), of "vacate e"]
    by (simp add: cm_remove_def Let_def)
qed

lemma cm_remove_no_clone_ok:
  assumes wf: "cm_wf m"
  shows "snd (cm_remove_no_clone m k) = (cm_lookup m k \<noteq> None)
    \<and> cm_lookup (fst (cm_remove_no_clone m k)) = (cm_lookup m)(k := None) \<and> cm_wf (fst (cm_remove_no_clone m k))"
  using wf
proof (cases rule: found_cases [of m k])
  case absent
  with wf show ?thesis by (simp add: cm_remove_no_clone_def lookup_upd_id)
next
  case (dead i e)
  with wf show ?thesis by (simp add: cm_remove_no_clone_def lookup_upd_id)
next
  case (live i e v)
  then show ?thesis using put_found_ok [OF wf live(1), of "vacate e"]
    by (simp add: cm_remove_no_clone_def Let_def)
qed

lemma cm_try_update_ok:
  assumes wf: "cm_wf m"
  shows "snd (cm_try_update m k f) = Option.bind (cm_lookup m k) (\<lambda>v. map_option snd (f v))
    \<and> cm_lookup (fst (cm_try_update m k f)) = (case Option.bind (cm_lookup m k) f of
         None \<Rightarrow> cm_lookup m | Some (v', r) \<Rightarrow> (cm_lookup m)(k \<mapsto> v'))
    \<and> cm_wf (fst (cm_try_update m k f))"
  using wf
proof (cases rule: found_cases [of m k])
  case absent
  with wf show ?thesis by (simp add: cm_try_update_def)
next
  case (dead i e)
  then show ?thesis using put_found_ok [OF wf dead(1), of "lock_unlock e"]
    by (simp add: cm_try_update_def live_value_def [of e] lookup_upd_id)
next
  case (live i e v)
  show ?thesis
  proof (cases "f v")
    case None
    then show ?thesis using live put_found_ok [OF wf live(1), of "lock_unlock e"]
      by (simp add: cm_try_update_def live_value_def [of e] lookup_upd_id)
  next
    case (Some vr)
    then show ?thesis using live put_found_ok [OF wf live(1), of "write_value e (fst vr)"]
      by (cases vr) (simp add: cm_try_update_def)
  qed
qed

lemma cm_update_with_try: "cm_update_with m k f = cm_try_update m k (\<lambda>v. Some (f v))"
  by (simp add: cm_update_with_def cm_try_update_def split: option.split prod.split)

lemma cm_update_try: "cm_update m k f = cm_try_update m k (\<lambda>v. Some (f v))"
  by (simp add: cm_update_def cm_try_update_def split: option.split prod.split)

lemma cm_update_with_ok:
  assumes wf: "cm_wf m"
  shows "snd (cm_update_with m k f) = map_option (snd \<circ> f) (cm_lookup m k)
    \<and> cm_lookup (fst (cm_update_with m k f)) = (case cm_lookup m k of
         None \<Rightarrow> cm_lookup m | Some v \<Rightarrow> (cm_lookup m)(k \<mapsto> fst (f v)))
    \<and> cm_wf (fst (cm_update_with m k f))"
  using cm_try_update_ok [OF wf, of k "\<lambda>v. Some (f v)"] unfolding cm_update_with_try
  by (simp split: option.splits prod.splits)

lemma cm_update_ok:
  assumes wf: "cm_wf m"
  shows "snd (cm_update m k f) = map_option (snd \<circ> f) (cm_lookup m k)
    \<and> cm_lookup (fst (cm_update m k f)) = (case cm_lookup m k of
         None \<Rightarrow> cm_lookup m | Some v \<Rightarrow> (cm_lookup m)(k \<mapsto> fst (f v)))
    \<and> cm_wf (fst (cm_update m k f))"
  using cm_update_with_ok [OF wf, of k f] unfolding cm_update_with_try cm_update_try .

lemma cm_try_set_ok:
  assumes wf: "cm_wf m"
  shows "cm_try_set m k v = (if max_keys m \<le> key_count m \<and> cm_lookup m k = None then (m, Inl Full)
    else (fst (cm_set m k v), Inr (cm_lookup m k = None)))"
  using cm_set_ok [OF wf, of k v] cm_contains_key_lookup [OF wf, of k]
  by (cases "cm_set m k v") (simp add: cm_try_set_def)

lemma cm_try_insert_ok:
  assumes wf: "cm_wf m"
  shows "cm_try_insert m k v = (if max_keys m \<le> key_count m \<and> cm_lookup m k = None then (m, Inl Full)
    else (fst (cm_insert m k v), Inr (cm_lookup m k = None)))"
  using cm_insert_ok [OF wf, of k v] cm_contains_key_lookup [OF wf, of k]
  by (cases "cm_insert m k v") (simp add: cm_try_insert_def)

lemma cm_len_card [map_laws]: "cm_wf m \<Longrightarrow> cm_len m = card (dom (cm_lookup m))"
  by (simp add: cm_len_def cm_wf_key_count)

lemmas cm_op_laws [map_laws] =
  cm_get_locked_ok [THEN conjunct1] cm_get_locked_ok [THEN conjunct2, THEN conjunct1]
  cm_get_locked_ok [THEN conjunct2, THEN conjunct2]
  cm_insert_ok [THEN conjunct1] cm_insert_ok [THEN conjunct2, THEN conjunct1]
  cm_insert_ok [THEN conjunct2, THEN conjunct2]
  cm_set_ok [THEN conjunct1] cm_set_ok [THEN conjunct2, THEN conjunct1]
  cm_set_ok [THEN conjunct2, THEN conjunct2]
  cm_insert_if_absent_ok [THEN conjunct1] cm_insert_if_absent_ok [THEN conjunct2, THEN conjunct1]
  cm_insert_if_absent_ok [THEN conjunct2, THEN conjunct2]
  cm_remove_with_ok [THEN conjunct1] cm_remove_with_ok [THEN conjunct2, THEN conjunct1]
  cm_remove_with_ok [THEN conjunct2, THEN conjunct2]
  cm_remove_ok [THEN conjunct1] cm_remove_ok [THEN conjunct2, THEN conjunct1]
  cm_remove_ok [THEN conjunct2, THEN conjunct2]
  cm_remove_no_clone_ok [THEN conjunct1] cm_remove_no_clone_ok [THEN conjunct2, THEN conjunct1]
  cm_remove_no_clone_ok [THEN conjunct2, THEN conjunct2]
  cm_try_update_ok [THEN conjunct1] cm_try_update_ok [THEN conjunct2, THEN conjunct1]
  cm_try_update_ok [THEN conjunct2, THEN conjunct2]
  cm_update_with_ok [THEN conjunct1] cm_update_with_ok [THEN conjunct2, THEN conjunct1]
  cm_update_with_ok [THEN conjunct2, THEN conjunct2]
  cm_update_ok [THEN conjunct1] cm_update_ok [THEN conjunct2, THEN conjunct1]
  cm_update_ok [THEN conjunct2, THEN conjunct2]
  cm_try_set_ok cm_try_insert_ok

subsection \<open>Construction, clearing, compaction\<close>

lemma cm_wf_build:
  assumes "n = 2 ^ j"
  shows "cm_wf (cm_build hs n c l :: 'v custom_map)"
    "cm_lookup (cm_build hs n c l :: 'v custom_map) = Map.empty"
proof -
  let ?m = "cm_build hs n c l :: 'v custom_map"
  have less: "shard_of ?m k < n" for k
    using assms by (simp add: shard_of_def locate_def Let_def cm_build_def and_pow2_minus_1 del: One_nat_def)
  have sh: "i < n \<Longrightarrow> shards ?m ! i = shard_new c" for i by (simp add: cm_build_def)
  show empty: "cm_lookup ?m = Map.empty"
    by (rule ext) (simp add: cm_lookup_def sh [OF less])
  have "length (shards ?m) = n" "shard_mask ?m = n - 1" "key_count ?m = 0"
    by (simp_all add: cm_build_def)
  then show "cm_wf ?m" using assms empty sh by (simp add: cm_wf_def)
qed

lemma next_power_of_two_max_1: "\<exists>j. max (next_power_of_two n) 1 = 2 ^ j"
proof -
  obtain j where "next_power_of_two n = 2 ^ j" using next_power_of_two_power by blast
  then have "max (next_power_of_two n) 1 = 2 ^ j" by simp
  then show ?thesis by blast
qed

lemma cm_with_capacity_ok [map_laws]:
  "cm_wf (cm_with_capacity hs n l)" "cm_lookup (cm_with_capacity hs n l) = Map.empty"
  "cm_wf (cm_with_shards hs n)" "cm_lookup (cm_with_shards hs n) = Map.empty"
  using next_power_of_two_max_1 [of n] cm_wf_build
  unfolding cm_with_capacity_def cm_with_shards_def by metis+

lemma cm_clear_ok [map_laws]:
  assumes wf: "cm_wf m"
  shows "cm_wf (cm_clear m)" "cm_lookup (cm_clear m) = Map.empty"
proof -
  have so: "shard_of (cm_clear m) = shard_of m"
    by (simp add: fun_eq_iff shard_of_def locate_def cm_clear_def)
  show empty: "cm_lookup (cm_clear m) = Map.empty"
    using shard_of_less [OF wf] by (simp add: fun_eq_iff cm_lookup_def so) (simp add: cm_clear_def)
  then show "cm_wf (cm_clear m)" using wf by (simp add: cm_wf_def so) (simp add: cm_clear_def)
qed

lemma compact_table_ok:
  assumes wf: "shard_wf hs sh"
  shows "shard_wf hs (compact_table sh)" "shard_lookup (compact_table sh) = shard_lookup sh"
    "shard_keys (compact_table sh) \<subseteq> shard_keys sh"
proof -
  let ?live = "live_count (slots (tbl sh))"
  define n where "n = max (next_power_of_two (?live * LOAD_DEN div LOAD_NUM + 1)) 8"
  let ?t = "slot_table_new n :: 'a slot_table"
  have "slots_ok hs (slots (tbl sh))" using wf by (simp add: shard_wf_def table_wf_slots_ok)
  then have live: "?live = length (live_pairs (slots (tbl sh)))" by (rule live_count_length)
  have "?live * 10 div 9 + 1 \<le> n"
    unfolding n_def LOAD_DEN_def LOAD_NUM_def using next_power_of_two_ge by (simp add: le_max_iff_disj)
  also have "n \<le> capacity ?t"
    by (simp add: slot_table_new_def Let_def next_power_of_two_ge le_max_iff_disj)
  finally have "?live \<le> capacity ?t * 9 div 10" by linarith
  then have "length (live_pairs (slots (tbl sh))) \<le> threshold ?t"
    using live by (simp add: slot_table_new_def Let_def LOAD_NUM_def LOAD_DEN_def)
  note built = shard_rebuild [OF wf this]
  show "shard_wf hs (compact_table sh)" "shard_lookup (compact_table sh) = shard_lookup sh"
    "shard_keys (compact_table sh) \<subseteq> shard_keys sh"
    unfolding compact_table_def Let_def n_def [symmetric] using wf built by simp_all
qed

lemma cm_compact_shard_ok [map_laws]:
  assumes wf: "cm_wf m"
  shows "cm_wf (cm_compact_shard m i)" "cm_lookup (cm_compact_shard m i) = cm_lookup m"
proof -
  have "cm_wf (cm_compact_shard m i) \<and> cm_lookup (cm_compact_shard m i) = cm_lookup m"
  proof (cases "i < length (shards m)")
    case True
    note comp = compact_table_ok [OF cm_wf_shard [OF wf True]]
    have look: "cm_lookup (put_shard m i (compact_table (shards m ! i))) = cm_lookup m"
    proof
      fix k
      show "cm_lookup (put_shard m i (compact_table (shards m ! i))) k = cm_lookup m k"
        using comp(2) shard_of_less [OF wf, of k]
        by (cases "shard_of m k = i") (simp_all add: cm_lookup_def)
    qed
    have "shard_wf (hasher m) ((shards m)[i := compact_table (shards m ! i)] ! j)
        \<and> (\<forall>k\<in>shard_keys ((shards m)[i := compact_table (shards m ! i)] ! j). shard_of m k = j)"
      if "j < length (shards m)" for j
      using that comp cm_wf_shard [OF wf, of j] cm_wf_located [OF wf, of j]
      by (cases "j = i") (auto simp: subset_iff)
    with wf look have "cm_wf (put_shard m i (compact_table (shards m ! i)))"
      by (simp add: cm_wf_def)
    with look True show ?thesis by (simp add: cm_compact_shard_def)
  qed (use wf in \<open>simp add: cm_compact_shard_def\<close>)
  then show "cm_wf (cm_compact_shard m i)" "cm_lookup (cm_compact_shard m i) = cm_lookup m" by simp_all
qed

subsection \<open>Traversals\<close>

lemma shard_pairs_lookup:
  assumes "shard_wf hs sh"
  shows "distinct (map fst (shard_pairs sh))" "(k, v) \<in> set (shard_pairs sh) \<longleftrightarrow> shard_lookup sh k = Some v"
proof -
  show d: "distinct (map fst (shard_pairs sh))"
    using assms unfolding shard_pairs_def by (intro live_pairs_distinct) (simp add: shard_wf_def table_wf_def)
  then show "(k, v) \<in> set (shard_pairs sh) \<longleftrightarrow> shard_lookup sh k = Some v"
    by (simp add: shard_lookup_def shard_pairs_def)
qed

lemma all_pairs_lookup:
  assumes wf: "cm_wf m"
  shows "(k, v) \<in> set (all_pairs m) \<longleftrightarrow> cm_lookup m k = Some v"
proof
  assume "(k, v) \<in> set (all_pairs m)"
  then obtain sh where "sh \<in> set (shards m)" "(k, v) \<in> set (shard_pairs sh)"
    by (auto simp: all_pairs_def)
  then obtain i where i: "i < length (shards m)" "(k, v) \<in> set (shard_pairs (shards m ! i))"
    by (metis in_set_conv_nth)
  from i have look: "shard_lookup (shards m ! i) k = Some v"
    using shard_pairs_lookup(2) [OF cm_wf_shard [OF wf i(1)]] by simp
  then have "shard_of m k = i" using cm_wf_located [OF wf i(1)] shard_lookup_keys by metis
  with look show "cm_lookup m k = Some v" by (simp add: cm_lookup_def)
next
  assume "cm_lookup m k = Some v"
  then have "(k, v) \<in> set (shard_pairs (shards m ! shard_of m k))"
    using shard_pairs_lookup(2) [OF cm_wf_shard [OF wf shard_of_less [OF wf]]] by (simp add: cm_lookup_def)
  then show "(k, v) \<in> set (all_pairs m)"
    using nth_mem [OF shard_of_less [OF wf, of k]] by (auto simp: all_pairs_def)
qed

lemma distinct_concat_disjoint:
  assumes "\<And>i. i < length xss \<Longrightarrow> distinct (xss ! i)"
    and "\<And>i j. i < j \<Longrightarrow> j < length xss \<Longrightarrow> set (xss ! i) \<inter> set (xss ! j) = {}"
  shows "distinct (concat xss)"
  using assms
proof (induction xss)
  case (Cons xs xss)
  have "distinct (concat xss)"
    using Cons.prems(1) [of "Suc _"] Cons.prems(2) [of "Suc _" "Suc _"] by (intro Cons.IH) simp_all
  moreover have "set xs \<inter> set ys = {}" if "ys \<in> set xss" for ys
  proof -
    from that obtain j where "j < length xss" "ys = xss ! j" by (metis in_set_conv_nth)
    then show ?thesis using Cons.prems(2) [of 0 "Suc j"] by simp
  qed
  then have "set xs \<inter> set (concat xss) = {}" by auto
  ultimately show ?case using Cons.prems(1) [of 0] by simp
qed simp

lemma all_pairs_distinct:
  assumes wf: "cm_wf m"
  shows "distinct (map fst (all_pairs m))"
proof -
  let ?xss = "map (map fst \<circ> shard_pairs) (shards m)"
  have "shard_of m k = i" if "i < length (shards m)" "k \<in> fst ` set (shard_pairs (shards m ! i))" for i k
  proof -
    from that(2) obtain v where "(k, v) \<in> set (shard_pairs (shards m ! i))" by auto
    then have "shard_lookup (shards m ! i) k = Some v"
      using shard_pairs_lookup(2) [OF cm_wf_shard [OF wf that(1)]] by simp
    then show ?thesis using cm_wf_located [OF wf that(1)] shard_lookup_keys by metis
  qed
  note loc = this
  have "set (?xss ! i) \<inter> set (?xss ! j) = {}" if "i < j" "j < length ?xss" for i j
  proof (rule ccontr)
    assume "set (?xss ! i) \<inter> set (?xss ! j) \<noteq> {}"
    moreover have "i < length (shards m)" "j < length (shards m)" using that by simp_all
    ultimately obtain k where "k \<in> fst ` set (shard_pairs (shards m ! i))" "k \<in> fst ` set (shard_pairs (shards m ! j))"
      by auto
    with loc [of i k] loc [of j k] that show False by simp
  qed
  moreover have "distinct (?xss ! i)" if "i < length ?xss" for i
    using that shard_pairs_lookup(1) [OF cm_wf_shard [OF wf, of i]] by simp
  ultimately have "distinct (concat ?xss)" by (intro distinct_concat_disjoint) auto
  then show ?thesis by (simp add: all_pairs_def map_concat)
qed

lemma map_of_all_pairs: "cm_wf m \<Longrightarrow> map_of (all_pairs m) = cm_lookup m"
proof
  fix k
  assume wf: "cm_wf m"
  have "map_of (all_pairs m) k = Some v \<longleftrightarrow> cm_lookup m k = Some v" for v
    using all_pairs_lookup [OF wf] all_pairs_distinct [OF wf] by simp
  then show "map_of (all_pairs m) k = cm_lookup m k" by (metis not_None_eq)
qed

lemma length_all_pairs: "cm_wf m \<Longrightarrow> length (all_pairs m) = cm_len m"
proof -
  assume wf: "cm_wf m"
  have "dom (cm_lookup m) = fst ` set (all_pairs m)"
    using map_of_all_pairs [OF wf] dom_map_of_conv_image_fst by metis
  then show ?thesis using all_pairs_distinct [OF wf]
    by (metis cm_len_card [OF wf] distinct_card length_map list.set_map)
qed

lemma cm_keys_pairs: "cm_keys m = map fst (all_pairs m)"
proof -
  have "fold (\<lambda>(k, v) out. out @ [k]) ps acc = acc @ map fst ps" for ps :: "(string \<times> 'a) list" and acc
    by (induction ps arbitrary: acc) auto
  then show ?thesis by (simp add: cm_keys_def cm_for_each_def)
qed

lemma cm_keys_ok [map_laws]:
  assumes "cm_wf m"
  shows "set (cm_keys m) = dom (cm_lookup m)" "distinct (cm_keys m)" "length (cm_keys m) = cm_len m"
proof -
  show "set (cm_keys m) = dom (cm_lookup m)"
    using map_of_all_pairs [OF assms] by (simp add: cm_keys_pairs flip: dom_map_of_conv_image_fst)
  show "distinct (cm_keys m)" using all_pairs_distinct [OF assms] by (simp add: cm_keys_pairs)
  show "length (cm_keys m) = cm_len m" using length_all_pairs [OF assms] by (simp add: cm_keys_pairs)
qed

text \<open>One step of a retaining traversal whose verdict depends only on the key and the value.\<close>

definition keep_if :: "(string \<Rightarrow> 'v \<Rightarrow> bool) \<Rightarrow> string set \<Rightarrow> (string \<Rightarrow> 'v option) \<Rightarrow> string \<Rightarrow> 'v option" where
  "keep_if P ks f k = (case f k of None \<Rightarrow> None
     | Some v \<Rightarrow> if k \<in> ks \<and> \<not> P k v then None else Some v)"

lemma keep_if_simps:
  "keep_if P {} f = f" "keep_if P A (keep_if P B f) = keep_if P (A \<union> B) f"
  "f k = None \<Longrightarrow> keep_if P {k} f = f" "f k = Some v \<Longrightarrow> P k v \<Longrightarrow> keep_if P {k} f = f"
  "f k = Some v \<Longrightarrow> \<not> P k v \<Longrightarrow> keep_if P {k} f = f(k := None)"
  by (auto simp: keep_if_def fun_eq_iff split: option.splits)

definition slot_key :: "'v custom_map \<Rightarrow> nat \<Rightarrow> nat \<Rightarrow> string option" where
  "slot_key m idx i = map_option e_key (slots (tbl (shards m ! idx)) ! i)"

definition slot_count :: "'v custom_map \<Rightarrow> nat \<Rightarrow> nat" where
  "slot_count m idx = capacity (tbl (shards m ! idx))"

lemma slot_entry:
  assumes wf: "cm_wf m" and idx: "idx < length (shards m)" and i: "i < slot_count m idx"
    and e: "slots (tbl (shards m ! idx)) ! i = Some e"
  shows "shard_of m (e_key e) = idx" "cm_lookup m (e_key e) = live_value e" "entry_ok (hasher m) e"
proof -
  let ?sh = "shards m ! idx"
  have sh: "shard_wf (hasher m) ?sh" using cm_wf_shard [OF wf idx] .
  then have t: "table_wf (hasher m) (tbl ?sh)" by (simp add: shard_wf_def)
  then have len: "i < length (slots (tbl ?sh))" and d: "distinct (slot_keys (slots (tbl ?sh)))"
    using i by (auto simp: table_wf_def table_shape_def slot_count_def)
  show "entry_ok (hasher m) e" using table_wf_entry [OF t _ e] i by (simp add: slot_count_def)
  have "e_key e \<in> shard_keys ?sh" using slot_keys_nth [OF len e] by (simp add: shard_keys_def)
  then show so: "shard_of m (e_key e) = idx" by (rule cm_wf_located [OF wf idx])
  have "(slots (tbl ?sh))[i := Some e] = slots (tbl ?sh)" using e by (metis list_update_id)
  then have "shard_lookup ?sh = (shard_lookup ?sh)(e_key e := live_value e)"
    using live_pairs_upd [OF len, of e] e d by (simp add: shard_lookup_def)
  then have "shard_lookup ?sh (e_key e) = live_value e" by (metis fun_upd_same)
  then show "cm_lookup m (e_key e) = live_value e" by (simp add: cm_lookup_def so)
qed

lemma retain_slot_ok:
  assumes wf: "cm_wf m" and P: "\<And>k v s. fst (f k v s) = P k v"
    and idx: "idx < length (shards m)" and i: "i < slot_count m idx"
  shows "cm_wf (fst (retain_slot f idx i (m, s)))
    \<and> cm_lookup (fst (retain_slot f idx i (m, s))) = keep_if P (set_option (slot_key m idx i)) (cm_lookup m)
    \<and> snd (retain_slot f idx i (m, s)) = (case live_pair (slots (tbl (shards m ! idx)) ! i) of
         None \<Rightarrow> s | Some (k, v) \<Rightarrow> snd (f k v s))"
proof (cases "slots (tbl (shards m ! idx)) ! i")
  case None
  with wf show ?thesis by (simp add: retain_slot_def slot_key_def keep_if_simps live_pair_def)
next
  case (Some e)
  note e = slot_entry [OF wf idx i Some]
  have key: "slot_key m idx i = Some (e_key e)" using Some by (simp add: slot_key_def)
  show ?thesis
  proof (cases "state_occupied (e_state e)")
    case False
    with wf e(2) Some key show ?thesis
      by (simp add: retain_slot_def keep_if_simps live_value_def live_pair_def)
  next
    case True
    then obtain v where v: "e_value e = Some v" using e(3) by (auto simp: entry_ok_def)
    with True e(2) have look: "cm_lookup m (e_key e) = Some v" by (simp add: live_value_def)
    have lp: "live_pair (Some e) = Some (e_key e, v)" using True v by (simp add: live_pair_def live_value_def)
    obtain b s' where fb: "f (e_key e) v s = (b, s')" by (cases "f (e_key e) v s")
    with P [of "e_key e" v s] have b: "b = P (e_key e) v" by simp
    show ?thesis
    proof (cases b)
      case True
      with b fb look v wf Some key lp \<open>state_occupied (e_state e)\<close> show ?thesis
        by (simp add: retain_slot_def keep_if_simps)
    next
      case False
      let ?sh = "shards m ! idx"
      have "i < capacity (tbl ?sh)" using i by (simp add: slot_count_def)
      note put = put_entry_same [OF cm_wf_shard [OF wf idx] this Some, of "vacate e"]
      have keys: "shard_keys (put_entry ?sh i (vacate e)) \<subseteq> insert (e_key e) (shard_keys ?sh)"
        using put e(3) by auto
      have "shard_wf (hasher m) (put_entry ?sh i (vacate e))"
        "shard_lookup (put_entry ?sh i (vacate e)) = (shard_lookup ?sh)(e_key e := None)"
        using put e(3) by simp_all
      note rep = replace_shard(1) [OF wf e(1) [symmetric] this keys]
        replace_shard_count(3) [OF wf e(1) [symmetric] this keys]
      with False b fb look v Some key lp \<open>state_occupied (e_state e)\<close> show ?thesis
        by (simp add: retain_slot_def keep_if_simps Let_def)
    qed
  qed
qed

lemma retain_slot_form:
  "fst (retain_slot f idx i (m, s)) = m \<or> (\<exists>e n. slots (tbl (shards m ! idx)) ! i = Some e
     \<and> fst (retain_slot f idx i (m, s)) = (put_shard m idx (put_entry (shards m ! idx) i (vacate e)))\<lparr>key_count := n\<rparr>)"
  by (auto simp: retain_slot_def Let_def split: option.split prod.split)

lemma retain_slot_frame:
  "slot_key (fst (retain_slot f idx i (m, s))) = slot_key m"
  "slot_count (fst (retain_slot f idx i (m, s))) = slot_count m"
  "length (shards (fst (retain_slot f idx i (m, s)))) = length (shards m)"
  "j \<noteq> idx \<or> i' \<noteq> i \<Longrightarrow> slots (tbl (shards (fst (retain_slot f idx i (m, s))) ! j)) ! i'
     = slots (tbl (shards m ! j)) ! i'"
proof -
  have "slot_key (fst (retain_slot f idx i (m, s))) = slot_key m
    \<and> slot_count (fst (retain_slot f idx i (m, s))) = slot_count m
    \<and> length (shards (fst (retain_slot f idx i (m, s)))) = length (shards m)
    \<and> (j \<noteq> idx \<or> i' \<noteq> i \<longrightarrow> slots (tbl (shards (fst (retain_slot f idx i (m, s))) ! j)) ! i'
       = slots (tbl (shards m ! j)) ! i')"
  proof (rule disjE [OF retain_slot_form [of f idx i m s]])
    assume "\<exists>e n. slots (tbl (shards m ! idx)) ! i = Some e
     \<and> fst (retain_slot f idx i (m, s)) = (put_shard m idx (put_entry (shards m ! idx) i (vacate e)))\<lparr>key_count := n\<rparr>"
    then obtain e n where e: "slots (tbl (shards m ! idx)) ! i = Some e"
      and m': "fst (retain_slot f idx i (m, s)) = (put_shard m idx (put_entry (shards m ! idx) i (vacate e)))\<lparr>key_count := n\<rparr>"
      by blast
    have upd: "map_option e_key ((slots (tbl (shards m ! idx)))[i := Some (vacate e)] ! x)
        = map_option e_key (slots (tbl (shards m ! idx)) ! x)" for x
      using e by (cases "x = i"; cases "i < length (slots (tbl (shards m ! idx)))")
        (simp_all add: list_update_beyond)
    show ?thesis
    proof (cases "idx < length (shards m)")
      case True
      have "map_option e_key (slots (tbl ((shards m)[idx := put_entry (shards m ! idx) i (vacate e)] ! x)) ! y)
          = map_option e_key (slots (tbl (shards m ! x)) ! y)" for x y
        using upd True by (cases "x = idx") (simp_all add: put_entry_def)
      with True show ?thesis unfolding m' slot_key_def slot_count_def fun_eq_iff
        by (auto simp: nth_list_update put_entry_def)
    qed (simp add: m' slot_key_def slot_count_def fun_eq_iff list_update_beyond)
  qed simp
  then show "slot_key (fst (retain_slot f idx i (m, s))) = slot_key m"
    "slot_count (fst (retain_slot f idx i (m, s))) = slot_count m"
    "length (shards (fst (retain_slot f idx i (m, s)))) = length (shards m)"
    "j \<noteq> idx \<or> i' \<noteq> i \<Longrightarrow> slots (tbl (shards (fst (retain_slot f idx i (m, s))) ! j)) ! i'
       = slots (tbl (shards m ! j)) ! i'"
    by blast+
qed

text \<open>The pairs that a traversal of the listed slots of a shard visits.\<close>

definition slot_pairs :: "'v custom_map \<Rightarrow> nat \<Rightarrow> nat list \<Rightarrow> (string \<times> 'v) list" where
  "slot_pairs m idx js = List.map_filter (\<lambda>i. live_pair (slots (tbl (shards m ! idx)) ! i)) js"

lemma retain_fold:
  assumes P: "\<And>k v s. fst (f k v s) = P k v"
  shows "cm_wf m \<Longrightarrow> idx < length (shards m) \<Longrightarrow> (\<And>i. i \<in> set js \<Longrightarrow> i < slot_count m idx) \<Longrightarrow> distinct js \<Longrightarrow>
    cm_wf (fst (fold (retain_slot f idx) js (m, s)))
    \<and> cm_lookup (fst (fold (retain_slot f idx) js (m, s)))
        = keep_if P (\<Union>i\<in>set js. set_option (slot_key m idx i)) (cm_lookup m)
    \<and> snd (fold (retain_slot f idx) js (m, s)) = fold (\<lambda>(k, v) s. snd (f k v s)) (slot_pairs m idx js) s
    \<and> slot_key (fst (fold (retain_slot f idx) js (m, s))) = slot_key m
    \<and> slot_count (fst (fold (retain_slot f idx) js (m, s))) = slot_count m
    \<and> length (shards (fst (fold (retain_slot f idx) js (m, s)))) = length (shards m)
    \<and> (\<forall>j i. j \<noteq> idx \<longrightarrow> slots (tbl (shards (fst (fold (retain_slot f idx) js (m, s))) ! j)) ! i
         = slots (tbl (shards m ! j)) ! i)"
proof (induction js arbitrary: m s)
  case Nil
  then show ?case by (simp add: keep_if_simps slot_pairs_def map_filter_Nil)
next
  case (Cons i js)
  define m1 s1 where "m1 = fst (retain_slot f idx i (m, s))" and "s1 = snd (retain_slot f idx i (m, s))"
  have r: "retain_slot f idx i (m, s) = (m1, s1)" by (simp add: m1_def s1_def)
  have i: "i < slot_count m idx" using Cons.prems(3) by simp
  note step = retain_slot_ok [where f = f and P = P and s = s, OF Cons.prems(1) P Cons.prems(2) i, folded m1_def s1_def]
  note frame = retain_slot_frame [where f = f and idx = idx and i = i and m = m and s = s, folded m1_def]
  have pairs: "slot_pairs m1 idx js = slot_pairs m idx js"
    unfolding slot_pairs_def
  proof (rule map_filter_cong)
    fix x assume "x \<in> set js"
    with Cons.prems(4) have "x \<noteq> i" by auto
    then show "live_pair (slots (tbl (shards m1 ! idx)) ! x) = live_pair (slots (tbl (shards m ! idx)) ! x)"
      using frame(4) [of idx x] by simp
  qed
  have "idx < length (shards m1)" "\<And>i. i \<in> set js \<Longrightarrow> i < slot_count m1 idx" "distinct js"
    using Cons.prems frame(2,3) by simp_all
  note IH = Cons.IH [OF conjunct1 [OF step] this, where s = s1]
  have s1: "fold (\<lambda>(k, v) s. snd (f k v s)) (slot_pairs m idx js) s1
      = fold (\<lambda>(k, v) s. snd (f k v s)) (slot_pairs m idx (i # js)) s"
    using step by (simp add: slot_pairs_def map_filter_Cons split: option.splits prod.splits)
  have other: "\<forall>j i'. j \<noteq> idx \<longrightarrow> slots (tbl (shards m1 ! j)) ! i' = slots (tbl (shards m ! j)) ! i'"
    using frame(4) by blast
  have eq: "fold (retain_slot f idx) (i # js) (m, s) = fold (retain_slot f idx) js (m1, s1)" by (simp add: r)
  have keep: "keep_if P (\<Union>j\<in>set js. set_option (slot_key m idx j)) (cm_lookup m1)
      = keep_if P (\<Union>j\<in>set (i # js). set_option (slot_key m idx j)) (cm_lookup m)"
    using step by (simp add: keep_if_simps Un_commute)
  show ?case unfolding eq keep [symmetric] s1 [symmetric] using IH frame(1-3) pairs other by metis
qed

lemma slot_pairs_all:
  assumes "cm_wf m" "idx < length (shards m)"
  shows "slot_pairs m idx [0..<slot_count m idx] = shard_pairs (shards m ! idx)"
proof -
  let ?ss = "slots (tbl (shards m ! idx))"
  have "length ?ss = slot_count m idx"
    using cm_wf_shard [OF assms] by (auto simp: shard_wf_def table_wf_def table_shape_def slot_count_def)
  moreover have "List.map_filter (\<lambda>i. live_pair (?ss ! i)) [0..<length ?ss] = List.map_filter live_pair (map ((!) ?ss) [0..<length ?ss])"
    by (simp add: List.map_filter_def filter_map comp_def)
  ultimately show ?thesis unfolding slot_pairs_def shard_pairs_def live_pairs_def
    by (metis map_nth)
qed

lemma slot_keys_all:
  assumes "cm_wf m" "idx < length (shards m)"
  shows "(\<Union>i\<in>{0..<slot_count m idx}. set_option (slot_key m idx i)) = shard_keys (shards m ! idx)"
proof -
  let ?ss = "slots (tbl (shards m ! idx))"
  have len: "length ?ss = slot_count m idx"
    using cm_wf_shard [OF assms] by (auto simp: shard_wf_def table_wf_def table_shape_def slot_count_def)
  show ?thesis
  proof (intro equalityI subsetI)
    fix k assume "k \<in> (\<Union>i\<in>{0..<slot_count m idx}. set_option (slot_key m idx i))"
    then obtain i e where "i < length ?ss" "?ss ! i = Some e" "k = e_key e"
      using len by (auto simp: slot_key_def)
    then show "k \<in> shard_keys (shards m ! idx)" by (auto simp: shard_keys_def slot_keys_nth)
  next
    fix k assume "k \<in> shard_keys (shards m ! idx)"
    then obtain i e where "i < length ?ss" "?ss ! i = Some e" "e_key e = k"
      unfolding shard_keys_def by (rule slot_keys_obtain)
    then show "k \<in> (\<Union>i\<in>{0..<slot_count m idx}. set_option (slot_key m idx i))"
      using len by (auto simp: slot_key_def)
  qed
qed

lemma keep_if_dom: "dom f \<subseteq> A \<Longrightarrow> keep_if P A f = keep_if P UNIV f"
  by (auto simp: keep_if_def fun_eq_iff dom_def split: option.splits)

lemma retain_shards:
  assumes P: "\<And>k v s. fst (f k v s) = P k v"
  shows "cm_wf m \<Longrightarrow> (\<And>idx. idx \<in> set idxs \<Longrightarrow> idx < length (shards m)) \<Longrightarrow> distinct idxs \<Longrightarrow>
    (let r = fold (\<lambda>idx ms. fold (retain_slot f idx) [0..<capacity (tbl (shards (fst ms) ! idx))] ms) idxs (m, s)
     in cm_wf (fst r)
        \<and> cm_lookup (fst r) = keep_if P (\<Union>idx\<in>set idxs. shard_keys (shards m ! idx)) (cm_lookup m)
        \<and> snd r = fold (\<lambda>(k, v) s. snd (f k v s)) (concat (map (\<lambda>idx. shard_pairs (shards m ! idx)) idxs)) s)"
proof (induction idxs arbitrary: m s)
  case Nil
  then show ?case by (simp add: keep_if_simps)
next
  case (Cons idx idxs)
  define r1 where "r1 = fold (retain_slot f idx) [0..<slot_count m idx] (m, s)"
  define m1 s1 where "m1 = fst r1" and "s1 = snd r1"
  have idx: "idx < length (shards m)" using Cons.prems(2) by simp
  note step = retain_fold [where f = f and P = P and js = "[0..<slot_count m idx]" and s = s,
      OF P Cons.prems(1) idx, folded r1_def m1_def s1_def]
  have wf1: "cm_wf m1" and frame: "slot_key m1 = slot_key m" "slot_count m1 = slot_count m"
      "length (shards m1) = length (shards m)"
      "\<And>j i. j \<noteq> idx \<Longrightarrow> slots (tbl (shards m1 ! j)) ! i = slots (tbl (shards m ! j)) ! i"
    using step by simp_all
  have look: "cm_lookup m1 = keep_if P (shard_keys (shards m ! idx)) (cm_lookup m)"
    using step slot_keys_all [OF Cons.prems(1) idx] by simp
  have s1: "s1 = fold (\<lambda>(k, v) s. snd (f k v s)) (shard_pairs (shards m ! idx)) s"
    using step slot_pairs_all [OF Cons.prems(1) idx] by simp
  have less: "idx' < length (shards m)" if "idx' \<in> set idxs" for idx' using that Cons.prems(2) by simp
  have keys: "shard_keys (shards m1 ! idx') = shard_keys (shards m ! idx')" if "idx' \<in> set idxs" for idx'
    using slot_keys_all [OF Cons.prems(1) less [OF that]] slot_keys_all [OF wf1, of idx'] less [OF that] frame(1-3)
    by simp
  have pairs: "shard_pairs (shards m1 ! idx') = shard_pairs (shards m ! idx')" if "idx' \<in> set idxs" for idx'
  proof -
    have "idx' \<noteq> idx" using that Cons.prems(3) by auto
    then have "slot_pairs m1 idx' js = slot_pairs m idx' js" for js using frame(4) by (simp add: slot_pairs_def)
    then show ?thesis
      using slot_pairs_all [OF Cons.prems(1) less [OF that]] slot_pairs_all [OF wf1, of idx'] less [OF that] frame(2,3)
      by simp
  qed
  have concat_eq: "concat (map (\<lambda>idx. shard_pairs (shards m1 ! idx)) idxs) = concat (map (\<lambda>idx. shard_pairs (shards m ! idx)) idxs)"
    using pairs by (intro arg_cong [where f = concat] map_cong) simp_all
  have keys_eq: "(\<Union>idx\<in>set idxs. shard_keys (shards m1 ! idx)) = (\<Union>idx\<in>set idxs. shard_keys (shards m ! idx))"
    using keys by simp
  have r1: "fold (retain_slot f idx) [0..<capacity (tbl (shards m ! idx))] (m, s) = (m1, s1)"
    by (simp add: m1_def s1_def r1_def slot_count_def)
  have "idx' < length (shards m1)" if "idx' \<in> set idxs" for idx' using less [OF that] frame(3) by simp
  note IH = Cons.IH [OF wf1 this, where s = s1]
  have keep: "keep_if P (\<Union>idx\<in>set idxs. shard_keys (shards m1 ! idx)) (cm_lookup m1)
      = keep_if P (\<Union>idx\<in>set (idx # idxs). shard_keys (shards m ! idx)) (cm_lookup m)"
    unfolding keys_eq look by (simp add: keep_if_simps Un_commute)
  have st: "fold (\<lambda>(k, v) s. snd (f k v s)) (concat (map (\<lambda>idx. shard_pairs (shards m1 ! idx)) idxs)) s1
      = fold (\<lambda>(k, v) s. snd (f k v s)) (concat (map (\<lambda>idx. shard_pairs (shards m ! idx)) (idx # idxs))) s"
    unfolding concat_eq s1 by simp
  have "distinct idxs" using Cons.prems(3) by simp
  from IH [OF _ this] show ?case unfolding keep [symmetric] st [symmetric] by (simp add: r1)
qed

lemma cm_retain_ok:
  assumes wf: "cm_wf m" and P: "\<And>k v s. fst (f k v s) = P k v"
  shows "cm_wf (fst (cm_retain m f s))"
    "cm_lookup (fst (cm_retain m f s)) = keep_if P UNIV (cm_lookup m)"
    "snd (cm_retain m f s) = fold (\<lambda>(k, v) s. snd (f k v s)) (all_pairs m) s"
proof -
  let ?idxs = "[0..<length (shards m)]"
  have pairs: "map (\<lambda>idx. shard_pairs (shards m ! idx)) ?idxs = map shard_pairs (shards m)"
    by (rule nth_equalityI) simp_all
  have "dom (cm_lookup m) \<subseteq> (\<Union>idx\<in>set ?idxs. shard_keys (shards m ! idx))"
  proof
    fix k assume "k \<in> dom (cm_lookup m)"
    then have "k \<in> shard_keys (shards m ! shard_of m k)"
      by (auto simp: cm_lookup_def dest: shard_lookup_keys)
    then show "k \<in> (\<Union>idx\<in>set ?idxs. shard_keys (shards m ! idx))"
      using shard_of_less [OF wf, of k] by auto
  qed
  note keep = keep_if_dom [OF this, of P]
  have all: "cm_wf (fst (cm_retain m f s))
      \<and> cm_lookup (fst (cm_retain m f s)) = keep_if P (\<Union>idx\<in>set ?idxs. shard_keys (shards m ! idx)) (cm_lookup m)
      \<and> snd (cm_retain m f s) = fold (\<lambda>(k, v) s. snd (f k v s)) (concat (map (\<lambda>idx. shard_pairs (shards m ! idx)) ?idxs)) s"
    unfolding cm_retain_def
    by (rule retain_shards [where f = f and P = P and s = s and idxs = ?idxs, OF P wf, unfolded Let_def]) simp_all
  from all show "cm_wf (fst (cm_retain m f s))" by blast
  from all show "cm_lookup (fst (cm_retain m f s)) = keep_if P UNIV (cm_lookup m)"
    unfolding keep by blast
  from all show "snd (cm_retain m f s) = fold (\<lambda>(k, v) s. snd (f k v s)) (all_pairs m) s"
    unfolding pairs all_pairs_def by blast
qed

lemma cm_retain_shard_range_ok:
  fixes m :: "'v custom_map" and idx start n :: nat and s :: 's
  assumes wf: "cm_wf m" and P: "\<And>k v s. fst (f k v s) = P k v"
  defines "r \<equiv> cm_retain_shard_range m idx start n f s"
  defines "lo \<equiv> min start (slot_count m idx)" and "hi \<equiv> min (min (min start (slot_count m idx) + n) USIZE_MAX) (slot_count m idx)"
  shows "cm_wf (fst (fst r))"
    "idx < length (shards m) \<Longrightarrow> snd r = Some (hi, slot_count m idx)"
    "idx < length (shards m) \<Longrightarrow> cm_lookup (fst (fst r))
       = keep_if P (\<Union>i\<in>{lo..<hi}. set_option (slot_key m idx i)) (cm_lookup m)"
    "idx < length (shards m) \<Longrightarrow> snd (fst r) = fold (\<lambda>(k, v) s. snd (f k v s)) (slot_pairs m idx [lo..<hi]) s"
    "length (shards m) \<le> idx \<Longrightarrow> r = ((m, s), None)"
proof -
  show "length (shards m) \<le> idx \<Longrightarrow> r = ((m, s), None)" by (simp add: r_def cm_retain_shard_range_def)
  have r: "r = (fold (retain_slot f idx) [lo..<hi] (m, s), Some (hi, slot_count m idx))" if "idx < length (shards m)"
    using that unfolding r_def cm_retain_shard_range_def lo_def hi_def slot_count_def by (simp add: Let_def)
  note fold = retain_fold [where f = f and P = P and s = s and js = "[lo..<hi]", OF P wf]
  have all: "cm_wf (fst (fst r)) \<and> snd r = Some (hi, slot_count m idx) \<and> cm_lookup (fst (fst r))
       = keep_if P (\<Union>i\<in>{lo..<hi}. set_option (slot_key m idx i)) (cm_lookup m)
     \<and> snd (fst r) = fold (\<lambda>(k, v) s. snd (f k v s)) (slot_pairs m idx [lo..<hi]) s" if "idx < length (shards m)"
  proof -
    have "i < slot_count m idx" if "i \<in> set [lo..<hi]" for i using that by (simp add: hi_def)
    from fold [OF that this distinct_upt] show ?thesis unfolding r [OF that] by simp
  qed
  then show "idx < length (shards m) \<Longrightarrow> snd r = Some (hi, slot_count m idx)"
    "idx < length (shards m) \<Longrightarrow> cm_lookup (fst (fst r))
       = keep_if P (\<Union>i\<in>{lo..<hi}. set_option (slot_key m idx i)) (cm_lookup m)"
    "idx < length (shards m) \<Longrightarrow> snd (fst r) = fold (\<lambda>(k, v) s. snd (f k v s)) (slot_pairs m idx [lo..<hi]) s"
    by simp_all
  show "cm_wf (fst (fst r))"
    using all wf by (cases "idx < length (shards m)") (simp_all add: r_def cm_retain_shard_range_def)
qed

section \<open>The map implements a partial function\<close>

text \<open>The operations as commands, their execution on the map, and their meaning on a partial
  function with a limit on the number of keys.\<close>

datatype 'v map_op =
    Get string | Contains string | Len | Keys
  | Set_op string 'v | Try_set string 'v | Insert string 'v | Try_insert string 'v
  | Insert_if_absent string 'v | Remove string | Remove_no_clone string
  | Update_with string "'v \<Rightarrow> 'v" | Read_consistent string
  | Retain "string \<Rightarrow> 'v \<Rightarrow> bool" | Compact_shard nat | Clear

datatype 'v map_result = Value "'v option" | Flag bool | Number nat | Key_set "string set"
  | Limited "full + bool" | Unit

fun cm_exec :: "'v map_op \<Rightarrow> 'v custom_map \<Rightarrow> 'v custom_map \<times> 'v map_result" where
  "cm_exec (Get k) m = (m, Value (cm_get m k))"
| "cm_exec (Contains k) m = (m, Flag (cm_contains_key m k))"
| "cm_exec Len m = (m, Number (cm_len m))"
| "cm_exec Keys m = (m, Key_set (set (cm_keys m)))"
| "cm_exec (Set_op k v) m = map_prod id Flag (cm_set m k v)"
| "cm_exec (Try_set k v) m = map_prod id Limited (cm_try_set m k v)"
| "cm_exec (Insert k v) m = map_prod id Flag (cm_insert m k v)"
| "cm_exec (Try_insert k v) m = map_prod id Limited (cm_try_insert m k v)"
| "cm_exec (Insert_if_absent k v) m = map_prod id Flag (cm_insert_if_absent m k v)"
| "cm_exec (Remove k) m = map_prod id Value (cm_remove m k)"
| "cm_exec (Remove_no_clone k) m = map_prod id Flag (cm_remove_no_clone m k)"
| "cm_exec (Update_with k f) m = map_prod id (\<lambda>r. Flag (r \<noteq> None)) (cm_update_with m k (\<lambda>v. (f v, ())))"
| "cm_exec (Read_consistent k) m = (m, Value (cm_read_consistent m k id))"
| "cm_exec (Retain P) m = (fst (cm_retain m (\<lambda>k v s. (P k v, s)) ()), Unit)"
| "cm_exec (Compact_shard i) m = (cm_compact_shard m i, Unit)"
| "cm_exec Clear m = (cm_clear m, Unit)"

fun map_spec :: "nat \<Rightarrow> 'v map_op \<Rightarrow> (string \<Rightarrow> 'v option) \<Rightarrow> (string \<Rightarrow> 'v option) \<times> 'v map_result" where
  "map_spec l (Get k) f = (f, Value (f k))"
| "map_spec l (Contains k) f = (f, Flag (f k \<noteq> None))"
| "map_spec l Len f = (f, Number (card (dom f)))"
| "map_spec l Keys f = (f, Key_set (dom f))"
| "map_spec l (Set_op k v) f = (f(k \<mapsto> v), Flag (f k = None))"
| "map_spec l (Try_set k v) f = (if l \<le> card (dom f) \<and> f k = None then (f, Limited (Inl Full))
     else (f(k \<mapsto> v), Limited (Inr (f k = None))))"
| "map_spec l (Insert k v) f = (f(k \<mapsto> v), Flag (f k = None))"
| "map_spec l (Try_insert k v) f = (if l \<le> card (dom f) \<and> f k = None then (f, Limited (Inl Full))
     else (f(k \<mapsto> v), Limited (Inr (f k = None))))"
| "map_spec l (Insert_if_absent k v) f = (if f k = None then f(k \<mapsto> v) else f, Flag (f k = None))"
| "map_spec l (Remove k) f = (f(k := None), Value (f k))"
| "map_spec l (Remove_no_clone k) f = (f(k := None), Flag (f k \<noteq> None))"
| "map_spec l (Update_with k g) f = (f(k := map_option g (f k)), Flag (f k \<noteq> None))"
| "map_spec l (Read_consistent k) f = (f, Value (f k))"
| "map_spec l (Retain P) f = (\<lambda>k. case f k of Some v \<Rightarrow> if P k v then Some v else None | None \<Rightarrow> None, Unit)"
| "map_spec l (Compact_shard i) f = (f, Unit)"
| "map_spec l Clear f = (Map.empty, Unit)"

definition cm_inv :: "nat \<Rightarrow> 'v custom_map \<Rightarrow> bool" where
  "cm_inv l m \<longleftrightarrow> cm_wf m \<and> max_keys m = l"

lemma insert_shard_limit:
  "max_keys (fst (cm_insert m k v)) = max_keys m" "max_keys (fst (cm_set m k v)) = max_keys m"
  "max_keys (fst (cm_insert_if_absent m k v)) = max_keys m" "max_keys (fst (cm_remove m k)) = max_keys m"
  "max_keys (fst (cm_remove_no_clone m k)) = max_keys m" "max_keys (fst (cm_update_with m k f)) = max_keys m"
  "max_keys (cm_compact_shard m i) = max_keys m" "max_keys (cm_clear m) = max_keys m"
  by (auto simp: cm_insert_def cm_set_def cm_insert_if_absent_def cm_remove_def cm_remove_no_clone_def
      cm_update_with_def cm_compact_shard_def cm_clear_def Let_def split: option.split prod.split)

lemma retain_limit: "max_keys (fst (cm_retain m f s)) = max_keys m"
proof -
  have slot: "max_keys (fst (retain_slot f idx i ms)) = max_keys (fst ms)" for idx i ms
    by (auto simp: retain_slot_def Let_def split: option.split prod.split)
  have js: "max_keys (fst (fold (retain_slot f idx) js ms)) = max_keys (fst ms)" for idx js ms
    by (induction js arbitrary: ms) (simp_all add: slot)
  have "max_keys (fst (fold (\<lambda>idx ms. fold (retain_slot f idx) [0..<capacity (tbl (shards (fst ms) ! idx))] ms) idxs ms))
      = max_keys (fst ms)" for idxs ms
    by (induction idxs arbitrary: ms) (simp_all add: js)
  then show ?thesis by (simp add: cm_retain_def)
qed

interpretation cm: simulation "cm_inv l" cm_lookup cm_exec "map_spec l" for l
proof
  fix m :: "'v custom_map" and op
  assume "cm_inv l m"
  then have wf: "cm_wf m" and l: "max_keys m = l" by (simp_all add: cm_inv_def)
  have ret: "cm_wf (fst (cm_retain m (\<lambda>k v s. (P k v, s)) ()))"
    "cm_lookup (fst (cm_retain m (\<lambda>k v s. (P k v, s)) ())) = keep_if P UNIV (cm_lookup m)" for P
    using cm_retain_ok(1,2) [OF wf, of "\<lambda>k v s. (P k v, s)" P "()"] by simp_all
  note laws = map_laws wf cm_wf_key_count [OF wf] l ret
  show "cm_inv l (fst (cm_exec op m))"
    by (cases op) (simp_all add: laws insert_shard_limit retain_limit cm_inv_def)
  show "cm_lookup (fst (cm_exec op m)) = fst (map_spec l op (cm_lookup m))"
    by (cases op) (auto simp: laws keep_if_def fun_eq_iff split: option.split)
  show "snd (cm_exec op m) = snd (map_spec l op (cm_lookup m))"
    by (cases op) (auto simp: laws option.map_id0)
qed

section \<open>Properties of the map\<close>

text \<open>C1: whatever hash function the map is given, however many shards it is built with, and
  whatever sequence of operations is executed on it (lookups, insertions, bounded insertions,
  removals, updates, retaining traversals, compaction, clearing), every operation answers exactly
  what a partial function from keys to values with a limit on the number of keys answers.  Hash
  collisions, tombstones, growth, compaction and the choice of the shard are invisible.\<close>

theorem custom_map_refines_partial_map:
  "snd (run cm_exec ops (cm_with_capacity hs n l)) = snd (run (map_spec l) ops Map.empty)"
proof -
  have "cm_inv l (cm_with_capacity hs n l)"
    by (simp add: cm_inv_def map_laws) (simp add: cm_with_capacity_def cm_build_def)
  from cm.run_results [OF this, of ops] show ?thesis by (simp add: map_laws)
qed

text \<open>C18: the unbounded probe loop of \<open>find\<close> ends within one pass over the table for every key,
  present or not: a table that keeps its load limit always has an empty slot.\<close>

theorem probe_ends:
  assumes "shard_wf hs sh"
  shows "probe (capacity (tbl sh)) (tbl sh) k (hs k) (home (tbl sh) (hs k)) \<noteq> Spinning"
proof (cases "k \<in> shard_keys sh")
  case True
  then obtain i where "shard_find sh k (hs k) = Some i" by (rule shard_find_present [OF assms])
  then show ?thesis by (auto simp: shard_find_def find_slot_def split: probe_result.splits)
next
  case False
  have "table_shape (tbl sh)" using assms by (auto simp: shard_wf_def)
  with shard_room [OF assms] obtain d where "d < capacity (tbl sh)" "slot_at (tbl sh) (hs k) d = None"
    "\<And>d'. d' < d \<Longrightarrow> slot_at (tbl sh) (hs k) d' \<noteq> None"
    using slot_at_vacancy by metis
  with False \<open>table_shape (tbl sh)\<close> show ?thesis by (simp add: probe_absent shard_keys_def)
qed

theorem probe_ends_witness:
  "probe 8 (tbl (shard_new 8 :: nat shard)) ''k'' 5 (home (tbl (shard_new 8 :: nat shard)) 5) \<noteq> Spinning"
proof -
  have "capacity (tbl (shard_new 8 :: nat shard)) = 8"
    by (simp add: shard_new_def slot_table_new_def next_power_of_two.simps)
  with probe_ends [of "\<lambda>_. 5" "shard_new 8 :: nat shard" "''k''"] show ?thesis by simp
qed

text \<open>C17: inserting a key that the shard does not hold succeeds after at most one growth of the
  table, keeps the shard's invariant, and adds exactly that key.\<close>

theorem insert_new_one_growth:
  assumes "shard_wf hs sh" "k \<notin> shard_keys sh"
  shows "\<exists>sh'. insert_new_loop 2 sh k v (hs k) = Some (sh', True) \<and> shard_wf hs sh'
    \<and> shard_lookup sh' = (shard_lookup sh)(k \<mapsto> v)"
  using insert_new_ok [OF assms, of v] by blast

theorem insert_new_one_growth_witness:
  "\<exists>sh'. insert_new_loop 2 (shard_new 8) ''k'' (7 :: nat) 0 = Some (sh', True) \<and> shard_wf (\<lambda>_. 0) sh'
    \<and> shard_lookup sh' = [''k'' \<mapsto> 7]"
  using insert_new_one_growth [of "\<lambda>_. 0" "shard_new 8 :: nat shard" "''k''" 7] by simp

text \<open>C31: \<open>keys\<close> lists every live key exactly once, and as many of them as \<open>len\<close> reports, whatever
  the order of the slots.\<close>

theorem keys_enumerate_once:
  assumes "cm_wf m"
  shows "distinct (cm_keys m) \<and> set (cm_keys m) = {k. cm_contains_key m k} \<and> length (cm_keys m) = cm_len m"
  using cm_keys_ok [OF assms] by (auto simp: cm_contains_key_lookup [OF assms])

theorem keys_enumerate_once_witness:
  "distinct (cm_keys (cm_with_capacity (\<lambda>_. 3) 4 10 :: nat custom_map))"
  using keys_enumerate_once [of "cm_with_capacity (\<lambda>_. 3) 4 10 :: nat custom_map"] by (simp add: map_laws)



end
