(* ===== verification/Collections.thy ===== *)
theory Collections
  imports Rust_Std
begin

text \<open>
  The three collection values with two or three representations each
  (\<open>src/src/storage/value/collections.rs\<close>): hashes as a flat vector of fields and values or as a
  hash map, sets as a sorted vector of integers, a vector of strings or a hash set, and lists as
  a deque that is boxed when it grows.  Packed strings are their bytes here; \<open>Small_Str\<close> models
  the packing.  A \<open>HashMap\<close> is an association list and a \<open>HashSet\<close> a list without duplicates; the
  order in which the standard library iterates over them is an argument \<open>ord\<close> of the operations
  that iterate.
\<close>

definition COMPACT_THRESHOLD :: nat where "COMPACT_THRESHOLD = 64"

text \<open>What the operations rely on about an iteration order: it lists every element once.\<close>

definition iteration_order :: "('a list \<Rightarrow> 'a list) \<Rightarrow> bool" where
  "iteration_order ord \<longleftrightarrow> (\<forall>xs. mset (ord xs) = mset xs)"

section \<open>Hashes\<close>

datatype hash_inner = HCompact "string list" | HFull "(string \<times> string) list"

definition hash_new :: hash_inner where
  "hash_new = HCompact []"

text \<open>The loops over the flat vector, two elements at a time.\<close>

fun compact_get :: "string list \<Rightarrow> string \<Rightarrow> string option" where
  "compact_get (k # v # rest) f = (if k = f then Some v else compact_get rest f)"
| "compact_get _ f = None"

fun compact_index :: "string list \<Rightarrow> string \<Rightarrow> nat option" where
  "compact_index (k # v # rest) f =
     (if k = f then Some 0 else map_option (\<lambda>i. i + 2) (compact_index rest f))"
| "compact_index _ f = None"

fun step_pairs :: "string list \<Rightarrow> (string \<times> string) list" where
  "step_pairs (k # v # rest) = (k, v) # step_pairs rest"
| "step_pairs _ = []"

definition hash_get :: "hash_inner \<Rightarrow> string \<Rightarrow> string option" where
  "hash_get h f = (case h of HCompact v \<Rightarrow> compact_get v f | HFull m \<Rightarrow> map_of m f)"

definition promote_hash :: "hash_inner \<Rightarrow> hash_inner" where
  "promote_hash h = (case h of
      HCompact v \<Rightarrow> HFull (foldl (\<lambda>m (k, x). AList.update k x m) [] (step_pairs v))
    | HFull m \<Rightarrow> HFull m)"

definition hash_insert :: "hash_inner \<Rightarrow> string \<Rightarrow> string \<Rightarrow> hash_inner \<times> bool" where
  "hash_insert h f x = (case h of
      HCompact v \<Rightarrow> (case compact_index v f of
          Some i \<Rightarrow> (HCompact (v[i + 1 := x]), False)
        | None \<Rightarrow> (let v' = v @ [f, x]
            in (if length v' div 2 > COMPACT_THRESHOLD then promote_hash (HCompact v') else HCompact v', True)))
    | HFull m \<Rightarrow> (HFull (AList.update f x m), map_of m f = None))"

definition demote_hash :: "((string \<times> string) list \<Rightarrow> (string \<times> string) list) \<Rightarrow> hash_inner \<Rightarrow> hash_inner" where
  "demote_hash ord h = (case h of HCompact v \<Rightarrow> HCompact v
     | HFull m \<Rightarrow> if length m > COMPACT_THRESHOLD div 2 then HFull m
         else HCompact (concat (map (\<lambda>(k, x). [k, x]) (ord m))))"

definition hash_remove ::
  "((string \<times> string) list \<Rightarrow> (string \<times> string) list) \<Rightarrow> hash_inner \<Rightarrow> string \<Rightarrow> hash_inner \<times> string option" where
  "hash_remove ord h f = (case h of
      HCompact v \<Rightarrow> (case compact_index v f of None \<Rightarrow> (h, None)
        | Some i \<Rightarrow> (let n = length v;
              v1 = swap_elems i (n - 2) v;
              v2 = swap_elems (i + 1) (n - 1) v1;
              v3 = butlast v2
            in (HCompact (butlast v3), Some (last v3))))
    | HFull m \<Rightarrow> (let m' = AList.delete f m
        in (if length m' \<le> COMPACT_THRESHOLD div 2 then demote_hash ord (HFull m') else HFull m', map_of m f)))"

definition hash_len :: "hash_inner \<Rightarrow> nat" where
  "hash_len h = (case h of HCompact v \<Rightarrow> length v div 2 | HFull m \<Rightarrow> length m)"

definition hash_is_empty :: "hash_inner \<Rightarrow> bool" where
  "hash_is_empty h = (hash_len h = 0)"

definition hash_contains_key :: "hash_inner \<Rightarrow> string \<Rightarrow> bool" where
  "hash_contains_key h f = (hash_get h f \<noteq> None)"

definition hash_iter :: "((string \<times> string) list \<Rightarrow> (string \<times> string) list) \<Rightarrow> hash_inner \<Rightarrow> (string \<times> string) list" where
  "hash_iter ord h = (case h of HCompact v \<Rightarrow> step_pairs v | HFull m \<Rightarrow> ord m)"

definition hash_keys :: "((string \<times> string) list \<Rightarrow> (string \<times> string) list) \<Rightarrow> hash_inner \<Rightarrow> string list" where
  "hash_keys ord h = (case h of HCompact v \<Rightarrow> map fst (step_pairs v) | HFull m \<Rightarrow> map fst (ord m))"

definition hash_values :: "((string \<times> string) list \<Rightarrow> (string \<times> string) list) \<Rightarrow> hash_inner \<Rightarrow> string list" where
  "hash_values ord h = (case h of HCompact v \<Rightarrow> map snd (step_pairs v) | HFull m \<Rightarrow> map snd (ord m))"

subsection \<open>The hash is a partial function\<close>

definition hash_pairs :: "hash_inner \<Rightarrow> (string \<times> string) list" where
  "hash_pairs h = (case h of HCompact v \<Rightarrow> step_pairs v | HFull m \<Rightarrow> m)"

definition hash_map :: "hash_inner \<Rightarrow> string \<Rightarrow> string option" where
  "hash_map h = map_of (hash_pairs h)"

definition hash_wf :: "hash_inner \<Rightarrow> bool" where
  "hash_wf h \<longleftrightarrow> distinct (map fst (hash_pairs h)) \<and> (case h of HCompact v \<Rightarrow> even (length v) | HFull m \<Rightarrow> True)"

definition flat :: "(string \<times> string) list \<Rightarrow> string list" where
  "flat ps = concat (map (\<lambda>(k, x). [k, x]) ps)"

lemma flat_simps [simp]:
  "flat [] = []" "flat ((k, x) # ps) = k # x # flat ps" "flat (ps @ qs) = flat ps @ flat qs"
  by (simp_all add: flat_def)

lemma step_pairs_flat [simp]: "step_pairs (flat ps) = ps"
  by (induction ps) auto

lemma length_flat [simp]: "length (flat ps) = 2 * length ps"
  by (induction ps) auto

lemma flat_step_pairs: "even (length v) \<Longrightarrow> flat (step_pairs v) = v"
  by (induction v rule: step_pairs.induct) auto

lemma flat_nth:
  "i < length ps \<Longrightarrow> flat ps ! (2 * i) = fst (ps ! i)" "i < length ps \<Longrightarrow> flat ps ! (2 * i + 1) = snd (ps ! i)"
proof (induction ps arbitrary: i)
  case (Cons p ps)
  { case 1 with Cons.IH show ?case by (cases p; cases i) auto }
  { case 2 with Cons.IH show ?case by (cases p; cases i) auto }
qed simp_all

text \<open>A compact hash of the invariant is the flat vector of its pairs.\<close>

lemma hash_wf_cases:
  assumes "hash_wf h"
  obtains ps where "h = HCompact (flat ps)" "distinct (map fst ps)" | m where "h = HFull m" "distinct (map fst m)"
proof (cases h)
  case (HCompact v)
  with assms have "v = flat (step_pairs v)" "distinct (map fst (step_pairs v))"
    by (simp_all add: hash_wf_def hash_pairs_def flat_step_pairs)
  with HCompact that(1) show ?thesis by metis
next
  case (HFull m)
  with assms that(2) show ?thesis by (simp add: hash_wf_def hash_pairs_def)
qed

lemma hash_views [simp]:
  "hash_pairs (HCompact (flat ps)) = ps" "hash_pairs (HFull m) = m"
  "hash_map (HCompact (flat ps)) = map_of ps" "hash_map (HFull m) = map_of m"
  "hash_wf (HCompact (flat ps)) = distinct (map fst ps)" "hash_wf (HFull m) = distinct (map fst m)"
  by (simp_all add: hash_pairs_def hash_map_def hash_wf_def)

lemma compact_get_flat: "compact_get (flat ps) f = map_of ps f"
  by (induction ps) auto

lemma compact_index_flat:
  "compact_index (flat ps) f = map_option (\<lambda>i. 2 * i) (position (\<lambda>p. fst p = f) ps)"
  by (induction ps) (auto simp: option.map_comp comp_def)

lemma flat_update: "i < length ps \<Longrightarrow> (flat ps)[2 * i + 1 := x] = flat (ps[i := (fst (ps ! i), x)])"
proof (induction ps arbitrary: i)
  case (Cons p ps)
  then show ?case by (cases p; cases i) auto
qed simp

lemma butlast_flat: "butlast (butlast (flat ps)) = flat (butlast ps)"
proof (cases ps rule: rev_cases)
  case (snoc qs q)
  then show ?thesis by (cases q) (simp add: butlast_append)
qed simp

lemma even_or_odd_index:
  fixes j n :: nat
  assumes "j < 2 * n"
  obtains m where "m < n" "j = 2 * m" | m where "m < n" "j = 2 * m + 1"
proof (cases "even j")
  case True
  then show ?thesis using that(1) [of "j div 2"] assms by simp
next
  case False
  then show ?thesis using that(2) [of "j div 2"] assms by simp
qed

lemma flat_swap:
  assumes "i < length ps" "j < length ps"
  shows "swap_elems (2 * i + 1) (2 * j + 1) (swap_elems (2 * i) (2 * j) (flat ps)) = flat (swap_elems i j ps)"
proof (rule nth_equalityI)
  fix p assume "p < length (swap_elems (2 * i + 1) (2 * j + 1) (swap_elems (2 * i) (2 * j) (flat ps)))"
  then have "p < 2 * length ps" by (simp add: swap_elems_def)
  then show "swap_elems (2 * i + 1) (2 * j + 1) (swap_elems (2 * i) (2 * j) (flat ps)) ! p = flat (swap_elems i j ps) ! p"
  proof (cases rule: even_or_odd_index)
    case (1 m)
    have "2 * m \<noteq> 2 * n + 1" for n :: nat by presburger
    with 1 assms show ?thesis
      using flat_nth(1) [of m "swap_elems i j ps"] by (auto simp: swap_elems_def nth_list_update flat_nth(1))
  next
    case (2 m)
    have "2 * m + 1 \<noteq> 2 * n" for n :: nat by presburger
    with 2 assms show ?thesis
      using flat_nth(2) [of m "swap_elems i j ps"] by (auto simp: swap_elems_def nth_list_update flat_nth(2) simp del: add_2_eq_Suc' One_nat_def)
  qed
qed (simp add: swap_elems_def)

lemma swap_remove_swap: "j < length ps \<Longrightarrow> swap_remove j ps = butlast (swap_elems j (length ps - 1) ps)"
  by (cases ps rule: rev_cases)
    (auto simp: swap_remove_def swap_elems_def list_update_append butlast_append nth_append)

lemma hash_remove_compact:
  assumes "compact_index (flat ps) f = Some i"
  shows "\<exists>j. position (\<lambda>p. fst p = f) ps = Some j
    \<and> hash_remove ord (HCompact (flat ps)) f = (HCompact (flat (swap_remove j ps)), Some f)"
proof -
  from assms obtain j where j: "position (\<lambda>p. fst p = f) ps = Some j" "i = 2 * j"
    by (auto simp: compact_index_flat)
  then have lt: "j < length ps" and key: "fst (ps ! j) = f" by (auto simp: position_Some)
  define qs where "qs = swap_elems j (length ps - 1) ps"
  have idx: "2 * length ps - 2 = 2 * (length ps - 1)" by simp
  have idx': "2 * length ps - 1 = 2 * (length ps - 1) + 1" using lt by (cases ps) simp_all
  have swapped: "swap_elems (i + 1) (length (flat ps) - 1) (swap_elems i (length (flat ps) - 2) (flat ps)) = flat qs"
    unfolding qs_def using lt j(2) flat_swap [of j ps "length ps - 1"] by (simp only: length_flat idx idx')
  have len: "length qs = length ps" by (simp add: qs_def swap_elems_def)
  have ne: "qs \<noteq> []" using len lt by auto
  have "last qs = ps ! j" unfolding last_conv_nth [OF ne] len using lt
    by (simp add: qs_def swap_elems_def nth_list_update)
  moreover have "last (butlast (flat qs)) = fst (last qs)" using ne
    by (cases qs rule: rev_cases) (auto simp: butlast_append split: prod.splits)
  ultimately have "last (butlast (flat qs)) = f" using key by simp
  moreover have "butlast (butlast (flat qs)) = flat (swap_remove j ps)"
    using swap_remove_swap [OF lt] by (simp add: butlast_flat qs_def)
  ultimately show ?thesis using assms j(1) swapped by (simp add: hash_remove_def Let_def)
qed

lemma map_of_cong_mset:
  assumes "mset ps = mset qs" "distinct (map fst ps)"
  shows "map_of ps = map_of qs" "distinct (map fst qs)"
proof -
  have "mset (map fst ps) = mset (map fst qs)" using assms(1) by simp
  then show d: "distinct (map fst qs)" using assms(2) mset_eq_imp_distinct_iff by blast
  have "set ps = set qs" using assms(1) by (metis set_mset_mset)
  then show "map_of ps = map_of qs" using assms(2) d map_of_inject_set by blast
qed

lemma position_key: "position (\<lambda>p. fst p = f) ps = None \<longleftrightarrow> map_of ps f = None"
  by (simp only: position_None map_of_eq_None_iff) auto

lemma map_of_remove_one:
  assumes "distinct (map fst ps)" "position (\<lambda>p. fst p = f) ps = Some j"
  shows "map_of (swap_remove j ps) = (map_of ps)(f := None)" "distinct (map fst (swap_remove j ps))"
proof -
  let ?qs = "swap_remove j ps"
  have j: "j < length ps" "fst (ps ! j) = f" using assms(2) by (auto simp: position_Some)
  have m: "mset ps = mset (ps ! j # ?qs)" using mset_swap_remove [OF j(1)] j(1) by simp
  note c = map_of_cong_mset [OF m assms(1)]
  from c(2) show d: "distinct (map fst ?qs)" by simp
  from c(2) j(2) have "map_of ?qs f = None" by (simp add: map_of_eq_None_iff)
  moreover have "map_of ps = (map_of ?qs)(f \<mapsto> snd (ps ! j))" using c(1) j(2) by (cases "ps ! j") simp
  ultimately show "map_of ?qs = (map_of ps)(f := None)" by auto
qed

lemma alist_update_map [simp]:
  "map_of (AList.update f x m) = (map_of m)(f \<mapsto> x)"
  "distinct (map fst m) \<Longrightarrow> distinct (map fst (AList.update f x m))"
  by (simp_all add: update_conv' distinct_update)

lemma alist_delete_map [simp]:
  "map_of (AList.delete f m) = (map_of m)(f := None)"
  "distinct (map fst m) \<Longrightarrow> distinct (map fst (AList.delete f m))"
  by (simp_all add: delete_conv' distinct_delete)

lemma promote_pairs:
  assumes "distinct (map fst ps)"
  shows "map_of (foldl (\<lambda>m (k, x). AList.update k x m) acc ps) = map_of acc ++ map_of ps"
    "distinct (map fst acc) \<Longrightarrow> distinct (map fst (foldl (\<lambda>m (k, x). AList.update k x m) acc ps))"
  using assms
proof (induction ps arbitrary: acc)
  case (Cons p ps)
  obtain k x where p: "p = (k, x)" by (cases p)
  {
    case 1
    then have "map_of ps k = None" by (auto simp: p map_of_eq_None_iff)
    with 1 Cons.IH(1) [of "AList.update k x acc"] show ?case
      by (auto simp: p fun_eq_iff map_add_def split: option.split)
  next
    case 2
    with Cons.IH(2) [of "AList.update k x acc"] show ?case by (simp add: p)
  }
qed simp_all

lemma promote_hash_ok:
  assumes "distinct (map fst ps)"
  shows "hash_map (promote_hash (HCompact (flat ps))) = map_of ps" "hash_wf (promote_hash (HCompact (flat ps)))"
  using promote_pairs [OF assms, of "[]"] by (simp_all add: promote_hash_def)

lemma iteration_order_mset: "iteration_order ord \<Longrightarrow> mset (ord xs) = mset xs"
  by (simp add: iteration_order_def)

lemma demote_hash_ok:
  assumes "iteration_order ord" "distinct (map fst m)"
  shows "hash_map (demote_hash ord (HFull m)) = map_of m" "hash_wf (demote_hash ord (HFull m))"
  using map_of_cong_mset [OF iteration_order_mset [OF assms(1), symmetric] assms(2)] assms(2)
  by (auto simp: demote_hash_def simp flip: flat_def)

lemma hash_get_map: "hash_wf h \<Longrightarrow> hash_get h f = hash_map h f"
  by (erule hash_wf_cases) (simp_all add: hash_get_def compact_get_flat)

lemma map_of_update_index:
  assumes "distinct (map fst ps)" "j < length ps" "fst (ps ! j) = f"
  shows "map_of (ps[j := (f, x)]) = (map_of ps)(f \<mapsto> x)" "map fst (ps[j := (f, x)]) = map fst ps"
proof -
  define a b where "a = take j ps" and "b = drop (Suc j) ps"
  obtain y where y: "ps ! j = (f, y)" using assms(3) by (cases "ps ! j") auto
  have ps: "ps = a @ (f, y) # b" using id_take_nth_drop [OF assms(2)] y by (simp add: a_def b_def)
  have upd: "ps[j := (f, x)] = a @ (f, x) # b"
    using upd_conv_take_nth_drop [OF assms(2)] by (simp add: a_def b_def)
  have "map_of a f = None" using assms(1) ps by (auto simp: map_of_eq_None_iff)
  then have "map_of (a @ (f, x) # b) = (map_of (a @ (f, y) # b))(f \<mapsto> x)"
    by (auto simp: fun_eq_iff map_add_def split: option.split)
  with upd ps show "map_of (ps[j := (f, x)]) = (map_of ps)(f \<mapsto> x)" by metis
  have "map fst (a @ (f, x) # b) = map fst (a @ (f, y) # b)" by simp
  with upd ps show "map fst (ps[j := (f, x)]) = map fst ps" by metis
qed

lemma hash_insert_ok:
  assumes "hash_wf h"
  shows "snd (hash_insert h f x) = (hash_map h f = None)
    \<and> hash_map (fst (hash_insert h f x)) = (hash_map h)(f \<mapsto> x) \<and> hash_wf (fst (hash_insert h f x))"
  using assms
proof (cases rule: hash_wf_cases)
  case (1 ps)
  show ?thesis
  proof (cases "position (\<lambda>p. fst p = f) ps")
    case None
    then have none: "map_of ps f = None" by (simp only: position_key)
    then have d: "distinct (map fst (ps @ [(f, x)]))" using 1(2) by (simp add: map_of_eq_None_iff)
    have flat: "flat ps @ [f, x] = flat (ps @ [(f, x)])" by simp
    have m: "map_of (ps @ [(f, x)]) = (map_of ps)(f \<mapsto> x)"
      using none by (auto simp: fun_eq_iff map_add_def split: option.split)
    from None have "compact_index (flat ps) f = None" by (simp only: compact_index_flat) simp
    then show ?thesis using promote_hash_ok [OF d] none d m
      unfolding 1(1) hash_insert_def by (simp add: Let_def flat del: flat_simps)
  next
    case (Some j)
    then have j: "j < length ps" "fst (ps ! j) = f" by (auto simp: position_Some)
    then obtain y where y: "ps ! j = (f, y)" by (cases "ps ! j") auto
    have idx: "compact_index (flat ps) f = Some (2 * j)" by (simp only: compact_index_flat Some) simp
    have upd: "(flat ps)[2 * j + 1 := x] = flat (ps[j := (f, x)])" using flat_update [OF j(1), of x] j(2) by simp
    note upd' = map_of_update_index [OF 1(2) j, of x]
    have "map_of ps f = Some y" using y j(1) 1(2) by (metis map_of_eq_Some_iff nth_mem)
    with idx upd upd' 1 show ?thesis by (simp add: hash_insert_def)
  qed
next
  case (2 m)
  then show ?thesis by (simp add: hash_insert_def)
qed

lemma hash_remove_ok:
  assumes wf: "hash_wf h" and ord: "iteration_order ord"
  shows "(snd (hash_remove ord h f) = None \<longleftrightarrow> hash_map h f = None)
    \<and> hash_map (fst (hash_remove ord h f)) = (hash_map h)(f := None) \<and> hash_wf (fst (hash_remove ord h f))"
  using wf
proof (cases rule: hash_wf_cases)
  case (1 ps)
  show ?thesis
  proof (cases "compact_index (flat ps) f")
    case None
    then have "map_of ps f = None" by (simp only: compact_index_flat option.map_disc_iff position_key)
    with None 1 show ?thesis by (auto simp: hash_remove_def)
  next
    case (Some i)
    then obtain j where j: "position (\<lambda>p. fst p = f) ps = Some j"
      "hash_remove ord (HCompact (flat ps)) f = (HCompact (flat (swap_remove j ps)), Some f)"
      using hash_remove_compact by blast
    then have "map_of ps f \<noteq> None" using position_key [of f ps] by (metis option.distinct(1))
    with j map_of_remove_one [OF 1(2) j(1)] 1 show ?thesis by simp
  qed
next
  case (2 m)
  have d: "distinct (map fst (AList.delete f m))" using 2(2) by simp
  from demote_hash_ok [OF ord d] d 2 show ?thesis by (simp add: hash_remove_def Let_def)
qed

lemma card_dom_map_of: "distinct (map fst ps) \<Longrightarrow> card (dom (map_of ps)) = length ps"
  by (metis distinct_card dom_map_of_conv_image_fst length_map list.set_map)

lemma hash_len_card: "hash_wf h \<Longrightarrow> hash_len h = card (dom (hash_map h))"
  by (erule hash_wf_cases) (simp_all add: hash_len_def card_dom_map_of)

lemma hash_iter_ok:
  assumes wf: "hash_wf h" and ord: "iteration_order ord"
  shows "distinct (map fst (hash_iter ord h))" "map_of (hash_iter ord h) = hash_map h"
    "hash_keys ord h = map fst (hash_iter ord h)" "hash_values ord h = map snd (hash_iter ord h)"
    "length (hash_iter ord h) = hash_len h"
proof -
  have "mset (hash_iter ord h) = mset (hash_pairs h)"
    using iteration_order_mset [OF ord] by (cases h) (simp_all add: hash_iter_def hash_pairs_def)
  moreover have "distinct (map fst (hash_pairs h))" using wf by (simp add: hash_wf_def)
  ultimately show "distinct (map fst (hash_iter ord h))" "map_of (hash_iter ord h) = hash_map h"
    using map_of_cong_mset [of "hash_pairs h" "hash_iter ord h"] by (simp_all add: hash_map_def)
  show "hash_keys ord h = map fst (hash_iter ord h)" "hash_values ord h = map snd (hash_iter ord h)"
    by (cases h; simp add: hash_iter_def hash_keys_def hash_values_def)+
  show "length (hash_iter ord h) = hash_len h"
    using wf iteration_order_mset [OF ord, THEN mset_eq_length]
    by (cases rule: hash_wf_cases) (simp_all add: hash_iter_def hash_len_def)
qed

subsection \<open>Hash operations as commands\<close>

datatype hash_op = HGet string | HInsert string string | HRemove string | HLen | HExists string

datatype hash_result = HValue "string option" | HFlag bool | HNumber nat

fun hash_exec :: "((string \<times> string) list \<Rightarrow> (string \<times> string) list) \<Rightarrow> hash_op \<Rightarrow> hash_inner \<Rightarrow> hash_inner \<times> hash_result" where
  "hash_exec ord (HGet f) h = (h, HValue (hash_get h f))"
| "hash_exec ord (HInsert f x) h = map_prod id HFlag (hash_insert h f x)"
| "hash_exec ord (HRemove f) h = map_prod id (\<lambda>r. HFlag (r \<noteq> None)) (hash_remove ord h f)"
| "hash_exec ord HLen h = (h, HNumber (hash_len h))"
| "hash_exec ord (HExists f) h = (h, HFlag (hash_contains_key h f))"

fun hash_spec :: "hash_op \<Rightarrow> (string \<Rightarrow> string option) \<Rightarrow> (string \<Rightarrow> string option) \<times> hash_result" where
  "hash_spec (HGet f) m = (m, HValue (m f))"
| "hash_spec (HInsert f x) m = (m(f \<mapsto> x), HFlag (m f = None))"
| "hash_spec (HRemove f) m = (m(f := None), HFlag (m f \<noteq> None))"
| "hash_spec HLen m = (m, HNumber (card (dom m)))"
| "hash_spec (HExists f) m = (m, HFlag (m f \<noteq> None))"

lemma hash_simulation:
  assumes ord: "iteration_order ord"
  shows "simulation hash_wf hash_map (hash_exec ord) hash_spec"
proof
  fix h op
  assume wf: "hash_wf h"
  note laws = hash_insert_ok [OF wf] hash_remove_ok [OF wf ord] hash_get_map [OF wf] hash_len_card [OF wf] wf
  show "hash_wf (fst (hash_exec ord op h))" by (cases op) (simp_all add: laws)
  show "hash_map (fst (hash_exec ord op h)) = fst (hash_spec op (hash_map h))" by (cases op) (simp_all add: laws)
  show "snd (hash_exec ord op h) = snd (hash_spec op (hash_map h))"
    by (cases op) (simp_all add: laws hash_contains_key_def del: not_None_eq)
qed

section \<open>Sets\<close>

datatype set_inner = SIntegers "int list" | SCompact "string list" | SFull "string list"

definition set_new :: set_inner where
  "set_new = SIntegers []"

definition canonical_i64 :: "string \<Rightarrow> int option" where
  "canonical_i64 s = (case parse_i64 s of None \<Rightarrow> None
     | Some n \<Rightarrow> if int_to_string n = s then Some n else None)"

definition search_i64 :: "int list \<Rightarrow> int \<Rightarrow> nat + nat" where
  "search_i64 v n = binary_search_by (\<lambda>x. compare_int x n) v"

definition promote_set :: "set_inner \<Rightarrow> set_inner" where
  "promote_set s = (case s of SCompact v \<Rightarrow> SFull (foldl (\<lambda>acc x. if x \<in> set acc then acc else acc @ [x]) [] v)
     | _ \<Rightarrow> s)"

definition set_insert :: "set_inner \<Rightarrow> string \<Rightarrow> set_inner \<times> bool" where
  "set_insert s m = (case s of
      SIntegers v \<Rightarrow> (case canonical_i64 m of
          Some n \<Rightarrow> (case search_i64 v n of
              Inr _ \<Rightarrow> (s, False)
            | Inl pos \<Rightarrow> (SIntegers (insert_at pos n v), True))
        | None \<Rightarrow> (SCompact (map int_to_string v @ [m]), True))
    | SCompact v \<Rightarrow> if m \<in> set v then (s, False)
        else (let v' = v @ [m] in
          (if length v' > COMPACT_THRESHOLD then promote_set (SCompact v') else SCompact v', True))
    | SFull v \<Rightarrow> if m \<in> set v then (s, False) else (SFull (v @ [m]), True))"

definition set_from_strings :: "string list \<Rightarrow> set_inner" where
  "set_from_strings vs = foldl (\<lambda>s v. fst (set_insert s v)) set_new vs"

definition demote_set :: "(string list \<Rightarrow> string list) \<Rightarrow> set_inner \<Rightarrow> set_inner" where
  "demote_set ord s = (case s of SFull v \<Rightarrow>
       if length v > COMPACT_THRESHOLD div 2 then s else SCompact (ord v)
     | _ \<Rightarrow> s)"

definition set_remove :: "(string list \<Rightarrow> string list) \<Rightarrow> set_inner \<Rightarrow> string \<Rightarrow> set_inner \<times> bool" where
  "set_remove ord s m = (case s of
      SIntegers v \<Rightarrow> (case canonical_i64 m of None \<Rightarrow> (s, False)
        | Some n \<Rightarrow> (case search_i64 v n of
              Inr pos \<Rightarrow> (SIntegers (remove_at pos v), True)
            | Inl _ \<Rightarrow> (s, False)))
    | SCompact v \<Rightarrow> (case position (\<lambda>x. x = m) v of
          Some pos \<Rightarrow> (SCompact (swap_remove pos v), True)
        | None \<Rightarrow> (s, False))
    | SFull v \<Rightarrow> (let v' = removeAll m v in
        (if length v' \<le> COMPACT_THRESHOLD div 2 then demote_set ord (SFull v') else SFull v', m \<in> set v)))"

definition set_contains :: "set_inner \<Rightarrow> string \<Rightarrow> bool" where
  "set_contains s m = (case s of
      SIntegers v \<Rightarrow> (case canonical_i64 m of None \<Rightarrow> False
        | Some n \<Rightarrow> (case search_i64 v n of Inr _ \<Rightarrow> True | Inl _ \<Rightarrow> False))
    | SCompact v \<Rightarrow> m \<in> set v
    | SFull v \<Rightarrow> m \<in> set v)"

definition set_len :: "set_inner \<Rightarrow> nat" where
  "set_len s = (case s of SIntegers v \<Rightarrow> length v | SCompact v \<Rightarrow> length v | SFull v \<Rightarrow> length v)"

definition set_is_empty :: "set_inner \<Rightarrow> bool" where
  "set_is_empty s = (set_len s = 0)"

text \<open>The members that the iterator yields, as displayed.\<close>

definition set_iter :: "(string list \<Rightarrow> string list) \<Rightarrow> set_inner \<Rightarrow> string list" where
  "set_iter ord s = (case s of SIntegers v \<Rightarrow> map int_to_string v | SCompact v \<Rightarrow> v | SFull v \<Rightarrow> ord v)"

subsection \<open>The set of strings\<close>

definition set_elems :: "set_inner \<Rightarrow> string set" where
  "set_elems s = (case s of SIntegers v \<Rightarrow> int_to_string ` set v | SCompact v \<Rightarrow> set v | SFull v \<Rightarrow> set v)"

definition set_wf :: "set_inner \<Rightarrow> bool" where
  "set_wf s = (case s of SIntegers v \<Rightarrow> sorted v \<and> distinct v \<and> (\<forall>n\<in>set v. in_i64 n)
     | SCompact v \<Rightarrow> distinct v | SFull v \<Rightarrow> distinct v)"

lemma set_views [simp]:
  "set_elems (SIntegers v) = int_to_string ` set v" "set_elems (SCompact w) = set w" "set_elems (SFull w) = set w"
  "set_wf (SIntegers v) = (sorted v \<and> distinct v \<and> (\<forall>n\<in>set v. in_i64 n))"
  "set_wf (SCompact w) = distinct w" "set_wf (SFull w) = distinct w"
  by (simp_all add: set_elems_def set_wf_def)

lemma canonical_i64_Some: "canonical_i64 s = Some n \<longleftrightarrow> in_i64 n \<and> s = int_to_string n"
  using parse_i64_int_to_string parse_i64_in_range
  by (auto simp: canonical_i64_def split: option.splits if_splits)

lemma canonical_i64_mem:
  "canonical_i64 s = Some n \<Longrightarrow> (\<forall>n\<in>set v. in_i64 n) \<Longrightarrow> s \<in> int_to_string ` set v \<longleftrightarrow> n \<in> set v"
  by (auto simp: canonical_i64_Some int_to_string_inject)

lemma canonical_i64_None_mem:
  "canonical_i64 s = None \<Longrightarrow> (\<forall>n\<in>set v. in_i64 n) \<Longrightarrow> s \<notin> int_to_string ` set v"
proof
  assume none: "canonical_i64 s = None" and v: "\<forall>n\<in>set v. in_i64 n" and "s \<in> int_to_string ` set v"
  then obtain n where "n \<in> set v" "s = int_to_string n" by blast
  with v have "canonical_i64 s = Some n" by (simp add: canonical_i64_Some)
  with none show False by simp
qed

text \<open>Inserting at and removing from the position that the binary search reports.\<close>

lemma search_i64_cases:
  assumes "sorted v" "distinct v"
  shows "n \<in> set v \<Longrightarrow> search_i64 v n = Inr (length (takeWhile (\<lambda>x. x < n) v))"
    "n \<notin> set v \<Longrightarrow> search_i64 v n = Inl (length (takeWhile (\<lambda>x. x < n) v))"
  using binary_search_int [OF assms, of n] by (simp_all add: search_i64_def)

lemma sorted_dropWhile_ge: "sorted v \<Longrightarrow> x \<in> set (dropWhile (\<lambda>x. x < (n :: int)) v) \<Longrightarrow> n \<le> x"
  by (induction v) (auto split: if_splits)

lemma sorted_insert_search:
  assumes "sorted v" "distinct v" "(n :: int) \<notin> set v"
  shows "sorted (insert_at (length (takeWhile (\<lambda>x. x < n) v)) n v)"
    "distinct (insert_at (length (takeWhile (\<lambda>x. x < n) v)) n v)"
proof -
  have split: "v = takeWhile (\<lambda>x. x < n) v @ dropWhile (\<lambda>x. x < n) v" by simp
  have "sorted (takeWhile (\<lambda>x. x < n) v)" "sorted (dropWhile (\<lambda>x. x < n) v)"
    using assms(1) split by (metis sorted_append)+
  moreover have "x < n" if "x \<in> set (takeWhile (\<lambda>x. x < n) v)" for x using set_takeWhileD [OF that] by simp
  moreover have "n \<le> x" if "x \<in> set (dropWhile (\<lambda>x. x < n) v)" for x
    by (rule sorted_dropWhile_ge [OF assms(1) that])
  ultimately have "sorted (takeWhile (\<lambda>x. x < n) v @ n # dropWhile (\<lambda>x. x < n) v)"
    unfolding sorted_append by (auto intro: less_imp_le less_le_trans)
  then show "sorted (insert_at (length (takeWhile (\<lambda>x. x < n) v)) n v)"
    by (simp add: insert_at_def take_drop_takeWhile)
  have "mset (insert_at (length (takeWhile (\<lambda>x. x < n) v)) n v) = mset (n # v)" by simp
  then show "distinct (insert_at (length (takeWhile (\<lambda>x. x < n) v)) n v)"
    using assms(2,3) mset_eq_imp_distinct_iff by (metis distinct.simps(2))
qed

lemma nth_takeWhile_mem:
  assumes "sorted v" "(n :: int) \<in> set v"
  shows "length (takeWhile (\<lambda>x. x < n) v) < length v" "v ! length (takeWhile (\<lambda>x. x < n) v) = n"
  using assms by (induction v) auto

lemma sorted_remove_at:
  assumes "sorted (v :: int list)" shows "sorted (remove_at i v)"
proof -
  have "sorted (take i v @ drop i v)" using assms by simp
  then have "sorted (take i v)" "\<forall>x\<in>set (take i v). \<forall>y\<in>set (drop i v). x \<le> y"
    unfolding sorted_append by blast+
  moreover have "set (drop (Suc i) v) \<subseteq> set (drop i v)" by (rule set_drop_subset_set_drop) simp
  moreover have "sorted (drop (Suc i) v)" using assms by (rule sorted_wrt_drop)
  ultimately show ?thesis unfolding remove_at_def sorted_append by blast
qed

lemma promote_set_ok: "distinct v \<Longrightarrow> promote_set (SCompact v) = SFull v"
proof -
  have "distinct (acc @ v) \<Longrightarrow> foldl (\<lambda>acc x. if x \<in> set acc then acc else acc @ [x]) acc v = acc @ v" for acc
    by (induction v arbitrary: acc) auto
  from this [of "[]"] show "distinct v \<Longrightarrow> ?thesis" by (simp add: promote_set_def)
qed

lemma distinct_to_string:
  "distinct v \<Longrightarrow> \<forall>n\<in>set v. in_i64 n \<Longrightarrow> distinct (map int_to_string v)"
  by (simp add: distinct_map inj_on_def int_to_string_inject)

lemma set_insert_ok:
  assumes "set_wf s"
  shows "snd (set_insert s m) = (m \<notin> set_elems s) \<and> set_elems (fst (set_insert s m)) = insert m (set_elems s)
    \<and> set_wf (fst (set_insert s m))"
proof (cases s)
  case (SIntegers v)
  with assms have v: "sorted v" "distinct v" "\<forall>n\<in>set v. in_i64 n" by simp_all
  show ?thesis
  proof (cases "canonical_i64 m")
    case None
    then have "m \<notin> int_to_string ` set v" using v(3) by (rule canonical_i64_None_mem)
    with None SIntegers v(2,3) show ?thesis by (simp add: set_insert_def distinct_to_string)
  next
    case (Some n)
    have mem: "m \<in> int_to_string ` set v \<longleftrightarrow> n \<in> set v" using Some v(3) by (rule canonical_i64_mem)
    have m: "m = int_to_string n" "in_i64 n" using Some by (simp_all add: canonical_i64_Some)
    show ?thesis
    proof (cases "n \<in> set v")
      case True
      with Some SIntegers v mem show ?thesis
        by (simp add: set_insert_def search_i64_cases(1) insert_absorb)
    next
      case False
      with Some SIntegers v mem m sorted_insert_search [OF v(1,2) False] show ?thesis
        by (simp add: set_insert_def search_i64_cases(2))
    qed
  qed
next
  case (SCompact v)
  with assms promote_set_ok [of "v @ [m]"] show ?thesis
    by (auto simp: set_insert_def Let_def)
next
  case (SFull v)
  with assms show ?thesis by (auto simp: set_insert_def)
qed

lemma set_swap_remove:
  assumes "distinct v" "position (\<lambda>x. x = m) v = Some i"
  shows "set (swap_remove i v) = set v - {m}" "distinct (swap_remove i v)"
proof -
  have i: "i < length v" "v ! i = m" using assms(2) by (auto simp: position_Some)
  have mem: "m \<in> set v" using i by (metis nth_mem)
  have ms: "mset (swap_remove i v) = mset (remove1 m v)" using mset_swap_remove [OF i(1)] i(2) by simp
  then show "distinct (swap_remove i v)" using assms(1) mset_eq_imp_distinct_iff distinct_remove1 by metis
  show "set (swap_remove i v) = set v - {m}" using ms assms(1) by (metis set_mset_mset set_remove1_eq)
qed

lemma set_remove_ok:
  assumes wf: "set_wf s" and ord: "iteration_order ord"
  shows "snd (set_remove ord s m) = (m \<in> set_elems s) \<and> set_elems (fst (set_remove ord s m)) = set_elems s - {m}
    \<and> set_wf (fst (set_remove ord s m))"
proof (cases s)
  case (SIntegers v)
  with wf have v: "sorted v" "distinct v" "\<forall>n\<in>set v. in_i64 n" by simp_all
  show ?thesis
  proof (cases "canonical_i64 m")
    case None
    then have "m \<notin> int_to_string ` set v" using v(3) by (rule canonical_i64_None_mem)
    with None SIntegers v show ?thesis by (simp add: set_remove_def)
  next
    case (Some n)
    have mem: "m \<in> int_to_string ` set v \<longleftrightarrow> n \<in> set v" using Some v(3) by (rule canonical_i64_mem)
    have m: "m = int_to_string n" "in_i64 n" using Some by (simp_all add: canonical_i64_Some)
    show ?thesis
    proof (cases "n \<in> set v")
      case True
      let ?i = "length (takeWhile (\<lambda>x. x < n) v)"
      note i = nth_takeWhile_mem [OF v(1) True]
      have "set (remove_at ?i v) = set v - {n}" using set_remove_at_distinct [OF v(2) i(1)] i(2) by simp
      moreover have "int_to_string ` (set v - {n}) = int_to_string ` set v - {m}"
        using m v(3) by (auto simp: int_to_string_inject)
      ultimately show ?thesis
        using True Some SIntegers v mem sorted_remove_at [OF v(1)] distinct_remove_at [OF v(2)]
        by (simp add: set_remove_def search_i64_cases(1))
    next
      case False
      with Some SIntegers v mem show ?thesis by (simp add: set_remove_def search_i64_cases(2))
    qed
  qed
next
  case (SCompact v)
  then have d: "distinct v" using wf by simp
  show ?thesis
  proof (cases "position (\<lambda>x. x = m) v")
    case None
    then have "m \<notin> set v" by (simp only: position_None) blast
    with None SCompact d show ?thesis by (simp only: set_remove_def set_inner.case option.case) simp
  next
    case (Some i)
    then have "m \<in> set v" by (auto simp: position_Some)
    with Some SCompact set_swap_remove [OF d Some] show ?thesis by (simp add: set_remove_def)
  qed
next
  case (SFull v)
  have "mset (ord (removeAll m v)) = mset (removeAll m v)" by (rule iteration_order_mset [OF ord])
  then have "set (ord (removeAll m v)) = set v - {m}" "distinct v \<Longrightarrow> distinct (ord (removeAll m v))"
    by (metis set_mset_mset set_removeAll, metis mset_eq_imp_distinct_iff distinct_removeAll)
  with SFull wf show ?thesis by (auto simp: set_remove_def Let_def demote_set_def distinct_removeAll)
qed

lemma set_contains_ok: "set_wf s \<Longrightarrow> set_contains s m = (m \<in> set_elems s)"
proof (cases s)
  case (SIntegers v)
  assume "set_wf s"
  with SIntegers have v: "sorted v" "distinct v" "\<forall>n\<in>set v. in_i64 n" by simp_all
  show ?thesis
  proof (cases "canonical_i64 m")
    case None
    with SIntegers canonical_i64_None_mem [OF None v(3)] show ?thesis by (simp add: set_contains_def)
  next
    case (Some n)
    with SIntegers canonical_i64_mem [OF Some v(3)] search_i64_cases [OF v(1,2), of n] show ?thesis
      by (cases "n \<in> set v") (simp_all add: set_contains_def)
  qed
qed (simp_all add: set_contains_def)

lemma set_len_card: "set_wf s \<Longrightarrow> set_len s = card (set_elems s)"
proof (cases s)
  case (SIntegers v)
  assume "set_wf s"
  with SIntegers show ?thesis
    by (simp add: set_len_def card_image inj_on_def int_to_string_inject distinct_card)
qed (simp_all add: set_len_def distinct_card)

lemma set_iter_ok:
  assumes "set_wf s" "iteration_order ord"
  shows "set (set_iter ord s) = set_elems s" "distinct (set_iter ord s)"
proof -
  have "set (ord v) = set v" "distinct v \<Longrightarrow> distinct (ord v)" for v
    using iteration_order_mset [OF assms(2), of v] by (metis set_mset_mset, metis mset_eq_imp_distinct_iff)
  with assms(1) show "set (set_iter ord s) = set_elems s" "distinct (set_iter ord s)"
    by (cases s; simp add: set_iter_def distinct_to_string)+
qed

subsection \<open>Set operations as commands\<close>

datatype set_op = SInsert string | SRemove string | SContains string | SLen

datatype set_result = SFlag bool | SNumber nat

fun set_exec :: "(string list \<Rightarrow> string list) \<Rightarrow> set_op \<Rightarrow> set_inner \<Rightarrow> set_inner \<times> set_result" where
  "set_exec ord (SInsert m) s = map_prod id SFlag (set_insert s m)"
| "set_exec ord (SRemove m) s = map_prod id SFlag (set_remove ord s m)"
| "set_exec ord (SContains m) s = (s, SFlag (set_contains s m))"
| "set_exec ord SLen s = (s, SNumber (set_len s))"

fun set_spec :: "set_op \<Rightarrow> string set \<Rightarrow> string set \<times> set_result" where
  "set_spec (SInsert m) A = (insert m A, SFlag (m \<notin> A))"
| "set_spec (SRemove m) A = (A - {m}, SFlag (m \<in> A))"
| "set_spec (SContains m) A = (A, SFlag (m \<in> A))"
| "set_spec SLen A = (A, SNumber (card A))"

lemma set_simulation:
  assumes ord: "iteration_order ord"
  shows "simulation set_wf set_elems (set_exec ord) set_spec"
proof
  fix s op
  assume wf: "set_wf s"
  note laws = set_insert_ok [OF wf] set_remove_ok [OF wf ord] set_contains_ok [OF wf] set_len_card [OF wf] wf
  show "set_wf (fst (set_exec ord op s))" by (cases op) (simp_all add: laws)
  show "set_elems (fst (set_exec ord op s)) = fst (set_spec op (set_elems s))" by (cases op) (simp_all add: laws)
  show "snd (set_exec ord op s) = snd (set_spec op (set_elems s))" by (cases op) (simp_all add: laws)
qed

section \<open>Lists\<close>

datatype list_inner = LCompact "string list" | LFull "string list"

definition list_new :: list_inner where
  "list_new = LCompact []"

definition promote_list :: "list_inner \<Rightarrow> list_inner" where
  "promote_list l = (case l of LCompact v \<Rightarrow> LFull v | LFull v \<Rightarrow> LFull v)"

definition demote_list :: "list_inner \<Rightarrow> list_inner" where
  "demote_list l = (case l of LCompact v \<Rightarrow> LCompact v
     | LFull v \<Rightarrow> if length v > COMPACT_THRESHOLD div 2 then LFull v else LCompact v)"

definition list_push_front :: "list_inner \<Rightarrow> string \<Rightarrow> list_inner" where
  "list_push_front l x = (case l of
      LCompact v \<Rightarrow> if length (x # v) > COMPACT_THRESHOLD then promote_list (LCompact (x # v)) else LCompact (x # v)
    | LFull v \<Rightarrow> LFull (x # v))"

definition list_push_back :: "list_inner \<Rightarrow> string \<Rightarrow> list_inner" where
  "list_push_back l x = (case l of
      LCompact v \<Rightarrow> if length (v @ [x]) > COMPACT_THRESHOLD then promote_list (LCompact (v @ [x])) else LCompact (v @ [x])
    | LFull v \<Rightarrow> LFull (v @ [x]))"

definition list_pop_front :: "list_inner \<Rightarrow> list_inner \<times> string option" where
  "list_pop_front l = (case l of
      LCompact v \<Rightarrow> (LCompact (tl v), if v = [] then None else Some (hd v))
    | LFull v \<Rightarrow> (let v' = tl v; out = (if v = [] then None else Some (hd v))
        in (if length v' \<le> COMPACT_THRESHOLD div 2 then demote_list (LFull v') else LFull v', out)))"

definition list_pop_back :: "list_inner \<Rightarrow> list_inner \<times> string option" where
  "list_pop_back l = (case l of
      LCompact v \<Rightarrow> (LCompact (butlast v), if v = [] then None else Some (last v))
    | LFull v \<Rightarrow> (let v' = butlast v; out = (if v = [] then None else Some (last v))
        in (if length v' \<le> COMPACT_THRESHOLD div 2 then demote_list (LFull v') else LFull v', out)))"

definition deque :: "list_inner \<Rightarrow> string list" where
  "deque l = (case l of LCompact v \<Rightarrow> v | LFull v \<Rightarrow> v)"

text \<open>Writing through \<open>deque_mut\<close> keeps the representation.\<close>

definition set_deque :: "list_inner \<Rightarrow> string list \<Rightarrow> list_inner" where
  "set_deque l v = (case l of LCompact _ \<Rightarrow> LCompact v | LFull _ \<Rightarrow> LFull v)"

definition list_len :: "list_inner \<Rightarrow> nat" where
  "list_len l = length (deque l)"

lemma deque_simps [simp]:
  "deque (LCompact v) = v" "deque (LFull v) = v" "deque (set_deque l v) = v" "deque list_new = []"
  "deque (list_push_front l x) = x # deque l" "deque (list_push_back l x) = deque l @ [x]"
  "deque (promote_list l) = deque l" "deque (demote_list l) = deque l"
  "deque (fst (list_pop_front l)) = tl (deque l)" "deque (fst (list_pop_back l)) = butlast (deque l)"
  "snd (list_pop_front l) = (if deque l = [] then None else Some (hd (deque l)))"
  "snd (list_pop_back l) = (if deque l = [] then None else Some (last (deque l)))"
  by (cases l; simp add: deque_def set_deque_def list_new_def list_push_front_def list_push_back_def
      promote_list_def demote_list_def list_pop_front_def list_pop_back_def Let_def)+

datatype list_op = LPush_front string | LPush_back string | LPop_front | LPop_back | LLen

datatype list_result = LUnit | LValue "string option" | LNumber nat

fun list_exec :: "list_op \<Rightarrow> list_inner \<Rightarrow> list_inner \<times> list_result" where
  "list_exec (LPush_front x) l = (list_push_front l x, LUnit)"
| "list_exec (LPush_back x) l = (list_push_back l x, LUnit)"
| "list_exec LPop_front l = map_prod id LValue (list_pop_front l)"
| "list_exec LPop_back l = map_prod id LValue (list_pop_back l)"
| "list_exec LLen l = (l, LNumber (list_len l))"

fun list_spec :: "list_op \<Rightarrow> string list \<Rightarrow> string list \<times> list_result" where
  "list_spec (LPush_front x) v = (x # v, LUnit)"
| "list_spec (LPush_back x) v = (v @ [x], LUnit)"
| "list_spec LPop_front v = (tl v, LValue (if v = [] then None else Some (hd v)))"
| "list_spec LPop_back v = (butlast v, LValue (if v = [] then None else Some (last v)))"
| "list_spec LLen v = (v, LNumber (length v))"

interpretation li: simulation "\<lambda>_. True" deque list_exec list_spec
proof
  fix l op
  show "deque (fst (list_exec op l)) = fst (list_spec op (deque l))" by (cases op) simp_all
  show "snd (list_exec op l) = snd (list_spec op (deque l))" by (cases op) (simp_all add: list_len_def)
qed simp

section \<open>Properties\<close>

lemma iteration_order_rev: "iteration_order rev"
  by (simp add: iteration_order_def)

lemma new_wf [simp]:
  "hash_wf hash_new" "hash_map hash_new = Map.empty" "set_wf set_new" "set_elems set_new = {}"
  by (simp_all add: hash_new_def hash_wf_def hash_map_def hash_pairs_def set_new_def)



text \<open>C11: any sequence of insertions, removals, membership tests and counts on a new set answers
  what a set of strings answers, through the integer, vector and hash set representations: a
  member that is the decimal form of a 64-bit integer and a member that is not (such as
  \<open>007\<close>) are never confused.\<close>

theorem set_inner_refines_set:
  assumes "iteration_order ord"
  shows "snd (run (set_exec ord) ops set_new) = snd (run set_spec ops {})"
  using simulation.run_results [OF set_simulation [OF assms], of set_new ops] by simp

theorem set_inner_refines_set_witness:
  "snd (run (set_exec rev) [SInsert ''7'', SInsert ''007'', SContains ''7'', SRemove ''7'', SLen] set_new)
     = [SFlag True, SFlag True, SFlag True, SFlag True, SNumber 1]"
  using set_inner_refines_set [OF iteration_order_rev,
      of "[SInsert ''7'', SInsert ''007'', SContains ''7'', SRemove ''7'', SLen]"]
  by simp


text \<open>Removing a field from a compact hash returns the name of the field instead of its value;
  the same removal from a full hash returns the value.\<close>

theorem compact_remove_returns_field:
  assumes "distinct (map fst ps)" "map_of ps f = Some x"
  shows "snd (hash_remove ord (HCompact (flat ps)) f) = Some f \<and> snd (hash_remove ord (HFull ps) f) = Some x"
proof -
  have "position (\<lambda>p. fst p = f) ps \<noteq> None" using assms(2) by (simp only: position_key) simp
  then have "compact_index (flat ps) f \<noteq> None" by (simp only: compact_index_flat option.map_disc_iff) simp
  then obtain i where "compact_index (flat ps) f = Some i" by blast
  from hash_remove_compact [OF this, of ord] assms(2) show ?thesis
    by (auto simp: hash_remove_def [of ord "HFull ps"] Let_def)
qed

theorem compact_remove_returns_field_witness:
  "snd (hash_remove rev (HCompact [''f'', ''value'']) ''f'') = Some ''f''"
  using compact_remove_returns_field [of "[(''f'', ''value'')]" "''f''" "''value''" rev] by simp

end
