(* ===== verification/F64.thy ===== *)
theory F64
  imports Prelude
begin

text \<open>
  The 64-bit floating-point numbers of the language, as bit patterns: the comparisons, negation,
  absolute value, addition, subtraction and multiplication of IEEE 754 binary64 with rounding to the nearest
  even value.  A finite number is an integer multiple of \<open>2 ^ -1074\<close>; \<open>f_units\<close> is that integer, and
  an infinity is given the value its bit pattern would have with one more exponent, which is above
  every finite one.
\<close>

type_synonym f64 = u64

definition f_bits :: "f64 \<Rightarrow> nat" where
  "f_bits x = unat x mod 2 ^ 63"

definition f_neg :: "f64 \<Rightarrow> bool" where
  "f_neg x \<longleftrightarrow> 2 ^ 63 \<le> unat x"

definition f_exponent :: "f64 \<Rightarrow> nat" where
  "f_exponent x = f_bits x div 2 ^ 52"

definition f_fraction :: "f64 \<Rightarrow> nat" where
  "f_fraction x = f_bits x mod 2 ^ 52"

definition f_inf_bits :: nat where
  "f_inf_bits = 2047 * 2 ^ 52"

definition f_is_nan :: "f64 \<Rightarrow> bool" where
  "f_is_nan x \<longleftrightarrow> f_inf_bits < f_bits x"

definition f_is_infinite :: "f64 \<Rightarrow> bool" where
  "f_is_infinite x \<longleftrightarrow> f_bits x = f_inf_bits"

definition f_is_finite :: "f64 \<Rightarrow> bool" where
  "f_is_finite x \<longleftrightarrow> f_bits x < f_inf_bits"

definition f_magnitude :: "f64 \<Rightarrow> nat" where
  "f_magnitude x = (if f_exponent x = 0 then f_fraction x
     else (2 ^ 52 + f_fraction x) * 2 ^ (f_exponent x - 1))"

definition f_units :: "f64 \<Rightarrow> int" where
  "f_units x = (if f_neg x then - int (f_magnitude x) else int (f_magnitude x))"

section \<open>Comparison\<close>

definition f_lt :: "f64 \<Rightarrow> f64 \<Rightarrow> bool" where
  "f_lt x y \<longleftrightarrow> \<not> f_is_nan x \<and> \<not> f_is_nan y \<and> f_units x < f_units y"

definition f_le :: "f64 \<Rightarrow> f64 \<Rightarrow> bool" where
  "f_le x y \<longleftrightarrow> \<not> f_is_nan x \<and> \<not> f_is_nan y \<and> f_units x \<le> f_units y"

definition f_eq :: "f64 \<Rightarrow> f64 \<Rightarrow> bool" where
  "f_eq x y \<longleftrightarrow> \<not> f_is_nan x \<and> \<not> f_is_nan y \<and> f_units x = f_units y"

section \<open>Rounding and arithmetic\<close>

definition f_make :: "bool \<Rightarrow> nat \<Rightarrow> f64" where
  "f_make neg bits = of_nat (bits + (if neg then 2 ^ 63 else 0))"

definition f_nan :: f64 where "f_nan = f_make False (f_inf_bits + 2 ^ 51)"
definition f_infinity :: f64 where "f_infinity = f_make False f_inf_bits"
definition f_neg_infinity :: f64 where "f_neg_infinity = f_make True f_inf_bits"
definition f_zero :: f64 where "f_zero = 0"

fun bit_length :: "nat \<Rightarrow> nat" where
  "bit_length n = (if n = 0 then 0 else Suc (bit_length (n div 2)))"

declare bit_length.simps [simp del]

text \<open>Half-even rounding of \<open>n / 2 ^ k\<close> to an integer.\<close>

definition round_half_even :: "nat \<Rightarrow> nat \<Rightarrow> nat" where
  "round_half_even n k = (let q = n div 2 ^ k; r = n mod 2 ^ k in
     if 2 * r > 2 ^ k \<or> 2 * r = 2 ^ k \<and> odd q then q + 1 else q)"

text \<open>The bit pattern nearest to \<open>n / 2 ^ s\<close> units: a significand of 53 bits, or the units
  themselves below the normal range.  A carry out of the significand moves into the exponent.\<close>

definition f_round_bits :: "nat \<Rightarrow> nat \<Rightarrow> nat" where
  "f_round_bits n s = (let e = bit_length n - s - 53; b = e * 2 ^ 52 + round_half_even n (e + s)
     in min b f_inf_bits)"

definition f_round :: "bool \<Rightarrow> nat \<Rightarrow> nat \<Rightarrow> f64" where
  "f_round neg n s = f_make neg (f_round_bits n s)"

definition f_opposite :: "f64 \<Rightarrow> f64" where
  "f_opposite x = f_make (\<not> f_neg x) (f_bits x)"

definition f_abs :: "f64 \<Rightarrow> f64" where
  "f_abs x = f_make False (f_bits x)"

definition f_add :: "f64 \<Rightarrow> f64 \<Rightarrow> f64" where
  "f_add x y =
     (if f_is_nan x \<or> f_is_nan y then f_nan
      else if f_is_infinite x then
        (if f_is_infinite y \<and> f_neg x \<noteq> f_neg y then f_nan else x)
      else if f_is_infinite y then y
      else let s = f_units x + f_units y in
        if s = 0 then f_make (f_neg x \<and> f_neg y) 0 else f_round (s < 0) (nat \<bar>s\<bar>) 0)"

definition f_sub :: "f64 \<Rightarrow> f64 \<Rightarrow> f64" where
  "f_sub x y = f_add x (f_opposite y)"

definition f_mul :: "f64 \<Rightarrow> f64 \<Rightarrow> f64" where
  "f_mul x y = (let neg = (f_neg x \<noteq> f_neg y) in
      if f_is_nan x \<or> f_is_nan y then f_nan
      else if f_is_infinite x \<or> f_is_infinite y then
        (if f_units x = 0 \<or> f_units y = 0 then f_nan else f_make neg f_inf_bits)
      else f_round neg (f_magnitude x * f_magnitude y) 1074)"

text \<open>\<open>f64::EPSILON\<close>, \<open>2 ^ -52\<close>.\<close>

definition f_epsilon :: f64 where
  "f_epsilon = of_nat ((1023 - 52) * 2 ^ 52)"

definition f_of_nat :: "nat \<Rightarrow> f64" where
  "f_of_nat n = f_round False (n * 2 ^ 1074) 0"

section \<open>The order of the numbers\<close>

lemma f_bits_make [simp]: "b < 2 ^ 63 \<Longrightarrow> f_bits (f_make neg b) = b" "b < 2 ^ 63 \<Longrightarrow> f_neg (f_make neg b) = neg"
proof -
  assume b: "b < 2 ^ 63"
  then have "unat (f_make neg b) = b + (if neg then 2 ^ 63 else 0)"
    unfolding f_make_def unat_of_nat by (cases neg) simp_all
  with b show "f_bits (f_make neg b) = b" "f_neg (f_make neg b) = neg"
    by (simp_all add: f_bits_def f_neg_def)
qed

lemma f_bits_less: "f_bits x < 2 ^ 63"
  by (simp add: f_bits_def)

lemma f_nan_nan [simp]: "f_is_nan f_nan" "\<not> f_is_nan f_infinity" "\<not> f_is_nan f_neg_infinity" "\<not> f_is_nan f_zero"
  by (simp_all add: f_is_nan_def f_nan_def f_infinity_def f_neg_infinity_def f_zero_def f_inf_bits_def f_bits_def [of 0])

lemma f_lt_total: "\<not> f_is_nan x \<Longrightarrow> \<not> f_is_nan y \<Longrightarrow> f_lt x y \<or> f_eq x y \<or> f_lt y x"
  by (auto simp: f_lt_def f_eq_def)

lemma f_lt_irrefl [simp]: "\<not> f_lt x x"
  by (simp add: f_lt_def)

lemma f_lt_trans: "f_lt x y \<Longrightarrow> f_lt y z \<Longrightarrow> f_lt x z"
  by (auto simp: f_lt_def)

lemma f_le_lt_eq: "f_le x y \<longleftrightarrow> f_lt x y \<or> f_eq x y"
  by (auto simp: f_le_def f_lt_def f_eq_def)

lemma f_nan_incomparable: "f_is_nan x \<Longrightarrow> \<not> f_lt x y \<and> \<not> f_lt y x \<and> \<not> f_eq x y \<and> \<not> f_le x y \<and> \<not> f_le y x"
  by (simp add: f_lt_def f_eq_def f_le_def)

text \<open>A sum of numbers that are not NaN is NaN only for opposite infinities.\<close>

lemma f_round_not_nan: "\<not> f_is_nan (f_round neg n s)"
proof -
  have "f_round_bits n s \<le> f_inf_bits" by (simp add: f_round_bits_def Let_def)
  moreover have "f_inf_bits < 2 ^ 63" by (simp add: f_inf_bits_def)
  ultimately show ?thesis by (simp add: f_is_nan_def f_round_def)
qed

lemma f_add_nan:
  "f_is_nan (f_add x y) \<longleftrightarrow> f_is_nan x \<or> f_is_nan y \<or> f_is_infinite x \<and> f_is_infinite y \<and> f_neg x \<noteq> f_neg y"
  by (auto simp: f_add_def Let_def f_round_not_nan) (auto simp: f_is_nan_def)

end
