(* ===== verification/ZSet_Data.thy ===== *)
theory ZSet_Data
  imports F64 Rust_Std
begin

text \<open>
  Sorted sets (\<open>src/src/storage/value/zset_data.rs\<close>): a vector of entries in the order of score and
  member, beside a filter of two bits per member that tells when a member is certainly absent.
  The invariant \<open>zset_wf\<close> says that the vector is strictly ascending, has each member once and no
  NaN score, and that the filter has no false negative.  Slicing with a start past the end panics
  in the source and is \<^const>\<open>None\<close> here.
\<close>

section \<open>The data and the operations\<close>

record zentry =
  zscore :: f64
  zmember :: string

record zset =
  entries :: "zentry list"
  bloom :: "u64 list"

definition member_hash :: "string \<Rightarrow> u64" where
  "member_hash m = foldl (\<lambda>h b. (h XOR of_nat (of_char b)) * 0x100000001b3) 0xcbf29ce484222325 m"

definition zset_new :: zset where
  "zset_new = \<lparr>entries = [], bloom = [0]\<rparr>"

definition USIZE_LIMIT :: nat where "USIZE_LIMIT = 2 ^ 64 - 1"

definition bloom_words :: "nat \<Rightarrow> nat" where
  "bloom_words n = max (max (next_power_of_two (min (n * 8) USIZE_LIMIT)) 64 div 64) 1"

definition zset_with_capacity :: "nat \<Rightarrow> zset" where
  "zset_with_capacity cap = \<lparr>entries = [], bloom = replicate (bloom_words cap) 0\<rparr>"

definition zset_len :: "zset \<Rightarrow> nat" where
  "zset_len z = length (entries z)"

definition zset_is_empty :: "zset \<Rightarrow> bool" where
  "zset_is_empty z = (entries z = [])"

definition bloom_index :: "u64 list \<Rightarrow> u64 \<Rightarrow> nat" where
  "bloom_index bl h = unat h AND (length bl * 64 - 1)"

definition bloom_bit :: "u64 list \<Rightarrow> nat \<Rightarrow> bool" where
  "bloom_bit bl i \<longleftrightarrow> bl ! (i div 64) AND push_bit (i mod 64) 1 \<noteq> 0"

definition bloom_or :: "u64 list \<Rightarrow> nat \<Rightarrow> u64 list" where
  "bloom_or bl i = bl[i div 64 := bl ! (i div 64) OR push_bit (i mod 64) 1]"

definition bloom_maybe_contains :: "u64 list \<Rightarrow> u64 \<Rightarrow> bool" where
  "bloom_maybe_contains bl h \<longleftrightarrow>
     bloom_bit bl (bloom_index bl h) \<and> bloom_bit bl (bloom_index bl (word_rotl 31 h))"

definition bloom_set :: "u64 list \<Rightarrow> u64 \<Rightarrow> u64 list" where
  "bloom_set bl h = (let a = bloom_index bl h; b = bloom_index bl (word_rotl 31 h)
     in bloom_or (bloom_or bl a) b)"

definition bloom_rebuild :: "zset \<Rightarrow> zset" where
  "bloom_rebuild z = z\<lparr>bloom := foldl (\<lambda>bl e. bloom_set bl (member_hash (zmember e)))
     (replicate (bloom_words (length (entries z))) 0) (entries z)\<rparr>"

definition bloom_grow_if_needed :: "zset \<Rightarrow> zset" where
  "bloom_grow_if_needed z =
     (if min (length (entries z) * 8) USIZE_LIMIT > length (bloom z) * 64 then bloom_rebuild z else z)"

definition find_insert_pos :: "zentry list \<Rightarrow> f64 \<Rightarrow> string \<Rightarrow> nat" where
  "find_insert_pos es score m =
     partition_point (\<lambda>e. f_lt (zscore e) score \<or> f_eq (zscore e) score \<and> zmember e < m) es"

definition mk_entry :: "f64 \<Rightarrow> string \<Rightarrow> zentry" where
  "mk_entry s m = \<lparr>zscore = s, zmember = m\<rparr>"

text \<open>Taking an entry out and putting it back where its new score belongs.\<close>

definition reposition :: "zentry list \<Rightarrow> nat \<Rightarrow> f64 \<Rightarrow> string \<Rightarrow> zentry list" where
  "reposition es pos score m = (let rest = remove_at pos es
     in insert_at (find_insert_pos rest score m) (mk_entry score m) rest)"

definition differs :: "f64 \<Rightarrow> f64 \<Rightarrow> bool" where
  "differs old score \<longleftrightarrow> f_lt f_epsilon (f_abs (f_sub old score))"

definition zset_push :: "zset \<Rightarrow> f64 \<Rightarrow> string \<Rightarrow> zset" where
  "zset_push z score m =
     (let es = entries z;
          at_end = (es = [] \<or> f_lt (zscore (last es)) score
            \<or> f_eq (zscore (last es)) score \<and> zmember (last es) \<le> m);
          es' = (if at_end then es @ [mk_entry score m]
                 else insert_at (find_insert_pos es score m) (mk_entry score m) es)
      in bloom_grow_if_needed (z\<lparr>entries := es', bloom := bloom_set (bloom z) (member_hash m)\<rparr>))"

definition zset_insert :: "zset \<Rightarrow> f64 \<Rightarrow> string \<Rightarrow> zset \<times> bool" where
  "zset_insert z score m = (let es = entries z in
     if \<not> bloom_maybe_contains (bloom z) (member_hash m) then (zset_push z score m, True)
     else if es \<noteq> [] \<and> zmember (last es) = m then
       (if differs (zscore (last es)) score
        then z\<lparr>entries := insert_at (find_insert_pos (butlast es) score m) (mk_entry score m) (butlast es)\<rparr>
        else z, False)
     else case position (\<lambda>e. zmember e = m) es of
         Some pos \<Rightarrow>
           (if differs (zscore (es ! pos)) score then z\<lparr>entries := reposition es pos score m\<rparr> else z, False)
       | None \<Rightarrow> (zset_push z score m, True))"

definition zset_remove :: "zset \<Rightarrow> string \<Rightarrow> zset \<times> f64 option" where
  "zset_remove z m = (case position (\<lambda>e. zmember e = m) (entries z) of None \<Rightarrow> (z, None)
     | Some pos \<Rightarrow> (z\<lparr>entries := remove_at pos (entries z)\<rparr>, Some (zscore (entries z ! pos))))"

definition zset_get_score :: "zset \<Rightarrow> string \<Rightarrow> f64 option" where
  "zset_get_score z m = map_option zscore (find (\<lambda>e. zmember e = m) (entries z))"

definition zset_rank :: "zset \<Rightarrow> string \<Rightarrow> nat option" where
  "zset_rank z m = position (\<lambda>e. zmember e = m) (entries z)"

definition zset_rev_rank :: "zset \<Rightarrow> string \<Rightarrow> nat option" where
  "zset_rev_rank z m = map_option (\<lambda>r. length (entries z) - 1 - r) (zset_rank z m)"

text \<open>Indexing a slice by a range, which panics when the start is past the end.\<close>

definition slice :: "'a list \<Rightarrow> nat \<Rightarrow> nat \<Rightarrow> 'a list option" where
  "slice xs i j = (if i \<le> j \<and> j \<le> length xs then Some (take (j - i) (drop i xs)) else None)"

definition zset_range_by_rank :: "zset \<Rightarrow> nat \<Rightarrow> nat \<Rightarrow> zentry list" where
  "zset_range_by_rank z start fin = (let fin' = min fin (length (entries z)) in
     if start \<ge> fin' then [] else take (fin' - start) (drop start (entries z)))"

definition score_start :: "zset \<Rightarrow> f64 \<Rightarrow> nat" where
  "score_start z mn = partition_point (\<lambda>e. f_lt (zscore e) mn) (entries z)"

definition score_end :: "zset \<Rightarrow> f64 \<Rightarrow> nat" where
  "score_end z mx = partition_point (\<lambda>e. f_le (zscore e) mx) (entries z)"

definition zset_range_by_score :: "zset \<Rightarrow> f64 \<Rightarrow> f64 \<Rightarrow> zentry list option" where
  "zset_range_by_score z mn mx = slice (entries z) (score_start z mn) (score_end z mx)"

definition zset_rev_range_by_score :: "zset \<Rightarrow> f64 \<Rightarrow> f64 \<Rightarrow> zentry list option" where
  "zset_rev_range_by_score z mn mx = map_option rev (slice (entries z) (score_start z mn) (score_end z mx))"

text \<open>The subtraction wraps in the release profile, where overflow checks are off.\<close>

definition zset_count_in_score_range :: "zset \<Rightarrow> f64 \<Rightarrow> f64 \<Rightarrow> u64" where
  "zset_count_in_score_range z mn mx = of_nat (score_end z mx) - of_nat (score_start z mn)"

definition zset_pop_min :: "zset \<Rightarrow> zset \<times> zentry option" where
  "zset_pop_min z = (if entries z = [] then (z, None)
     else (z\<lparr>entries := remove_at 0 (entries z)\<rparr>, Some (entries z ! 0)))"

definition zset_pop_max :: "zset \<Rightarrow> zset \<times> zentry option" where
  "zset_pop_max z = (if entries z = [] then (z, None)
     else (z\<lparr>entries := butlast (entries z)\<rparr>, Some (last (entries z))))"

definition zset_iter :: "zset \<Rightarrow> zentry list" where
  "zset_iter z = entries z"

definition zset_iter_rev :: "zset \<Rightarrow> zentry list" where
  "zset_iter_rev z = rev (entries z)"

definition zset_contains :: "zset \<Rightarrow> string \<Rightarrow> bool" where
  "zset_contains z m = list_ex (\<lambda>e. zmember e = m) (entries z)"

definition zset_members :: "zset \<Rightarrow> string list" where
  "zset_members z = map zmember (entries z)"

definition xorshift :: "u64 \<Rightarrow> u64" where
  "xorshift rng = (let r = rng XOR push_bit 13 rng; r' = r XOR drop_bit 7 r in r' XOR push_bit 17 r')"

primrec draws :: "nat \<Rightarrow> nat \<Rightarrow> u64 \<Rightarrow> nat list" where
  "draws n 0 rng = []"
| "draws n (Suc k) rng = unat (xorshift rng) mod n # draws n k (xorshift rng)"

partial_function (option) distinct_draws :: "nat \<Rightarrow> nat \<Rightarrow> nat list \<Rightarrow> u64 \<Rightarrow> nat list option" where
  "distinct_draws n k seen rng = (if length seen < k then
     (let rng' = xorshift rng; idx = unat rng' mod n
      in distinct_draws n k (if idx \<in> set seen then seen else seen @ [idx]) rng')
     else Some seen)"

text \<open>Collecting into a vector of references panics when it would take more than \<open>isize::MAX\<close> bytes.\<close>

definition zset_random_members :: "zset \<Rightarrow> nat \<Rightarrow> bool \<Rightarrow> zentry list option" where
  "zset_random_members z k allow_dup = (let es = entries z; n = length es; seed = of_nat n * 6364136223846793005 + 1 in
     if es = [] then Some []
     else if allow_dup then (if 8 * k < 2 ^ 63 then Some (map ((!) es) (draws n k seed)) else None)
     else map_option (map ((!) es)) (distinct_draws n (min k n) [] seed))"

definition in_lex_range :: "string \<Rightarrow> string \<Rightarrow> bool \<Rightarrow> bool \<Rightarrow> zentry \<Rightarrow> bool" where
  "in_lex_range mn mx min_exclusive max_exclusive e =
     (let above_min = (if min_exclusive then zmember e > mn else zmember e \<ge> mn);
          below_max = (if mx = ''+'' then True else if max_exclusive then zmember e < mx else zmember e \<le> mx)
      in above_min \<and> below_max)"

definition zset_lex_range :: "zset \<Rightarrow> string \<Rightarrow> string \<Rightarrow> bool \<Rightarrow> bool \<Rightarrow> zentry list" where
  "zset_lex_range z mn mx mne mxe = filter (in_lex_range mn mx mne mxe) (entries z)"

definition zset_count_lex_range :: "zset \<Rightarrow> string \<Rightarrow> string \<Rightarrow> bool \<Rightarrow> bool \<Rightarrow> nat" where
  "zset_count_lex_range z mn mx mne mxe = length (zset_lex_range z mn mx mne mxe)"

definition drain :: "'a list \<Rightarrow> nat \<Rightarrow> nat \<Rightarrow> 'a list" where
  "drain xs i j = take i xs @ drop j xs"

definition zset_remove_range_by_rank :: "zset \<Rightarrow> nat \<Rightarrow> nat \<Rightarrow> zset \<times> nat" where
  "zset_remove_range_by_rank z start fin = (let fin' = min fin (length (entries z)) in
     if start \<ge> fin' then (z, 0) else (z\<lparr>entries := drain (entries z) start fin'\<rparr>, fin' - start))"

definition zset_remove_range_by_score :: "zset \<Rightarrow> f64 \<Rightarrow> f64 \<Rightarrow> zset \<times> nat" where
  "zset_remove_range_by_score z mn mx = (let start = score_start z mn; fin = score_end z mx in
     if start \<ge> fin then (z, 0) else (z\<lparr>entries := drain (entries z) start fin\<rparr>, fin - start))"

definition zset_remove_lex_range :: "zset \<Rightarrow> string \<Rightarrow> string \<Rightarrow> bool \<Rightarrow> bool \<Rightarrow> zset \<times> nat" where
  "zset_remove_lex_range z mn mx mne mxe =
     (let es' = filter (\<lambda>e. \<not> in_lex_range mn mx mne mxe e) (entries z)
      in (z\<lparr>entries := es'\<rparr>, length (entries z) - length es'))"

definition zset_incr :: "zset \<Rightarrow> string \<Rightarrow> f64 \<Rightarrow> zset \<times> f64" where
  "zset_incr z m increment = (let es = entries z in
     case position (\<lambda>e. zmember e = m) es of
       Some pos \<Rightarrow>
         (let new_score = f_add (zscore (es ! pos)) increment;
              stays = (pos = 0 \<or> f_lt (zscore (es ! (pos - 1))) new_score
                \<or> f_eq (zscore (es ! (pos - 1))) new_score \<and> zmember (es ! (pos - 1)) \<le> m)
               \<and> (pos \<ge> length es - 1 \<or> f_lt new_score (zscore (es ! (pos + 1)))
                \<or> f_eq (zscore (es ! (pos + 1))) new_score \<and> zmember (es ! (pos + 1)) \<ge> m)
          in (z\<lparr>entries := if stays then es[pos := (es ! pos)\<lparr>zscore := new_score\<rparr>]
                 else reposition es pos new_score m\<rparr>, new_score))
     | None \<Rightarrow> (fst (zset_insert z increment m), increment))"

definition zset_shrink_to_fit :: "zset \<Rightarrow> zset" where
  "zset_shrink_to_fit z = bloom_rebuild z"

section \<open>The filter has no false negative\<close>

definition bloom_shape :: "u64 list \<Rightarrow> bool" where
  "bloom_shape bl \<longleftrightarrow> (\<exists>k. length bl = 2 ^ k)"

lemma sixty_four: "(64 :: nat) = 2 ^ 6"
  by simp

lemma bloom_words_power: "\<exists>k. bloom_words n = 2 ^ k"
proof -
  obtain j where j: "next_power_of_two (min (n * 8) USIZE_LIMIT) = 2 ^ j" using next_power_of_two_power by blast
  show ?thesis
  proof (cases "j \<le> 6")
    case True
    then have "(2 :: nat) ^ j \<le> 2 ^ 6" by (rule power_increasing) simp
    then have "bloom_words n = 2 ^ 0" by (simp add: bloom_words_def j)
    then show ?thesis by blast
  next
    case False
    then have "(2 :: nat) ^ 6 \<le> 2 ^ j" by (intro power_increasing) simp_all
    moreover have "(2 :: nat) ^ j = 2 ^ (j - 6) * 64"
      using False power_add [of "2 :: nat" "j - 6" 6] by (simp add: sixty_four del: power_numeral)
    moreover have "(1 :: nat) \<le> 2 ^ (j - 6)" by simp
    ultimately have "bloom_words n = 2 ^ (j - 6)" by (simp add: bloom_words_def j max_absorb1)
    then show ?thesis by blast
  qed
qed

lemma bloom_index_less:
  assumes "bloom_shape bl" shows "bloom_index bl h < length bl * 64"
proof -
  obtain k where k: "length bl = 2 ^ k" using assms by (auto simp: bloom_shape_def)
  then have "length bl * 64 = 2 ^ (k + 6)" by (simp add: power_add)
  then show ?thesis by (simp only: bloom_index_def and_pow2_minus_1) simp
qed

lemma bloom_bit_iff: "bloom_bit bl i \<longleftrightarrow> bit (bl ! (i div 64)) (i mod 64)"
proof -
  have "w AND push_bit (i mod 64) 1 \<noteq> 0 \<longleftrightarrow> bit w (i mod 64)" for w :: u64
    by (simp add: bit_iff_and_push_bit_not_eq_0)
  then show ?thesis by (simp add: bloom_bit_def)
qed

lemma bloom_or_simps [simp]:
  "length (bloom_or bl i) = length bl"
  "i < length bl * 64 \<Longrightarrow> bloom_bit (bloom_or bl i) i"
  "bloom_bit bl j \<Longrightarrow> bloom_bit (bloom_or bl i) j"
proof -
  show "length (bloom_or bl i) = length bl" by (simp add: bloom_or_def)
  show "bloom_bit (bloom_or bl i) i" if "i < length bl * 64"
  proof -
    have "i div 64 < length bl" using that by (simp add: div_less_iff_less_mult)
    then show ?thesis by (simp add: bloom_bit_iff bloom_or_def bit_or_iff bit_exp_iff)
  qed
  show "bloom_bit (bloom_or bl i) j" if "bloom_bit bl j"
    using that by (cases "i div 64 = j div 64"; cases "i div 64 < length bl")
      (auto simp: bloom_bit_iff bloom_or_def bit_or_iff nth_list_update list_update_beyond)
qed

lemma bloom_set_simps [simp]: "length (bloom_set bl h) = length bl" "bloom_shape (bloom_set bl h) = bloom_shape bl"
  by (simp_all add: bloom_set_def Let_def bloom_shape_def)

lemma bloom_index_set [simp]: "bloom_index (bloom_set bl h) = bloom_index bl"
  by (simp add: fun_eq_iff bloom_index_def)

lemma bloom_set_contains: "bloom_shape bl \<Longrightarrow> bloom_maybe_contains (bloom_set bl h) h"
  using bloom_index_less by (simp add: bloom_maybe_contains_def) (simp add: bloom_set_def Let_def)

lemma bloom_set_mono: "bloom_maybe_contains bl h' \<Longrightarrow> bloom_maybe_contains (bloom_set bl h) h'"
  by (simp add: bloom_maybe_contains_def) (simp add: bloom_set_def Let_def)

definition bloom_ok :: "u64 list \<Rightarrow> zentry list \<Rightarrow> bool" where
  "bloom_ok bl es \<longleftrightarrow> bloom_shape bl \<and> (\<forall>e\<in>set es. bloom_maybe_contains bl (member_hash (zmember e)))"

lemma bloom_ok_set: "bloom_ok bl es \<Longrightarrow> set (map zmember es') \<subseteq> insert m (set (map zmember es)) \<Longrightarrow>
  bloom_ok (bloom_set bl (member_hash m)) es'"
  unfolding bloom_ok_def bloom_set_simps
proof (intro conjI ballI)
  fix e
  assume ok: "bloom_shape bl \<and> (\<forall>e\<in>set es. bloom_maybe_contains bl (member_hash (zmember e)))"
    and sub: "set (map zmember es') \<subseteq> insert m (set (map zmember es))" and e: "e \<in> set es'"
  from e sub have "zmember e = m \<or> zmember e \<in> zmember ` set es" by auto
  then show "bloom_maybe_contains (bloom_set bl (member_hash m)) (member_hash (zmember e))"
    using ok bloom_set_contains bloom_set_mono by (elim disjE imageE) simp_all
qed simp

lemma bloom_ok_mono: "bloom_ok bl es \<Longrightarrow> set (map zmember es') \<subseteq> set (map zmember es) \<Longrightarrow> bloom_ok bl es'"
  unfolding bloom_ok_def
proof (intro conjI ballI)
  fix e
  assume ok: "bloom_shape bl \<and> (\<forall>e\<in>set es. bloom_maybe_contains bl (member_hash (zmember e)))"
    and sub: "set (map zmember es') \<subseteq> set (map zmember es)" and e: "e \<in> set es'"
  from e sub have "zmember e \<in> zmember ` set es" by auto
  then show "bloom_maybe_contains bl (member_hash (zmember e))" using ok by (elim imageE) simp
qed simp

lemma bloom_fold_ok:
  "bloom_shape bl \<Longrightarrow> bloom_shape (foldl (\<lambda>bl e. bloom_set bl (member_hash (zmember e))) bl es)
    \<and> (\<forall>h. bloom_maybe_contains bl h \<longrightarrow> bloom_maybe_contains (foldl (\<lambda>bl e. bloom_set bl (member_hash (zmember e))) bl es) h)
    \<and> (\<forall>e\<in>set es. bloom_maybe_contains (foldl (\<lambda>bl e. bloom_set bl (member_hash (zmember e))) bl es) (member_hash (zmember e)))"
proof (induction es arbitrary: bl)
  case (Cons e es)
  from Cons.IH [of "bloom_set bl (member_hash (zmember e))"] Cons.prems show ?case
    using bloom_set_contains [OF Cons.prems] bloom_set_mono by simp
qed simp

lemma bloom_rebuild_ok: "bloom_ok (bloom (bloom_rebuild z)) (entries (bloom_rebuild z))"
proof -
  have "bloom_shape (replicate (bloom_words n) 0)" for n
    using bloom_words_power [of n] by (simp add: bloom_shape_def)
  from bloom_fold_ok [OF this, of "length (entries z)" "entries z"] show ?thesis
    by (simp add: bloom_rebuild_def bloom_ok_def)
qed

lemma bloom_grow_ok:
  "bloom_ok (bloom z) (entries z) \<Longrightarrow> bloom_ok (bloom (bloom_grow_if_needed z)) (entries (bloom_grow_if_needed z))"
  "entries (bloom_grow_if_needed z) = entries z" "entries (bloom_rebuild z) = entries z"
  using bloom_rebuild_ok [of z] by (simp_all add: bloom_grow_if_needed_def bloom_rebuild_def)

section \<open>Sorted entries\<close>

definition zless :: "zentry \<Rightarrow> zentry \<Rightarrow> bool" where
  "zless e f \<longleftrightarrow> f_lt (zscore e) (zscore f) \<or> f_eq (zscore e) (zscore f) \<and> zmember e < zmember f"

definition entries_ok :: "zentry list \<Rightarrow> bool" where
  "entries_ok es \<longleftrightarrow> sorted_wrt zless es \<and> distinct (map zmember es) \<and> (\<forall>e\<in>set es. \<not> f_is_nan (zscore e))"

definition zset_wf :: "zset \<Rightarrow> bool" where
  "zset_wf z \<longleftrightarrow> entries_ok (entries z) \<and> bloom_ok (bloom z) (entries z)"

text \<open>The score of each member.\<close>

definition scores :: "zentry list \<Rightarrow> string \<rightharpoonup> f64" where
  "scores es = map_of (map (\<lambda>e. (zmember e, zscore e)) es)"

lemma zless_trans: "zless e f \<Longrightarrow> zless f g \<Longrightarrow> zless e g"
  by (auto simp: zless_def f_lt_def f_eq_def)

lemma zless_irrefl: "\<not> zless e e"
  by (simp add: zless_def)

lemma zless_total: "\<not> f_is_nan (zscore e) \<Longrightarrow> \<not> f_is_nan (zscore f) \<Longrightarrow> zmember e \<noteq> zmember f \<Longrightarrow>
  zless e f \<or> zless f e"
  by (auto simp: zless_def f_lt_def f_eq_def)

lemma mk_entry_simps [simp]: "zscore (mk_entry s m) = s" "zmember (mk_entry s m) = m"
  by (simp_all add: mk_entry_def)

lemma mk_entry_eta [simp]: "mk_entry (zscore e) (zmember e) = e"
  by (simp add: mk_entry_def)

lemma zless_down: "sorted_wrt zless es \<Longrightarrow> sorted_wrt (\<lambda>x y. zless y e \<longrightarrow> zless x e) es"
  by (rule sorted_wrt_mono_rel) (auto intro: zless_trans)

lemma find_insert_pos_takeWhile:
  assumes "sorted_wrt zless es"
  shows "find_insert_pos es s m = length (takeWhile (\<lambda>e. zless e (mk_entry s m)) es)"
proof -
  have "(\<lambda>e. f_lt (zscore e) s \<or> f_eq (zscore e) s \<and> zmember e < m) = (\<lambda>e. zless e (mk_entry s m))"
    by (simp add: zless_def fun_eq_iff)
  then show ?thesis using partition_point_sorted [OF zless_down [OF assms]] by (simp add: find_insert_pos_def)
qed

definition zplace :: "f64 \<Rightarrow> string \<Rightarrow> zentry list \<Rightarrow> zentry list" where
  "zplace s m es = (let P = \<lambda>e. zless e (mk_entry s m) in takeWhile P es @ mk_entry s m # dropWhile P es)"

lemma insert_at_find_pos:
  "sorted_wrt zless es \<Longrightarrow> insert_at (find_insert_pos es s m) (mk_entry s m) es = zplace s m es"
  by (simp add: insert_at_def zplace_def Let_def find_insert_pos_takeWhile take_drop_takeWhile)

lemma zplace_mset: "mset (zplace s m es) = add_mset (mk_entry s m) (mset es)"
proof -
  have "mset (zplace s m es) = add_mset (mk_entry s m)
    (mset (takeWhile (\<lambda>e. zless e (mk_entry s m)) es @ dropWhile (\<lambda>e. zless e (mk_entry s m)) es))"
    by (simp only: zplace_def Let_def mset_append mset.simps) simp
  then show ?thesis by (simp only: takeWhile_dropWhile_id)
qed

lemma zplace_set [simp]: "set (zplace s m es) = insert (mk_entry s m) (set es)"
  using arg_cong [OF zplace_mset, of set_mset] by simp

lemma entries_ok_sorted: "entries_ok es \<Longrightarrow> sorted_wrt zless es"
  by (simp add: entries_ok_def)

lemma sorted_zplace:
  assumes ok: "entries_ok es" and nan: "\<not> f_is_nan s" and fresh: "m \<notin> zmember ` set es"
  shows "sorted_wrt zless (zplace s m es)"
proof -
  let ?n = "mk_entry s m"
  let ?P = "\<lambda>e. zless e ?n"
  have srt: "sorted_wrt zless (takeWhile ?P es @ dropWhile ?P es)"
    using ok by (simp add: entries_ok_def)
  have hd: "zless ?n e" if "dropWhile ?P es = e # r" for e r
  proof -
    have e: "e \<in> set es" "\<not> ?P e"
      using that by (metis list.set_intros(1) set_dropWhileD, metis hd_dropWhile list.discI list.sel(1))
    have "\<not> f_is_nan (zscore e)" using ok e(1) by (auto simp: entries_ok_def)
    moreover have "zmember e \<noteq> m" using fresh e(1) by auto
    ultimately show ?thesis using zless_total [of e ?n] nan e(2) by simp
  qed
  have gt: "zless ?n e" if e: "e \<in> set (dropWhile ?P es)" for e
  proof (cases "dropWhile ?P es")
    case (Cons f r)
    then have "e = f \<or> zless f e" using e srt by (auto simp: sorted_wrt_append)
    then show ?thesis using hd [OF Cons] zless_trans by blast
  next
    case Nil
    show ?thesis using e unfolding Nil by simp
  qed
  have lt: "zless e ?n" if "e \<in> set (takeWhile ?P es)" for e
    using that set_takeWhileD [of e ?P es] by blast
  from srt have "sorted_wrt zless (takeWhile ?P es)" "sorted_wrt zless (dropWhile ?P es)"
    "\<forall>x\<in>set (takeWhile ?P es). \<forall>y\<in>set (dropWhile ?P es). zless x y"
    unfolding sorted_wrt_append by blast+
  with gt lt show ?thesis unfolding zplace_def Let_def sorted_wrt_append sorted_wrt.simps list.set by blast
qed

lemma members_mset: "mset (map zmember (zplace s m es)) = add_mset m (mset (map zmember es))"
  by (simp add: zplace_mset)

lemma zplace_ok:
  assumes "entries_ok es" "\<not> f_is_nan s" "m \<notin> zmember ` set es"
  shows "entries_ok (zplace s m es)"
proof -
  have "distinct (map zmember (zplace s m es)) \<longleftrightarrow> distinct (m # map zmember es)"
    by (rule mset_eq_imp_distinct_iff) (simp add: zplace_mset)
  with assms sorted_zplace [OF assms] show ?thesis by (auto simp: entries_ok_def)
qed

lemma scores_Some: "distinct (map zmember es) \<Longrightarrow> scores es m = Some s \<longleftrightarrow> mk_entry s m \<in> set es"
proof -
  assume d: "distinct (map zmember es)"
  have "(m, s) \<in> set (map (\<lambda>e. (zmember e, zscore e)) es) \<longleftrightarrow> mk_entry s m \<in> set es"
    by (auto simp: image_iff) (metis mk_entry_simps)
  moreover have "distinct (map fst (map (\<lambda>e. (zmember e, zscore e)) es))" using d by (simp add: o_def)
  ultimately show ?thesis by (simp add: scores_def)
qed

lemma scores_None: "scores es m = None \<longleftrightarrow> m \<notin> zmember ` set es"
  by (simp add: scores_def map_of_eq_None_iff image_image)

lemma scores_eqI:
  "distinct (map zmember es) \<Longrightarrow> (\<And>m s. mk_entry s m \<in> set es \<longleftrightarrow> f m = Some s) \<Longrightarrow> scores es = f"
  by (rule ext) (metis not_Some_eq scores_Some)

lemma scores_zplace:
  assumes "entries_ok es" "\<not> f_is_nan s" "m \<notin> zmember ` set es"
  shows "scores (zplace s m es) = (scores es)(m \<mapsto> s)"
proof (rule scores_eqI)
  show "distinct (map zmember (zplace s m es))" using zplace_ok [OF assms] by (simp add: entries_ok_def)
  fix k t
  have "mk_entry t m \<notin> set es" for t using assms(3) by force
  moreover have "mk_entry t k = mk_entry s m \<longleftrightarrow> t = s \<and> k = m" by (auto simp: mk_entry_def)
  ultimately show "mk_entry t k \<in> set (zplace s m es) \<longleftrightarrow> ((scores es)(m \<mapsto> s)) k = Some t"
    using assms(1) by (auto simp: scores_Some entries_ok_def)
qed

lemma sorted_wrt_remove_at: "sorted_wrt R xs \<Longrightarrow> sorted_wrt R (remove_at i xs)"
proof (cases "i < length xs")
  case True
  assume "sorted_wrt R xs"
  then have "sorted_wrt R (take i xs @ xs ! i # drop (Suc i) xs)" using remove_at_split [OF True] by simp
  then show ?thesis by (simp add: remove_at_def sorted_wrt_append)
qed (simp add: remove_at_def)

lemma map_remove_at: "map f (remove_at i xs) = remove_at i (map f xs)"
  by (simp add: remove_at_def take_map drop_map)

lemma entries_ok_remove_at: "entries_ok es \<Longrightarrow> entries_ok (remove_at i es)"
  using set_remove_at_subset [of i es]
  by (auto simp: entries_ok_def sorted_wrt_remove_at map_remove_at distinct_remove_at)

lemma remove_at_members:
  assumes "entries_ok es" "i < length es"
  shows "zmember ` set (remove_at i es) = zmember ` set es - {zmember (es ! i)}"
    and "set (remove_at i es) = set es - {es ! i}"
proof -
  have d: "distinct (map zmember es)" using assms(1) by (simp add: entries_ok_def)
  show "zmember ` set (remove_at i es) = zmember ` set es - {zmember (es ! i)}"
    using set_remove_at_distinct [OF d, of i] assms(2) by (simp flip: map_remove_at)
  show "set (remove_at i es) = set es - {es ! i}"
    using set_remove_at_distinct [of es i] d assms(2) by (simp add: distinct_map)
qed

lemma scores_remove_at:
  assumes ok: "entries_ok es" and i: "i < length es"
  shows "scores (remove_at i es) = (scores es)(zmember (es ! i) := None)"
proof (rule scores_eqI)
  show "distinct (map zmember (remove_at i es))"
    using entries_ok_remove_at [OF ok] by (simp add: entries_ok_def)
  fix k t
  have d: "distinct (map zmember es)" using ok by (simp add: entries_ok_def)
  have "mk_entry t k \<in> set es - {es ! i} \<longleftrightarrow> mk_entry t k \<in> set es \<and> k \<noteq> zmember (es ! i)"
    using d i by (metis (no_types, lifting) DiffE DiffI distinct_map inj_onD mk_entry_simps(2) nth_mem singletonD singletonI)
  then show "mk_entry t k \<in> set (remove_at i es) \<longleftrightarrow> ((scores es)(zmember (es ! i) := None)) k = Some t"
    using remove_at_members(2) [OF assms] d by (simp add: scores_Some)
qed

lemma scores_nth: "entries_ok es \<Longrightarrow> i < length es \<Longrightarrow> scores es (zmember (es ! i)) = Some (zscore (es ! i))"
  by (simp add: scores_Some entries_ok_def)

section \<open>What the operations do to the scores\<close>

lemma bloom_false_absent:
  "zset_wf z \<Longrightarrow> \<not> bloom_maybe_contains (bloom z) (member_hash m) \<Longrightarrow> m \<notin> zmember ` set (entries z)"
  by (auto simp: zset_wf_def bloom_ok_def)

lemma append_zplace:
  assumes ok: "entries_ok es" and fresh: "m \<notin> zmember ` set es"
    and lst: "es \<noteq> [] \<Longrightarrow> f_lt (zscore (last es)) s \<or> f_eq (zscore (last es)) s \<and> zmember (last es) \<le> m"
  shows "es @ [mk_entry s m] = zplace s m es"
proof -
  have "zless e (mk_entry s m)" if "e \<in> set es" for e
  proof -
    have ne: "es \<noteq> []" using that by auto
    then have "zmember (last es) \<noteq> m" using fresh last_in_set by blast
    then have l: "zless (last es) (mk_entry s m)" using lst [OF ne] by (auto simp: zless_def)
    have "sorted_wrt zless (butlast es @ [last es])" "e \<in> set (butlast es @ [last es])"
      using ok ne that by (simp_all add: entries_ok_def)
    then have "e = last es \<or> zless e (last es)" unfolding sorted_wrt_append by auto
    then show ?thesis using l zless_trans by blast
  qed
  then show ?thesis by (simp add: zplace_def Let_def takeWhile_eq_all_conv [THEN iffD2] dropWhile_eq_Nil_conv [THEN iffD2])
qed

lemma zset_push_ok:
  assumes wf: "zset_wf z" and nan: "\<not> f_is_nan s" and fresh: "m \<notin> zmember ` set (entries z)"
  shows "zset_wf (zset_push z s m)" "entries (zset_push z s m) = zplace s m (entries z)"
proof -
  let ?es = "entries z"
  let ?at = "?es = [] \<or> f_lt (zscore (last ?es)) s \<or> f_eq (zscore (last ?es)) s \<and> zmember (last ?es) \<le> m"
  let ?es' = "if ?at then ?es @ [mk_entry s m] else insert_at (find_insert_pos ?es s m) (mk_entry s m) ?es"
  let ?z = "z\<lparr>entries := ?es', bloom := bloom_set (bloom z) (member_hash m)\<rparr>"
  have ok: "entries_ok ?es" "bloom_ok (bloom z) ?es" using wf by (simp_all add: zset_wf_def)
  have zplace: "?es' = zplace s m ?es"
    using append_zplace [OF ok(1) fresh, of s] insert_at_find_pos [OF entries_ok_sorted [OF ok(1)]] by auto
  have push: "zset_push z s m = bloom_grow_if_needed ?z" by (simp only: zset_push_def Let_def)
  have "bloom_ok (bloom ?z) (entries ?z)" using bloom_ok_set [OF ok(2), of "zplace s m ?es" m] by (simp add: zplace)
  then have bl: "bloom_ok (bloom (zset_push z s m)) (entries (zset_push z s m))"
    unfolding push by (rule bloom_grow_ok(1))
  show es: "entries (zset_push z s m) = zplace s m ?es" unfolding push bloom_grow_ok(2) using zplace by simp
  show "zset_wf (zset_push z s m)" using bl zplace_ok [OF ok(1) nan fresh] by (simp add: zset_wf_def es)
qed

lemma reposition_ok:
  assumes ok: "entries_ok es" and nan: "\<not> f_is_nan s" and i: "i < length es" and m: "zmember (es ! i) = m"
  shows "entries_ok (reposition es i s m)" "scores (reposition es i s m) = (scores es)(m \<mapsto> s)"
    "zmember ` set (reposition es i s m) = zmember ` set es"
proof -
  let ?r = "remove_at i es"
  have r: "entries_ok ?r" "m \<notin> zmember ` set ?r"
    using entries_ok_remove_at [OF ok] remove_at_members(1) [OF ok i] m by auto
  have rep: "reposition es i s m = zplace s m ?r"
    by (simp add: reposition_def Let_def insert_at_find_pos [OF entries_ok_sorted [OF r(1)]])
  show "entries_ok (reposition es i s m)" unfolding rep by (rule zplace_ok [OF r(1) nan r(2)])
  show "scores (reposition es i s m) = (scores es)(m \<mapsto> s)"
    unfolding rep scores_zplace [OF r(1) nan r(2)] scores_remove_at [OF ok i] m by simp
  have "m \<in> zmember ` set es" using i m by (metis image_eqI nth_mem)
  then show "zmember ` set (reposition es i s m) = zmember ` set es"
    unfolding rep using remove_at_members(1) [OF ok i] m by auto
qed

lemma zset_wf_entries:
  "zset_wf z \<Longrightarrow> entries_ok es \<Longrightarrow> zmember ` set es \<subseteq> zmember ` set (entries z) \<Longrightarrow> zset_wf (z\<lparr>entries := es\<rparr>)"
  using bloom_ok_mono [of "bloom z" "entries z" es] by (simp add: zset_wf_def)

lemma butlast_remove_at: "es \<noteq> [] \<Longrightarrow> butlast es = remove_at (length es - 1) es"
  by (simp add: remove_at_def butlast_conv_take)

lemma butlast_reposition: "es \<noteq> [] \<Longrightarrow>
  insert_at (find_insert_pos (butlast es) s m) (mk_entry s m) (butlast es) = reposition es (length es - 1) s m"
  by (simp add: reposition_def butlast_remove_at Let_def)

lemma position_member:
  assumes "entries_ok es"
  shows "position (\<lambda>e. zmember e = m) es = None \<longleftrightarrow> scores es m = None"
    and "position (\<lambda>e. zmember e = m) es = Some i \<Longrightarrow> i < length es \<and> zmember (es ! i) = m \<and> scores es m = Some (zscore (es ! i))"
proof -
  show "position (\<lambda>e. zmember e = m) es = None \<longleftrightarrow> scores es m = None"
    unfolding position_None scores_None by auto
  assume "position (\<lambda>e. zmember e = m) es = Some i"
  then have i: "i < length es" "zmember (es ! i) = m" by (simp_all add: position_Some)
  with scores_nth [OF assms i(1)] show "i < length es \<and> zmember (es ! i) = m \<and> scores es m = Some (zscore (es ! i))" by simp
qed

definition update_score :: "(string \<rightharpoonup> f64) \<Rightarrow> string \<Rightarrow> f64 \<Rightarrow> (string \<rightharpoonup> f64)" where
  "update_score f m s = (case f m of Some old \<Rightarrow> if differs old s then f(m \<mapsto> s) else f | None \<Rightarrow> f(m \<mapsto> s))"

lemma zset_insert_new:
  assumes "zset_wf z" "\<not> f_is_nan s" "scores (entries z) m = None"
  shows "zset_insert z s m = (zset_push z s m, True)"
proof -
  have "m \<notin> zmember ` set (entries z)" using assms(3) by (simp add: scores_None)
  moreover from this have "entries z \<noteq> [] \<longrightarrow> zmember (last (entries z)) \<noteq> m" using last_in_set by blast
  moreover have pos: "position (\<lambda>e. zmember e = m) (entries z) = None" using calculation(1) by auto
  ultimately show ?thesis unfolding zset_insert_def Let_def pos by auto
qed

lemma zset_insert_old:
  assumes wf: "zset_wf z" and nan: "\<not> f_is_nan s" and old: "scores (entries z) m = Some old"
  obtains es where "zset_insert z s m = (z\<lparr>entries := es\<rparr>, False)" "entries_ok es"
    "scores es = update_score (scores (entries z)) m s" "zmember ` set es = zmember ` set (entries z)"
proof -
  let ?es = "entries z"
  have ok: "entries_ok ?es" using wf by (simp add: zset_wf_def)
  define i where "i = (if zmember (last ?es) = m then length ?es - 1 else the (position (\<lambda>e. zmember e = m) ?es))"
  have mem: "m \<in> zmember ` set ?es" using old scores_None [of ?es m] by auto
  then have ne: "?es \<noteq> []" by auto
  have bl: "bloom_maybe_contains (bloom z) (member_hash m)" using bloom_false_absent [OF wf] mem by blast
  obtain j where j: "position (\<lambda>e. zmember e = m) ?es = Some j"
    using position_member(1) [OF ok, of m] old by (cases "position (\<lambda>e. zmember e = m) ?es") simp_all
  have i: "i < length ?es" "zmember (?es ! i) = m"
    using ne j position_member(2) [OF ok j] by (auto simp: i_def last_conv_nth)
  have sc: "zscore (?es ! i) = old" using scores_nth [OF ok i(1)] i(2) old by simp
  have ins: "zset_insert z s m = (if differs old s then z\<lparr>entries := reposition ?es i s m\<rparr> else z, False)"
  proof (cases "zmember (last ?es) = m")
    case True
    then have "i = length ?es - 1" by (simp add: i_def)
    moreover have "zscore (last ?es) = old" using sc ne calculation by (simp add: last_conv_nth)
    ultimately show ?thesis using True ne bl by (simp add: zset_insert_def Let_def butlast_reposition)
  next
    case False
    then have "i = j" by (simp add: i_def j)
    then show ?thesis using False bl j sc by (simp add: zset_insert_def Let_def)
  qed
  show ?thesis
  proof (cases "differs old s")
    case True
    with ins reposition_ok [OF ok nan i] old show ?thesis by (intro that [of "reposition ?es i s m"]) (simp_all add: update_score_def)
  next
    case False
    with ins ok old show ?thesis by (intro that [of ?es]) (simp_all add: update_score_def)
  qed
qed

text \<open>Inserting a score that is a number keeps the sorted set well formed, reports whether the
  member was absent, and changes the scores exactly at the member: a new member gets the score, an
  old one too unless the two scores differ by at most the machine epsilon.
\<close>

theorem zset_insert_updates:
  assumes "zset_wf z" "\<not> f_is_nan s"
  shows "zset_wf (fst (zset_insert z s m))
    \<and> scores (entries (fst (zset_insert z s m))) = update_score (scores (entries z)) m s
    \<and> snd (zset_insert z s m) = (scores (entries z) m = None)"
proof (cases "scores (entries z) m")
  case None
  then have "m \<notin> zmember ` set (entries z)" by (simp add: scores_None)
  with None assms zset_push_ok [OF assms] scores_zplace [of "entries z" s m] zset_insert_new [OF assms None]
  show ?thesis by (simp add: update_score_def zset_wf_def)
next
  case (Some old)
  obtain es where "zset_insert z s m = (z\<lparr>entries := es\<rparr>, False)" "entries_ok es"
    "scores es = update_score (scores (entries z)) m s" "zmember ` set es = zmember ` set (entries z)"
    using zset_insert_old [OF assms Some] .
  with assms(1) Some show ?thesis by (simp add: zset_wf_entries)
qed

lemma zset_new_wf [simp]: "zset_wf zset_new"
  by (simp add: zset_wf_def zset_new_def entries_ok_def bloom_ok_def bloom_shape_def)
    (rule exI [of _ 0], simp)

theorem zset_insert_updates_witness:
  "snd (zset_insert zset_new f_zero ''a'') = True"
  using zset_insert_updates [OF zset_new_wf, of f_zero "''a''"]
  by (simp add: zset_new_def scores_def)

lemma zset_remove_ok:
  assumes wf: "zset_wf z"
  shows "zset_wf (fst (zset_remove z m))"
    and "scores (entries (fst (zset_remove z m))) = (scores (entries z))(m := None)"
    and "snd (zset_remove z m) = scores (entries z) m"
proof -
  have ok: "entries_ok (entries z)" using wf by (simp add: zset_wf_def)
  have "zset_wf (fst (zset_remove z m))
    \<and> scores (entries (fst (zset_remove z m))) = (scores (entries z))(m := None)
    \<and> snd (zset_remove z m) = scores (entries z) m"
  proof (cases "position (\<lambda>e. zmember e = m) (entries z)")
    case None
    then have "scores (entries z) m = None" using position_member(1) [OF ok, of m] by blast
    moreover have "(scores (entries z))(m := None) = scores (entries z)" using calculation by auto
    moreover have "zset_remove z m = (z, None)" unfolding zset_remove_def None by simp
    ultimately show ?thesis using wf by simp
  next
    case (Some i)
    from position_member(2) [OF ok Some] have i: "i < length (entries z)" "zmember (entries z ! i) = m"
      "scores (entries z) m = Some (zscore (entries z ! i))" by simp_all
    have "zset_wf (z\<lparr>entries := remove_at i (entries z)\<rparr>)"
      using zset_wf_entries [OF wf entries_ok_remove_at [OF ok, of i]] remove_at_members(1) [OF ok i(1)] by auto
    then show ?thesis using i scores_remove_at [OF ok i(1)] by (simp add: zset_remove_def Some)
  qed
  then show "zset_wf (fst (zset_remove z m))"
    and "scores (entries (fst (zset_remove z m))) = (scores (entries z))(m := None)"
    and "snd (zset_remove z m) = scores (entries z) m" by simp_all
qed

lemma zset_get_score_ok: "zset_get_score z m = scores (entries z) m"
proof -
  have "map_option zscore (find (\<lambda>e. zmember e = m) es) = scores es m" for es
    by (induction es) (auto simp: scores_def)
  then show ?thesis by (simp add: zset_get_score_def)
qed

lemma zset_contains_ok: "zset_contains z m \<longleftrightarrow> scores (entries z) m \<noteq> None"
  by (auto simp: zset_contains_def scores_None list_ex_iff)

text \<open>A new score that fits between the neighbours stays in place.\<close>

lemma update_nth_reposition:
  assumes ok: "entries_ok es" and nan: "\<not> f_is_nan s" and i: "i < length es"
    and left: "0 < i \<Longrightarrow> zless (es ! (i - 1)) (mk_entry s (zmember (es ! i)))"
    and right: "Suc i < length es \<Longrightarrow> zless (mk_entry s (zmember (es ! i))) (es ! Suc i)"
  shows "es[i := (es ! i)\<lparr>zscore := s\<rparr>] = reposition es i s (zmember (es ! i))"
proof -
  let ?n = "mk_entry s (zmember (es ! i))"
  let ?P = "\<lambda>e. zless e ?n"
  have n: "(es ! i)\<lparr>zscore := s\<rparr> = ?n" by (simp add: mk_entry_def)
  have srt: "sorted_wrt zless es" using ok by (simp add: entries_ok_def)
  have lt: "?P e" if "e \<in> set (take i es)" for e
  proof -
    obtain j where j: "j < i" "e = es ! j" using \<open>e \<in> _\<close> i by (auto simp: in_set_conv_nth)
    have "j = i - 1 \<or> zless (es ! j) (es ! (i - 1))"
      using srt j(1) i by (metis Suc_leI diff_less less_imp_diff_less less_one linorder_neqE_nat not_less_eq
          Suc_pred less_Suc_eq bot_nat_0.not_eq_extremum not_less0 sorted_wrt_nth_less)
    then show ?thesis using left j zless_trans by (metis bot_nat_0.not_eq_extremum not_less0)
  qed
  have gt: "\<not> ?P e" if "drop (Suc i) es = e # r" for e r
  proof -
    have l: "Suc i < length es" using \<open>drop (Suc i) es = _\<close> by (metis drop_all list.discI not_le)
    then have "e = es ! Suc i" using \<open>drop (Suc i) es = _\<close> by (metis hd_drop_conv_nth list.sel(1))
    then show ?thesis using right [OF l] zless_trans zless_irrefl by blast
  qed
  have tw: "takeWhile ?P (remove_at i es) = take i es" "dropWhile ?P (remove_at i es) = drop (Suc i) es"
  proof -
    have "takeWhile ?P (drop (Suc i) es) = []" "dropWhile ?P (drop (Suc i) es) = drop (Suc i) es"
      using gt by (cases "drop (Suc i) es"; simp)+
    then show "takeWhile ?P (remove_at i es) = take i es" "dropWhile ?P (remove_at i es) = drop (Suc i) es"
      using lt by (simp_all add: remove_at_def takeWhile_append2 dropWhile_append2)
  qed
  have "reposition es i s (zmember (es ! i)) = zplace s (zmember (es ! i)) (remove_at i es)"
    using sorted_wrt_remove_at [OF srt] by (simp add: reposition_def Let_def insert_at_find_pos)
  then show ?thesis using i by (simp add: zplace_def Let_def tw n upd_conv_take_nth_drop)
qed

definition fits :: "zentry list \<Rightarrow> nat \<Rightarrow> f64 \<Rightarrow> string \<Rightarrow> bool" where
  "fits es pos s m \<longleftrightarrow> (pos = 0 \<or> f_lt (zscore (es ! (pos - 1))) s
      \<or> f_eq (zscore (es ! (pos - 1))) s \<and> zmember (es ! (pos - 1)) \<le> m)
    \<and> (pos \<ge> length es - 1 \<or> f_lt s (zscore (es ! (pos + 1)))
      \<or> f_eq (zscore (es ! (pos + 1))) s \<and> zmember (es ! (pos + 1)) \<ge> m)"

lemma zset_incr_unfold: "zset_incr z m increment = (case position (\<lambda>e. zmember e = m) (entries z) of
    Some pos \<Rightarrow> (let s = f_add (zscore (entries z ! pos)) increment in
      (z\<lparr>entries := if fits (entries z) pos s m then (entries z)[pos := (entries z ! pos)\<lparr>zscore := s\<rparr>]
         else reposition (entries z) pos s m\<rparr>, s))
  | None \<Rightarrow> (fst (zset_insert z increment m), increment))"
  by (simp only: zset_incr_def Let_def fits_def)

lemma fits_reposition:
  assumes ok: "entries_ok es" and nan: "\<not> f_is_nan s" and i: "i < length es" and fit: "fits es i s (zmember (es ! i))"
  shows "es[i := (es ! i)\<lparr>zscore := s\<rparr>] = reposition es i s (zmember (es ! i))"
proof (rule update_nth_reposition [OF ok nan i])
  have d: "zmember (es ! j) \<noteq> zmember (es ! i)" if "j < length es" "j \<noteq> i" for j
    using ok i that by (simp add: entries_ok_def distinct_conv_nth)
  show "zless (es ! (i - 1)) (mk_entry s (zmember (es ! i)))" if "0 < i"
  proof -
    have "zmember (es ! (i - 1)) \<noteq> zmember (es ! i)" using d [of "i - 1"] i that by simp
    then show ?thesis using fit that by (auto simp: fits_def zless_def)
  qed
  show "zless (mk_entry s (zmember (es ! i))) (es ! Suc i)" if "Suc i < length es"
  proof -
    have "zmember (es ! Suc i) \<noteq> zmember (es ! i)" "\<not> length es - 1 \<le> i" using d [of "Suc i"] that by simp_all
    then show ?thesis using fit by (auto simp: fits_def zless_def f_eq_def)
  qed
qed

text \<open>Incrementing a member, present or not, keeps the sorted set well formed and sets the score
  of that member to the returned sum, whenever the sum is a number; entries that stay in place and
  entries that move give the same vector.
\<close>

theorem zset_incr_adds:
  assumes "zset_wf z"
    and "new = (case scores (entries z) m of Some old \<Rightarrow> f_add old increment | None \<Rightarrow> increment)"
    and "\<not> f_is_nan new"
  shows "zset_wf (fst (zset_incr z m increment))
    \<and> scores (entries (fst (zset_incr z m increment))) = (scores (entries z))(m \<mapsto> new)
    \<and> snd (zset_incr z m increment) = new"
proof (cases "scores (entries z) m")
  case None
  have ok: "entries_ok (entries z)" using assms(1) by (simp add: zset_wf_def)
  have m: "m \<notin> zmember ` set (entries z)" using None by (simp add: scores_None)
  have new: "new = increment" "\<not> f_is_nan increment" using None assms(2,3) by simp_all
  have pos: "position (\<lambda>e. zmember e = m) (entries z) = None" using None position_member(1) [OF ok] by blast
  have "zset_incr z m increment = (zset_push z increment m, increment)"
    unfolding zset_incr_unfold pos using zset_insert_new [OF assms(1) new(2) None] by simp
  then show ?thesis using zset_push_ok [OF assms(1) new(2) m] scores_zplace [OF ok new(2) m] new(1) by simp
next
  case (Some old)
  have ok: "entries_ok (entries z)" using assms(1) by (simp add: zset_wf_def)
  obtain i where pos: "position (\<lambda>e. zmember e = m) (entries z) = Some i"
    using Some position_member(1) [OF ok, of m] by (cases "position (\<lambda>e. zmember e = m) (entries z)") simp_all
  from position_member(2) [OF ok pos] Some have i: "i < length (entries z)" "zmember (entries z ! i) = m"
    "zscore (entries z ! i) = old" by simp_all
  have new: "new = f_add old increment" using Some assms(2) by simp
  have "zset_incr z m increment = (z\<lparr>entries := reposition (entries z) i new m\<rparr>, new)"
    using fits_reposition [OF ok assms(3) i(1)] i by (simp add: zset_incr_unfold pos new Let_def)
  then show ?thesis using reposition_ok [OF ok assms(3) i(1,2)] zset_wf_entries [OF assms(1)] by simp
qed

theorem zset_incr_adds_witness:
  "snd (zset_incr zset_new ''a'' f_zero) = f_zero"
  using zset_incr_adds [OF zset_new_wf, where new = f_zero and m = "''a''" and increment = f_zero] by (simp add: zset_new_def scores_def)

section \<open>Ranges of scores\<close>

lemma zless_f_lt: "zless x y \<Longrightarrow> f_lt (zscore y) s \<Longrightarrow> f_lt (zscore x) s"
  "zless x y \<Longrightarrow> f_le (zscore y) s \<Longrightarrow> f_le (zscore x) s"
  by (auto simp: zless_def f_lt_def f_eq_def f_le_def)

lemma score_start_end:
  assumes "sorted_wrt zless (entries z)"
  shows "score_start z mn = length (takeWhile (\<lambda>e. f_lt (zscore e) mn) (entries z))"
    "score_end z mx = length (takeWhile (\<lambda>e. f_le (zscore e) mx) (entries z))"
proof -
  have "sorted_wrt (\<lambda>x y. f_lt (zscore y) mn \<longrightarrow> f_lt (zscore x) mn) (entries z)"
    "sorted_wrt (\<lambda>x y. f_le (zscore y) mx \<longrightarrow> f_le (zscore x) mx) (entries z)"
    by (rule sorted_wrt_mono_rel [OF _ assms], blast intro: zless_f_lt)+
  then show "score_start z mn = length (takeWhile (\<lambda>e. f_lt (zscore e) mn) (entries z))"
    "score_end z mx = length (takeWhile (\<lambda>e. f_le (zscore e) mx) (entries z))"
    by (simp_all add: score_start_def score_end_def partition_point_sorted)
qed

lemma takeWhile_split_filter:
  assumes "sorted_wrt (\<lambda>x y. Q y \<longrightarrow> Q x) xs" "\<And>x. x \<in> set xs \<Longrightarrow> P x \<Longrightarrow> Q x" "sorted_wrt (\<lambda>x y. P y \<longrightarrow> P x) xs"
  shows "take (length (takeWhile Q xs) - length (takeWhile P xs)) (drop (length (takeWhile P xs)) xs)
    = filter (\<lambda>x. \<not> P x \<and> Q x) xs \<and> length (takeWhile P xs) \<le> length (takeWhile Q xs)"
  using assms
proof (induction xs)
  case (Cons x xs)
  have IH: "take (length (takeWhile Q xs) - length (takeWhile P xs)) (drop (length (takeWhile P xs)) xs)
      = filter (\<lambda>x. \<not> P x \<and> Q x) xs \<and> length (takeWhile P xs) \<le> length (takeWhile Q xs)"
    using Cons by simp
  show ?case
  proof (cases "P x")
    case True
    then have "Q x" using Cons.prems(2) by simp
    then show ?thesis using IH True by simp
  next
    case False
    then have nP: "\<And>y. y \<in> set xs \<Longrightarrow> \<not> P y" using Cons.prems(3) by auto
    then have "takeWhile P xs = []" by (cases xs) auto
    then show ?thesis
    proof (cases "Q x")
      case True
      with False IH \<open>takeWhile P xs = []\<close> show ?thesis by simp
    next
      case Q: False
      then have "\<And>y. y \<in> set xs \<Longrightarrow> \<not> Q y" using Cons.prems(1) by auto
      then have "filter (\<lambda>x. \<not> P x \<and> Q x) xs = []" by (simp add: filter_empty_conv)
      with False Q show ?thesis by simp
    qed
  qed
qed simp

lemma takeWhile_longer:
  assumes "sorted_wrt (\<lambda>x y. P y \<longrightarrow> P x) xs" "\<And>x. x \<in> set xs \<Longrightarrow> Q x \<Longrightarrow> P x"
  shows "length (takeWhile Q xs) < length (takeWhile P xs) \<longleftrightarrow> (\<exists>x\<in>set xs. P x \<and> \<not> Q x)"
  using assms
proof (induction xs)
  case (Cons x xs)
  then have IH: "length (takeWhile Q xs) < length (takeWhile P xs) \<longleftrightarrow> (\<exists>x\<in>set xs. P x \<and> \<not> Q x)" by simp
  show ?case
  proof (cases "Q x")
    case True
    then have "P x" using Cons.prems(2) by simp
    with True IH show ?thesis by simp
  next
    case False
    then show ?thesis using Cons.prems(1) by auto
  qed
qed simp

text \<open>A range of scores whose minimum is at most its maximum holds exactly the entries whose
  score lies in it, in order, and the count of the range is their number.
\<close>

theorem range_by_score_filter:
  assumes "zset_wf z" "f_le mn mx"
  shows "zset_range_by_score z mn mx = Some (filter (\<lambda>e. f_le mn (zscore e) \<and> f_le (zscore e) mx) (entries z))
    \<and> zset_count_in_score_range z mn mx = of_nat (length (filter (\<lambda>e. f_le mn (zscore e) \<and> f_le (zscore e) mx) (entries z)))"
proof -
  let ?P = "\<lambda>e. f_lt (zscore e) mn" and ?Q = "\<lambda>e. f_le (zscore e) mx"
  have srt: "sorted_wrt zless (entries z)" and nan: "\<forall>e\<in>set (entries z). \<not> f_is_nan (zscore e)"
    using assms(1) by (simp_all add: zset_wf_def entries_ok_def)
  have s: "sorted_wrt (\<lambda>x y. ?P y \<longrightarrow> ?P x) (entries z)" "sorted_wrt (\<lambda>x y. ?Q y \<longrightarrow> ?Q x) (entries z)"
    by (rule sorted_wrt_mono_rel [OF _ srt], blast intro: zless_f_lt)+
  have pq: "?P e \<Longrightarrow> ?Q e" for e using assms(2) by (simp add: f_lt_def f_le_def)
  from takeWhile_split_filter [OF s(2) pq s(1)] score_start_end [OF srt]
  have r: "take (score_end z mx - score_start z mn) (drop (score_start z mn) (entries z)) = filter (\<lambda>e. \<not> ?P e \<and> ?Q e) (entries z)"
    and le: "score_start z mn \<le> score_end z mx" by simp_all
  have se: "score_end z mx \<le> length (entries z)" by (simp add: score_start_end [OF srt] length_takeWhile_le)
  have f: "filter (\<lambda>e. \<not> ?P e \<and> ?Q e) (entries z) = filter (\<lambda>e. f_le mn (zscore e) \<and> ?Q e) (entries z)"
    using nan assms(2) by (intro filter_cong) (auto simp: f_lt_def f_le_def)
  have "length (filter (\<lambda>e. f_le mn (zscore e) \<and> ?Q e) (entries z)) = score_end z mx - score_start z mn"
    using arg_cong [OF r, of length] se by (simp add: f)
  then show ?thesis using r le se
    by (simp add: zset_range_by_score_def slice_def f zset_count_in_score_range_def of_nat_diff)
qed

theorem range_by_score_filter_witness:
  "f_le f_zero f_infinity \<and> zset_range_by_score zset_new f_zero f_infinity = Some []"
proof -
  have "f_units f_zero \<le> f_units f_infinity"
    by (simp add: f_units_def f_zero_def f_infinity_def f_neg_def [of 0] f_magnitude_def f_exponent_def
      f_fraction_def f_bits_def [of 0] f_inf_bits_def)
  then have le: "f_le f_zero f_infinity" by (simp add: f_le_def)
  with range_by_score_filter [OF zset_new_wf le] show ?thesis by (simp add: zset_new_def)
qed

text \<open>A range of scores is a panic exactly when some entry lies strictly above the maximum and
  strictly below the minimum: reversed bounds take the whole process down as soon as they enclose
  an entry.
\<close>

theorem range_by_score_panics:
  assumes "zset_wf z" "f_lt mx mn"
  shows "zset_range_by_score z mn mx = None \<longleftrightarrow>
    (\<exists>e\<in>set (entries z). f_lt mx (zscore e) \<and> f_lt (zscore e) mn)"
proof -
  let ?P = "\<lambda>e. f_lt (zscore e) mn" and ?Q = "\<lambda>e. f_le (zscore e) mx"
  have srt: "sorted_wrt zless (entries z)" and nan: "\<forall>e\<in>set (entries z). \<not> f_is_nan (zscore e)"
    using assms(1) by (simp_all add: zset_wf_def entries_ok_def)
  have s: "sorted_wrt (\<lambda>x y. ?P y \<longrightarrow> ?P x) (entries z)"
    by (rule sorted_wrt_mono_rel [OF _ srt]) (blast intro: zless_f_lt)
  have "?Q e \<Longrightarrow> ?P e" for e using assms(2) by (simp add: f_lt_def f_le_def)
  from takeWhile_longer [OF s this] have "score_end z mx < score_start z mn \<longleftrightarrow> (\<exists>e\<in>set (entries z). ?P e \<and> \<not> ?Q e)"
    by (simp add: score_start_end [OF srt])
  moreover have "\<not> ?Q e \<longleftrightarrow> f_lt mx (zscore e)" if "e \<in> set (entries z)" for e
    using nan assms(2) that by (auto simp: f_lt_def f_le_def)
  moreover have "score_end z mx \<le> length (entries z)" by (simp add: score_start_end [OF srt] length_takeWhile_le)
  ultimately show ?thesis by (auto simp: zset_range_by_score_def slice_def not_le)
qed

lemma numbers_5_7_10:
  "f_lt 0x4014000000000000 0x4024000000000000" "f_lt 0x4014000000000000 0x401C000000000000"
  "f_lt 0x401C000000000000 0x4024000000000000" "\<not> f_is_nan 0x401C000000000000"
  by (simp_all add: f_lt_def f_is_nan_def f_units_def f_neg_def f_magnitude_def f_exponent_def f_fraction_def
    f_bits_def f_inf_bits_def)

theorem range_by_score_panics_witness:
  "zset_range_by_score (fst (zset_insert zset_new 0x401C000000000000 ''a'')) 0x4024000000000000 0x4014000000000000 = None"
proof -
  let ?z = "fst (zset_insert zset_new 0x401C000000000000 ''a'')"
  have new: "scores (entries zset_new) ''a'' = None" "''a'' \<notin> zmember ` set (entries zset_new)"
    by (simp_all add: zset_new_def scores_def)
  have z: "?z = zset_push zset_new 0x401C000000000000 ''a''"
    using zset_insert_new [OF zset_new_wf numbers_5_7_10(4) new(1)] by simp
  note push = zset_push_ok [OF zset_new_wf numbers_5_7_10(4) new(2)]
  have "mk_entry 0x401C000000000000 ''a'' \<in> set (entries ?z)" by (simp add: z push(2))
  moreover have "zset_wf ?z" using push(1) by (simp add: z)
  ultimately show ?thesis
    using range_by_score_panics [of ?z, OF _ numbers_5_7_10(1)] numbers_5_7_10(2,3) by force
qed

section \<open>Ends, ranks and lexicographic ranges\<close>

lemma entries_ok_filter: "entries_ok es \<Longrightarrow> entries_ok (filter P es)"
  by (auto simp: entries_ok_def sorted_wrt_filter distinct_map_filter)

lemma entries_ok_drain:
  assumes ok: "entries_ok es" and le: "i \<le> j"
  shows "entries_ok (drain es i j)" "zmember ` set (drain es i j) \<subseteq> zmember ` set es"
proof -
  have es: "es = take i es @ take (j - i) (drop i es) @ drop j es"
    using le by (metis append.assoc append_take_drop_id le_add_diff_inverse take_add)
  have "entries_ok (take i es @ take (j - i) (drop i es) @ drop j es)" using ok es by simp
  then show "entries_ok (drain es i j)" by (auto simp: drain_def entries_ok_def sorted_wrt_append)
  show "zmember ` set (drain es i j) \<subseteq> zmember ` set es"
    using set_take_subset [of i es] set_drop_subset [of j es] by (auto simp: drain_def)
qed

text \<open>Removing a member, popping an end, removing a range of ranks, of scores or of members and
  shrinking all keep a sorted set well formed.
\<close>

theorem zset_removals_keep_wf:
  assumes wf: "zset_wf z"
  shows "zset_wf (fst (zset_remove z m)) \<and> zset_wf (fst (zset_pop_min z)) \<and> zset_wf (fst (zset_pop_max z))
    \<and> zset_wf (fst (zset_remove_range_by_rank z i j)) \<and> zset_wf (fst (zset_remove_range_by_score z mn mx))
    \<and> zset_wf (fst (zset_remove_lex_range z a b ae be)) \<and> zset_wf (zset_shrink_to_fit z)"
proof -
  have ok: "entries_ok (entries z)" using wf by (simp add: zset_wf_def)
  have drained: "zset_wf (z\<lparr>entries := drain (entries z) k l\<rparr>)" if "k \<le> l" for k l
    by (rule zset_wf_entries [OF wf entries_ok_drain [OF ok that]])
  have removed: "zset_wf (z\<lparr>entries := remove_at k (entries z)\<rparr>)" for k
    by (rule zset_wf_entries [OF wf entries_ok_remove_at [OF ok] image_mono [OF set_remove_at_subset]])
  have mn: "zset_wf (fst (zset_pop_min z))" using removed [of 0] wf by (simp add: zset_pop_min_def)
  have mx: "zset_wf (fst (zset_pop_max z))"
    using removed [of "length (entries z) - 1"] wf by (simp add: zset_pop_max_def butlast_remove_at)
  have rank: "zset_wf (fst (zset_remove_range_by_rank z i j))"
    using drained [OF less_imp_le, of i "min j (length (entries z))"] wf
    by (simp add: zset_remove_range_by_rank_def Let_def min_le_iff_disj)
  have score: "zset_wf (fst (zset_remove_range_by_score z mn mx))"
    using drained [OF less_imp_le, of "score_start z mn" "score_end z mx"] wf
    by (simp add: zset_remove_range_by_score_def Let_def)
  have "zset_wf (z\<lparr>entries := filter P (entries z)\<rparr>)" for P
    by (rule zset_wf_entries [OF wf entries_ok_filter [OF ok, of P]]) auto
  then have lex: "zset_wf (fst (zset_remove_lex_range z a b ae be))"
    by (simp only: zset_remove_lex_range_def Let_def fst_conv)
  have "zset_wf (zset_shrink_to_fit z)"
    using bloom_rebuild_ok [of z] ok by (simp add: zset_wf_def zset_shrink_to_fit_def bloom_grow_ok(3))
  with mn mx rank score lex zset_remove_ok(1) [OF wf] show ?thesis by simp
qed

theorem zset_removals_keep_wf_witness: "zset_wf (fst (zset_pop_min zset_new))"
  using zset_removals_keep_wf [OF zset_new_wf] by blast

end
