(* ===== verification/Stream_Data.thy ===== *)
theory Stream_Data
  imports Rust_Std
begin

text \<open>
  The data of streams (\<open>src/src/storage/stream.rs\<close>): identifiers of two 64-bit numbers in
  lexicographic order, entries and pending lists as ordered maps, and consumer groups.  The
  commands on streams are in \<open>Store_Stream\<close>.
\<close>

section \<open>Identifiers\<close>

datatype stream_id = Stream_Id (ms: u64) (seq: u64)

text \<open>The derived order of the struct: first the milliseconds, then the sequence number.\<close>

instantiation stream_id :: linorder
begin

definition less_eq_stream_id :: "stream_id \<Rightarrow> stream_id \<Rightarrow> bool" where
  "a \<le> b \<longleftrightarrow> ms a < ms b \<or> ms a = ms b \<and> seq a \<le> seq b"

definition less_stream_id :: "stream_id \<Rightarrow> stream_id \<Rightarrow> bool" where
  "a < b \<longleftrightarrow> ms a < ms b \<or> ms a = ms b \<and> seq a < seq b"

instance
  by intro_classes (auto simp: less_eq_stream_id_def less_stream_id_def intro: stream_id.expand)

end

definition id_to_string :: "stream_id \<Rightarrow> string" where
  "id_to_string i = u64_to_string (ms i) @ ''-'' @ u64_to_string (seq i)"

definition id_parse :: "string \<Rightarrow> stream_id option" where
  "id_parse s = (let head = takeWhile (\<lambda>c. c \<noteq> CHR ''-'') s in
     case drop (length head) s of
       [] \<Rightarrow> map_option (\<lambda>m. Stream_Id m 0) (parse_u64 head)
     | _ # rest \<Rightarrow> Option.bind (parse_u64 head) (\<lambda>m. map_option (Stream_Id m) (parse_u64 rest)))"

definition id_min :: stream_id where "id_min = Stream_Id 0 0"
definition id_max :: stream_id where "id_max = Stream_Id (- 1) (- 1)"

section \<open>Streams\<close>

record pel_entry =
  pel_consumer :: string
  delivery_time :: u64
  delivery_count :: "32 word"

record consumer_group =
  last_delivered :: stream_id
  pel :: "(stream_id \<times> pel_entry) list"
  consumers :: "(string \<times> stream_id list) list"

record stream_data =
  stream_entries :: "(stream_id \<times> (string \<times> string) list) list"
  last_id :: stream_id
  groups :: "(string \<times> consumer_group) list"

definition stream_new :: stream_data where
  "stream_new = \<lparr>stream_entries = [], last_id = Stream_Id 0 0, groups = []\<rparr>"

definition stream_len :: "stream_data \<Rightarrow> nat" where
  "stream_len s = length (stream_entries s)"

definition actual_id :: "u64 \<Rightarrow> stream_data \<Rightarrow> stream_id \<Rightarrow> stream_id" where
  "actual_id now s i =
     (if ms i = 0 \<and> seq i = 0 then
        Stream_Id now (if now = ms (last_id s) then seq (last_id s) + 1 else 0)
      else if seq i = 0 \<and> ms i > 0 then
        (if ms i = ms (last_id s) then Stream_Id (ms i) (seq (last_id s) + 1) else i)
      else i)"

definition stream_add :: "u64 \<Rightarrow> stream_data \<Rightarrow> stream_id \<Rightarrow> (string \<times> string) list \<Rightarrow> stream_data \<times> stream_id" where
  "stream_add now s i fs = (let a = actual_id now s i in
     (s\<lparr>stream_entries := bt_insert a fs (stream_entries s), last_id := a\<rparr>, a))"

fun pop_while_longer :: "nat \<Rightarrow> 'a list \<Rightarrow> 'a list" where
  "pop_while_longer n xs = (if length xs > n then pop_while_longer n (tl xs) else xs)"

definition trim_maxlen :: "stream_data \<Rightarrow> nat \<Rightarrow> stream_data" where
  "trim_maxlen s maxlen = s\<lparr>stream_entries := pop_while_longer maxlen (stream_entries s)\<rparr>"

section \<open>What they do\<close>

declare pop_while_longer.simps [simp del]

lemma pop_while_longer_drop: "pop_while_longer n xs = drop (length xs - n) xs"
proof (induction n xs rule: pop_while_longer.induct)
  case (1 n xs)
  show ?case
  proof (cases "length xs > n")
    case True
    then have "length xs - n = Suc (length (tl xs) - n)" by simp
    then show ?thesis using 1 True by (simp add: pop_while_longer.simps [of n xs] drop_Suc)
  qed (simp add: pop_while_longer.simps [of n xs])
qed

lemma word_less_inc: "(w :: u64) \<noteq> - 1 \<Longrightarrow> w < w + 1"
proof -
  assume "w \<noteq> - 1"
  then have "1 + w \<noteq> 0" by (metis add.commute add_eq_0_iff2)
  then have "unat (1 + w) = Suc (unat w)" by (rule unatSuc)
  then show ?thesis by (simp add: word_less_nat_alt add.commute)
qed

definition stream_wf :: "stream_data \<Rightarrow> bool" where
  "stream_wf s \<longleftrightarrow> bt_wf (stream_entries s) \<and> (\<forall>g\<in>set (groups s). bt_wf (pel (snd g)))"

lemma stream_new_wf [simp]: "stream_wf stream_new"
  by (simp add: stream_wf_def stream_new_def bt_wf_def)

lemma dash_not_in_number: "takeWhile (\<lambda>c. c \<noteq> CHR ''-'') (u64_to_string w @ CHR ''-'' # rest) = u64_to_string w"
proof -
  have "c \<noteq> CHR ''-''" if "c \<in> set (u64_to_string w)" for c
    using that nat_to_string_digits not_digit_sign(1) unfolding u64_to_string_def by blast
  then show ?thesis by (simp add: takeWhile_append2)
qed

text \<open>C40: Printing an identifier and parsing it back gives the same identifier.
\<close>

theorem stream_id_round_trip: "id_parse (id_to_string i) = Some i"
  by (cases i) (simp add: id_parse_def id_to_string_def dash_not_in_number Let_def)

text \<open>An identifier chosen by the server is above every earlier one of the stream, provided the
  clock is not behind the last identifier and the sequence number does not wrap; the new entry is
  then the last one, and the entries stay in order.
\<close>

theorem stream_add_monotone:
  assumes "stream_wf s" "\<forall>e\<in>set (stream_entries s). fst e \<le> last_id s"
    and "ms (last_id s) \<le> now" "seq (last_id s) \<noteq> - 1"
  shows "last_id s < snd (stream_add now s (Stream_Id 0 0) fs)
    \<and> stream_entries (fst (stream_add now s (Stream_Id 0 0) fs))
        = stream_entries s @ [(snd (stream_add now s (Stream_Id 0 0) fs), fs)]
    \<and> stream_wf (fst (stream_add now s (Stream_Id 0 0) fs))
    \<and> last_id (fst (stream_add now s (Stream_Id 0 0) fs)) = snd (stream_add now s (Stream_Id 0 0) fs)"
proof -
  let ?a = "actual_id now s (Stream_Id 0 0)"
  have less: "last_id s < ?a"
    using assms(3,4) word_less_inc [of "seq (last_id s)"]
    by (auto simp: actual_id_def less_stream_id_def order_le_less)
  then have "\<forall>e\<in>set (stream_entries s). fst e < ?a" using assms(2) by (meson le_less_trans)
  then have app: "bt_insert ?a fs (stream_entries s) = stream_entries s @ [(?a, fs)]"
    by (rule bt_insert_last)
  have "bt_wf (bt_insert ?a fs (stream_entries s))" using assms(1) by (simp add: stream_wf_def bt_insert_wf)
  then show ?thesis using less app assms(1) by (simp add: stream_add_def Let_def stream_wf_def)
qed

theorem stream_add_monotone_witness:
  "last_id stream_new < snd (stream_add 5 stream_new (Stream_Id 0 0) [])"
  using stream_add_monotone [of stream_new 5 "[]"] by (simp add: stream_new_def stream_wf_def bt_wf_def)

text \<open>An explicit identifier is not compared with the last one: adding one that is already there
  replaces the entry stored under it and, when it is below the last identifier, moves the last
  identifier backwards.
\<close>

theorem stream_add_explicit_overwrites:
  assumes "stream_wf s" "seq i \<noteq> 0"
  shows "map_of (stream_entries (fst (stream_add now s i fs))) = (map_of (stream_entries s))(i \<mapsto> fs)
    \<and> last_id (fst (stream_add now s i fs)) = i"
  using assms by (simp add: stream_add_def actual_id_def Let_def bt_insert_map stream_wf_def)

theorem stream_add_explicit_overwrites_witness:
  "last_id (fst (stream_add 9 (fst (stream_add 9 stream_new (Stream_Id 7 3) [])) (Stream_Id 5 1) [])) = Stream_Id 5 1"
proof -
  have "stream_wf (fst (stream_add 9 stream_new (Stream_Id 7 3) []))"
    by (simp add: stream_add_def stream_new_def stream_wf_def bt_wf_def Let_def)
  from stream_add_explicit_overwrites [OF this, of "Stream_Id 5 1" 9 "[]"] show ?thesis by simp
qed

lemma trim_maxlen_ok:
  "stream_entries (trim_maxlen s n) = drop (length (stream_entries s) - n) (stream_entries s)"
  "stream_wf s \<Longrightarrow> stream_wf (trim_maxlen s n)" "stream_len (trim_maxlen s n) = min n (stream_len s)"
  by (auto simp: trim_maxlen_def pop_while_longer_drop stream_wf_def bt_wf_def stream_len_def sorted_wrt_drop simp flip: drop_map)

end
