(* ===== verification/Values.thy ===== *)
theory Values
  imports Collections ZSet_Data Stream_Data
begin

text \<open>
  Stored values and the clock (\<open>src/src/storage/value/mod.rs\<close>).  The clock has the time of the
  system, the cached copy of it that \<open>tick_clock\<close> refreshes (zero before the first tick), and the
  monotonic clock of \<open>Instant\<close>; an operation reads it at one moment.
\<close>

section \<open>The clock\<close>

record clock =
  unix_ms_cache :: u64
  system_ms :: u64
  instant_ns :: nat

definition now_ms :: "clock \<Rightarrow> u64" where
  "now_ms c = system_ms c"

definition tick_clock :: "clock \<Rightarrow> clock" where
  "tick_clock c = c\<lparr>unix_ms_cache := now_ms c\<rparr>"

definition approx_now_ms :: "clock \<Rightarrow> u64" where
  "approx_now_ms c = (let cached = unix_ms_cache c in if cached = 0 then now_ms c else cached)"

definition expiry_from_secs :: "clock \<Rightarrow> u64 \<Rightarrow> u64 option" where
  "expiry_from_secs c secs = Option.bind (checked_mul_u64 secs 1000) (checked_add_u64 (approx_now_ms c))"

definition expiry_from_ms :: "clock \<Rightarrow> u64 \<Rightarrow> u64 option" where
  "expiry_from_ms c t = checked_add_u64 (approx_now_ms c) t"

definition expiry_from_unix_secs :: "u64 \<Rightarrow> u64 option" where
  "expiry_from_unix_secs t = checked_mul_u64 t 1000"

section \<open>Values\<close>

datatype fyrodb =
    FString string
  | FHash hash_inner
  | FList list_inner
  | FSet set_inner
  | FZSet zset
  | FJson string
  | FStream stream_data

text \<open>Shrinking a vector changes no content; shrinking a sorted set also rebuilds its filter.\<close>

definition compact_allocations :: "fyrodb \<Rightarrow> fyrodb" where
  "compact_allocations v = (case v of FZSet z \<Rightarrow> FZSet (zset_shrink_to_fit z) | _ \<Rightarrow> v)"

fun type_name :: "fyrodb \<Rightarrow> string" where
  "type_name (FString _) = ''string''"
| "type_name (FHash _) = ''hash''"
| "type_name (FList _) = ''list''"
| "type_name (FSet _) = ''set''"
| "type_name (FZSet _) = ''zset''"
| "type_name (FJson _) = ''ReJSON-RL''"
| "type_name (FStream _) = ''stream''"

definition as_string :: "fyrodb \<Rightarrow> string option" where
  "as_string v = (case v of FString s \<Rightarrow> Some s | _ \<Rightarrow> None)"

definition as_hash :: "fyrodb \<Rightarrow> hash_inner option" where
  "as_hash v = (case v of FHash h \<Rightarrow> Some h | _ \<Rightarrow> None)"

definition as_list :: "fyrodb \<Rightarrow> list_inner option" where
  "as_list v = (case v of FList l \<Rightarrow> Some l | _ \<Rightarrow> None)"

definition as_set :: "fyrodb \<Rightarrow> set_inner option" where
  "as_set v = (case v of FSet s \<Rightarrow> Some s | _ \<Rightarrow> None)"

definition as_zset :: "fyrodb \<Rightarrow> zset option" where
  "as_zset v = (case v of FZSet z \<Rightarrow> Some z | _ \<Rightarrow> None)"

definition as_json_str :: "fyrodb \<Rightarrow> string option" where
  "as_json_str v = (case v of FJson s \<Rightarrow> Some s | _ \<Rightarrow> None)"

definition as_stream :: "fyrodb \<Rightarrow> stream_data option" where
  "as_stream v = (case v of FStream s \<Rightarrow> Some s | _ \<Rightarrow> None)"

definition mem_size :: "((string \<times> string) list \<Rightarrow> (string \<times> string) list) \<Rightarrow> (string list \<Rightarrow> string list) \<Rightarrow> fyrodb \<Rightarrow> nat" where
  "mem_size hord sord v = (case v of
      FString s \<Rightarrow> length s
    | FHash h \<Rightarrow> sum_list (map (\<lambda>(k, x). length k + length x) (hash_iter hord h))
    | FList l \<Rightarrow> sum_list (map length (deque l)) + length (deque l) * 24
    | FSet s \<Rightarrow> sum_list (map (\<lambda>m. length m + 24) (set_iter sord s))
    | FZSet z \<Rightarrow> sum_list (map (\<lambda>e. length (zmember e) + 32) (zset_iter z))
    | FJson _ \<Rightarrow> 256
    | FStream s \<Rightarrow> stream_len s * 128)"

section \<open>Values with an expiry\<close>

record store_value =
  val :: fyrodb
  expires_ms :: u64

definition sv_plain :: "fyrodb \<Rightarrow> store_value" where
  "sv_plain v = \<lparr>val = v, expires_ms = 0\<rparr>"

definition sv_string :: "string \<Rightarrow> store_value" where
  "sv_string s = sv_plain (FString s)"

definition saturating_add_u64 :: "u64 \<Rightarrow> u64 \<Rightarrow> u64" where
  "saturating_add_u64 a b = (case checked_add_u64 a b of Some c \<Rightarrow> c | None \<Rightarrow> - 1)"

text \<open>The expiry is an \<open>Instant\<close>, a time of the monotonic clock.\<close>

definition sv_string_with_expiry :: "clock \<Rightarrow> string \<Rightarrow> nat option \<Rightarrow> store_value" where
  "sv_string_with_expiry c s expires_at = \<lparr>val = FString s, expires_ms =
     (case expires_at of None \<Rightarrow> 0
      | Some t \<Rightarrow> saturating_add_u64 (now_ms c) (of_nat ((t - instant_ns c) div 1000000)))\<rparr>"

definition sv_hash :: "(string \<times> string) list \<Rightarrow> store_value" where
  "sv_hash h = sv_plain (FHash (HFull h))"

definition sv_list :: "string list \<Rightarrow> store_value" where
  "sv_list l = sv_plain (FList (LFull l))"

definition sv_set :: "string list \<Rightarrow> store_value" where
  "sv_set s = sv_plain (FSet (set_from_strings s))"

definition sv_zset :: "zset \<Rightarrow> store_value" where
  "sv_zset z = sv_plain (FZSet z)"

definition sv_json_raw :: "string \<Rightarrow> store_value" where
  "sv_json_raw s = sv_plain (FJson s)"

definition sv_stream :: "stream_data \<Rightarrow> store_value" where
  "sv_stream s = sv_plain (FStream s)"

definition sv_compact_allocations :: "store_value \<Rightarrow> store_value" where
  "sv_compact_allocations sv = sv\<lparr>val := compact_allocations (val sv)\<rparr>"

definition is_expired :: "clock \<Rightarrow> store_value \<Rightarrow> bool" where
  "is_expired c sv \<longleftrightarrow> expires_ms sv \<noteq> 0 \<and> approx_now_ms c \<ge> expires_ms sv"

definition is_expired_precise :: "clock \<Rightarrow> store_value \<Rightarrow> bool" where
  "is_expired_precise c sv \<longleftrightarrow> expires_ms sv \<noteq> 0 \<and> now_ms c \<ge> expires_ms sv"

definition ttl_ms :: "clock \<Rightarrow> store_value \<Rightarrow> u64 option" where
  "ttl_ms c sv = (if expires_ms sv = 0 then None
     else let now = now_ms c in if now \<ge> expires_ms sv then None else Some (expires_ms sv - now))"

section \<open>Well-formed values\<close>

fun value_wf :: "fyrodb \<Rightarrow> bool" where
  "value_wf (FHash h) = hash_wf h"
| "value_wf (FSet s) = set_wf s"
| "value_wf (FZSet z) = zset_wf z"
| "value_wf (FStream s) = stream_wf s"
| "value_wf _ = True"

text \<open>
  A kind of value: how to recognise it and how to make one.  The commands on one kind of value
  are verified once over such a pair, and the seven constructors give the instances.
\<close>

locale value_kind =
  fixes get :: "fyrodb \<Rightarrow> 'a option" and put :: "'a \<Rightarrow> fyrodb"
  assumes get_put [simp]: "get (put x) = Some x"
    and put_get: "get v = Some x \<Longrightarrow> put x = v"
begin

lemma put_inject: "put x = put y \<longleftrightarrow> x = y"
  by (metis get_put option.inject)

lemma get_Some: "get v = Some x \<longleftrightarrow> v = put x"
  by (metis get_put put_get)

end

interpretation strings: value_kind as_string FString
  by unfold_locales (auto simp: as_string_def split: fyrodb.splits)

interpretation hashes: value_kind as_hash FHash
  by unfold_locales (auto simp: as_hash_def split: fyrodb.splits)

interpretation lists: value_kind as_list FList
  by unfold_locales (auto simp: as_list_def split: fyrodb.splits)

interpretation sets: value_kind as_set FSet
  by unfold_locales (auto simp: as_set_def split: fyrodb.splits)

interpretation zsets: value_kind as_zset FZSet
  by unfold_locales (auto simp: as_zset_def split: fyrodb.splits)

interpretation jsons: value_kind as_json_str FJson
  by unfold_locales (auto simp: as_json_str_def split: fyrodb.splits)

interpretation streams: value_kind as_stream FStream
  by unfold_locales (auto simp: as_stream_def split: fyrodb.splits)

section \<open>The clock and expiry\<close>

lemma ticked_clock: "now_ms c \<noteq> 0 \<Longrightarrow> approx_now_ms (tick_clock c) = now_ms c"
  by (simp add: approx_now_ms_def tick_clock_def Let_def now_ms_def)

text \<open>A relative time to live is turned into an absolute one exactly, or refused: the sum of the
  clock and the given seconds never wraps around.
\<close>

theorem expiry_never_wraps:
  "expiry_from_secs c secs =
     (if unat (approx_now_ms c) + unat secs * 1000 < 2 ^ 64
      then Some (of_nat (unat (approx_now_ms c) + unat secs * 1000)) else None)
   \<and> expiry_from_ms c t =
     (if unat (approx_now_ms c) + unat t < 2 ^ 64
      then Some (of_nat (unat (approx_now_ms c) + unat t)) else None)"
  using unat_mult_lem [of secs "1000 :: u64"]
  by (auto simp: expiry_from_secs_def expiry_from_ms_def checked_mul_u64_def checked_add_u64_def Let_def)

text \<open>While the cached clock is not ahead of the system clock, a value that the cached clock calls
  expired is expired, and a value has a remaining time exactly when it expires and is not expired
  by the system clock.
\<close>

theorem expiry_consistent:
  assumes "approx_now_ms c \<le> now_ms c"
  shows "(is_expired c sv \<longrightarrow> is_expired_precise c sv)
    \<and> (ttl_ms c sv \<noteq> None \<longleftrightarrow> expires_ms sv \<noteq> 0 \<and> \<not> is_expired_precise c sv)"
  using assms by (auto simp: is_expired_def is_expired_precise_def ttl_ms_def Let_def)

theorem expiry_consistent_witness:
  "is_expired_precise \<lparr>unix_ms_cache = 5, system_ms = 7, instant_ns = 0\<rparr> \<lparr>val = FString [], expires_ms = 4\<rparr>"
proof -
  let ?c = "\<lparr>unix_ms_cache = 5, system_ms = 7, instant_ns = 0\<rparr>"
  have "approx_now_ms ?c \<le> now_ms ?c" by (simp add: approx_now_ms_def now_ms_def)
  from expiry_consistent [OF this, of "\<lparr>val = FString [], expires_ms = 4\<rparr>"] show ?thesis
    by (simp add: is_expired_def approx_now_ms_def now_ms_def)
qed

end
