(* ===== verification/Glob.thy ===== *)
theory Glob
  imports Prelude
begin

text \<open>
  Glob patterns (\<open>glob_match_bytes\<close> of \<open>src/src/utils/util.rs\<close>), which select the
  keys of \<open>KEYS\<close>, \<open>SCAN\<close> and the pattern subscriptions.  The loop keeps the place of
  the last star and retries from there; it is written here over the same indices, with fuel.
  The reference meaning of a pattern is \<open>glob_spec\<close>.
\<close>

section \<open>The matcher\<close>

fun skip_stars :: "string \<Rightarrow> nat \<Rightarrow> nat \<Rightarrow> nat" where
  "skip_stars p 0 i = i"
| "skip_stars p (Suc fuel) i =
     (if i < length p \<and> p ! i = CHR ''*'' then skip_stars p fuel (i + 1) else i)"

fun glob_loop ::
  "nat \<Rightarrow> string \<Rightarrow> string \<Rightarrow> nat \<Rightarrow> nat \<Rightarrow> nat option \<Rightarrow> nat \<Rightarrow> bool option" where
  "glob_loop 0 p s i j star retry = None"
| "glob_loop (Suc fuel) p s i j star retry =
     (if j < length s then
        if i < length p \<and> (p ! i = CHR ''?'' \<or> p ! i = s ! j) then
          glob_loop fuel p s (i + 1) (j + 1) star retry
        else if i < length p \<and> p ! i = CHR ''*'' then
          glob_loop fuel p s (i + 1) j (Some i) j
        else (case star of
            Some k \<Rightarrow> glob_loop fuel p s (k + 1) (retry + 1) star (retry + 1)
          | None \<Rightarrow> Some False)
      else Some (skip_stars p (length p) i = length p))"

definition glob_fuel :: "string \<Rightarrow> string \<Rightarrow> nat" where
  "glob_fuel p s = Suc ((length s + 2) * (length s + length p + 1))"

definition glob_match :: "string \<Rightarrow> string \<Rightarrow> bool option" where
  "glob_match p s = glob_loop (glob_fuel p s) p s 0 0 None 0"

section \<open>The meaning of a pattern\<close>

fun glob_spec :: "string \<Rightarrow> string \<Rightarrow> bool" where
  "glob_spec [] s = (s = [])"
| "glob_spec (x # p) [] = (x = CHR ''*'' \<and> glob_spec p [])"
| "glob_spec (x # p) (c # s) =
     (if x = CHR ''*'' then glob_spec p (c # s) \<or> glob_spec (x # p) s
      else (x = CHR ''?'' \<or> x = c) \<and> glob_spec p s)"

lemma glob_spec_star:
  "glob_spec (CHR ''*'' # p) s \<longleftrightarrow> (\<exists>j \<le> length s. glob_spec p (drop j s))"
proof (induction s)
  case Nil
  then show ?case by simp
next
  case (Cons c s)
  have "(\<exists>j \<le> length (c # s). glob_spec p (drop j (c # s))) \<longleftrightarrow>
      glob_spec p (c # s) \<or> (\<exists>j \<le> length s. glob_spec p (drop j s))"
    (is "?L \<longleftrightarrow> ?R")
  proof
    assume ?L
    then obtain j where "j \<le> length (c # s)" "glob_spec p (drop j (c # s))" by blast
    then show ?R by (cases j) auto
  next
    assume ?R
    then show ?L by (metis drop0 drop_Suc_Cons le0 length_Cons Suc_le_mono)
  qed
  with Cons show ?case by simp
qed

lemma glob_spec_segment:
  assumes "CHR ''*'' \<notin> set seg" "glob_spec (seg @ q) t"
  shows "length seg \<le> length t \<and> glob_spec q (drop (length seg) t)"
  using assms
proof (induction seg arbitrary: t)
  case Nil
  then show ?case by simp
next
  case (Cons x seg)
  then show ?case by (cases t) (auto split: if_splits)
qed

section \<open>The loop computes the meaning\<close>

text \<open>
  \<open>glob_alts\<close> is what is still to be tried: the current position, and the later starts of
  the segment behind the last star.  Between that star and the current position the pattern has
  no star and as many characters as have been matched since the retry point.
\<close>

definition glob_alts :: "string \<Rightarrow> string \<Rightarrow> nat \<Rightarrow> nat \<Rightarrow> nat option \<Rightarrow> nat \<Rightarrow> bool" where
  "glob_alts p s i j star retry \<longleftrightarrow>
     glob_spec (drop i p) (drop j s) \<or>
     (case star of
        None \<Rightarrow> False
      | Some k \<Rightarrow> \<exists>l > retry. l \<le> length s \<and> glob_spec (drop (Suc k) p) (drop l s))"

definition glob_inv :: "string \<Rightarrow> string \<Rightarrow> nat \<Rightarrow> nat \<Rightarrow> nat option \<Rightarrow> nat \<Rightarrow> bool" where
  "glob_inv p s i j star retry \<longleftrightarrow>
     i \<le> length p \<and> j \<le> length s \<and> retry \<le> j \<and>
     (case star of
        None \<Rightarrow> True
      | Some k \<Rightarrow> k < i \<and> i - Suc k = j - retry \<and>
          CHR ''*'' \<notin> set (take (i - Suc k) (drop (Suc k) p)))"

definition glob_measure :: "string \<Rightarrow> string \<Rightarrow> nat \<Rightarrow> nat \<Rightarrow> nat \<Rightarrow> nat" where
  "glob_measure p s i j retry =
     (length s - retry) * (length s + length p + 1) + (length s - j) + (length p - i)"

lemma glob_later_start:
  assumes inv: "glob_inv p s i j (Some k) retry"
    and l: "retry < l" "l \<le> length s" "glob_spec (drop (Suc k) p) (drop l s)"
  shows "\<exists>m > j. m \<le> length s \<and> glob_spec (drop i p) (drop m s)"
proof -
  let ?seg = "take (i - Suc k) (drop (Suc k) p)"
  have k: "k < i" "i \<le> length p" and e: "i - Suc k = j - retry" and r: "retry \<le> j"
    and ns: "CHR ''*'' \<notin> set ?seg"
    using inv by (auto simp: glob_inv_def)
  have len: "length ?seg = j - retry" using k e by simp
  have "drop (Suc k) p = ?seg @ drop (i - Suc k) (drop (Suc k) p)"
    by (simp only: append_take_drop_id)
  also have "drop (i - Suc k) (drop (Suc k) p) = drop i p" using k by simp
  finally have "glob_spec (?seg @ drop i p) (drop l s)" using l(3) by simp
  from glob_spec_segment [OF ns this] len
  have "j - retry \<le> length s - l" "glob_spec (drop i p) (drop (j - retry + l) s)" by simp_all
  with l(1,2) r show ?thesis by (intro exI [of _ "j - retry + l"]) auto
qed

lemma glob_alts_step_match:
  assumes "glob_inv p s i j star retry" "i < length p" "j < length s" "CHR ''*'' \<notin> set s"
    and m: "p ! i = CHR ''?'' \<or> p ! i = s ! j"
  shows "glob_inv p s (i + 1) (j + 1) star retry"
    and "glob_alts p s (i + 1) (j + 1) star retry = glob_alts p s i j star retry"
proof -
  have "s ! j \<noteq> CHR ''*''" using assms(3,4) nth_mem [of j s] by metis
  with m have ns: "p ! i \<noteq> CHR ''*''" by auto
  have seg: "take (Suc i - Suc k) (drop (Suc k) p) = take (i - Suc k) (drop (Suc k) p) @ [p ! i]"
    if "k < i" for k
    using that assms(2) by (simp add: Suc_diff_Suc [symmetric] take_Suc_conv_app_nth del: Suc_diff_Suc)
  show "glob_inv p s (i + 1) (j + 1) star retry"
    using assms(1-3) ns seg by (auto simp: glob_inv_def split: option.splits)
  have "drop i p = p ! i # drop (Suc i) p" "drop j s = s ! j # drop (Suc j) s"
    using assms(2,3) by (simp_all add: Cons_nth_drop_Suc)
  then show "glob_alts p s (i + 1) (j + 1) star retry = glob_alts p s i j star retry"
    using m ns by (simp add: glob_alts_def)
qed

lemma glob_alts_step_star:
  assumes inv: "glob_inv p s i j star retry" and i: "i < length p" "p ! i = CHR ''*''"
  shows "glob_inv p s (i + 1) j (Some i) j"
    and "glob_alts p s (i + 1) j (Some i) j = glob_alts p s i j star retry"
proof -
  show "glob_inv p s (i + 1) j (Some i) j" using inv i by (auto simp: glob_inv_def)
  have j: "j \<le> length s" using inv by (simp add: glob_inv_def)
  have "drop i p = CHR ''*'' # drop (Suc i) p" using i by (metis Cons_nth_drop_Suc)
  then have cur: "glob_spec (drop i p) (drop j s) \<longleftrightarrow>
      (\<exists>l \<ge> j. l \<le> length s \<and> glob_spec (drop (Suc i) p) (drop l s))"
    using j by (simp add: glob_spec_star) (metis add.commute add_le_cancel_left le_add2
        le_add_diff_inverse le_diff_conv2)
  have old: "glob_spec (drop i p) (drop j s)"
    if star: "star = Some k" and l: "retry < l" "l \<le> length s" "glob_spec (drop (Suc k) p) (drop l s)" for k l
  proof -
    obtain m where "m > j" "m \<le> length s" "glob_spec (drop i p) (drop m s)"
      using glob_later_start [of p s i j k retry l] inv star l by blast
    then obtain l' where "l' \<ge> m" "l' \<le> length s" "glob_spec (drop (Suc i) p) (drop l' s)"
      using \<open>drop i p = _\<close> by (auto simp: glob_spec_star) (metis add.commute le_add2 le_diff_conv2)
    with \<open>m > j\<close> show ?thesis using cur by (metis less_imp_le_nat order_trans)
  qed
  have "glob_alts p s (i + 1) j (Some i) j \<longleftrightarrow>
      (\<exists>l \<ge> j. l \<le> length s \<and> glob_spec (drop (Suc i) p) (drop l s))"
    using j by (auto simp: glob_alts_def nat_less_le)
  then show "glob_alts p s (i + 1) j (Some i) j = glob_alts p s i j star retry"
    using cur old by (auto simp: glob_alts_def [of p s i] split: option.splits)
qed

lemma ex_greater_Suc:
  "Suc r \<le> n \<Longrightarrow> (\<exists>l > r. l \<le> n \<and> Q l) \<longleftrightarrow> Q (Suc r) \<or> (\<exists>l > Suc r. l \<le> n \<and> Q l)"
  by (metis Suc_lessD Suc_lessI lessI)

lemma glob_alts_step_retry:
  assumes inv: "glob_inv p s i j (Some k) retry" and j: "j < length s"
    and mis: "\<not> (i < length p \<and> (p ! i = CHR ''?'' \<or> p ! i = s ! j))"
      "\<not> (i < length p \<and> p ! i = CHR ''*'')"
  shows "glob_inv p s (k + 1) (retry + 1) (Some k) (retry + 1)"
    and "glob_alts p s (k + 1) (retry + 1) (Some k) (retry + 1) = glob_alts p s i j (Some k) retry"
proof -
  have r: "retry \<le> j" "k < i" "i \<le> length p" using inv by (auto simp: glob_inv_def)
  then show "glob_inv p s (k + 1) (retry + 1) (Some k) (retry + 1)"
    using j by (auto simp: glob_inv_def)
  have "\<not> glob_spec (drop i p) (drop j s)"
    using mis j by (cases "i < length p") (auto simp: Cons_nth_drop_Suc [symmetric])
  then have "glob_alts p s i j (Some k) retry \<longleftrightarrow>
      (\<exists>l > retry. l \<le> length s \<and> glob_spec (drop (Suc k) p) (drop l s))"
    by (simp add: glob_alts_def)
  also have "\<dots> \<longleftrightarrow> glob_spec (drop (Suc k) p) (drop (Suc retry) s) \<or>
      (\<exists>l > Suc retry. l \<le> length s \<and> glob_spec (drop (Suc k) p) (drop l s))"
    using r(1) j by (intro ex_greater_Suc) simp
  finally show "glob_alts p s (k + 1) (retry + 1) (Some k) (retry + 1) = glob_alts p s i j (Some k) retry"
    by (simp add: glob_alts_def)
qed

lemma glob_spec_no_match:
  assumes "j < length s" "\<not> (i < length p \<and> (p ! i = CHR ''?'' \<or> p ! i = s ! j))"
    "\<not> (i < length p \<and> p ! i = CHR ''*'')"
  shows "\<not> glob_spec (drop i p) (drop j s)"
  using assms by (cases "i < length p") (auto simp: Cons_nth_drop_Suc [symmetric])

lemma skip_stars_spec:
  "length p - i \<le> fuel \<Longrightarrow> i \<le> length p \<Longrightarrow> skip_stars p fuel i = length p \<longleftrightarrow> glob_spec (drop i p) []"
proof (induction fuel arbitrary: i)
  case 0
  then show ?case by simp
next
  case (Suc fuel)
  show ?case
  proof (cases "i < length p")
    case False
    with Suc.prems show ?thesis by simp
  next
    case True
    then have "drop i p = p ! i # drop (Suc i) p" by (simp add: Cons_nth_drop_Suc)
    moreover have "skip_stars p fuel (Suc i) = length p \<longleftrightarrow> glob_spec (drop (Suc i) p) []"
      using Suc.IH [of "Suc i"] Suc.prems True by simp
    ultimately show ?thesis using True by auto
  qed
qed

lemma glob_alts_end:
  assumes "glob_inv p s i (length s) star retry"
  shows "glob_alts p s i (length s) star retry \<longleftrightarrow> glob_spec (drop i p) []"
  using assms glob_later_start [of p s i "length s" _ retry]
  by (auto simp: glob_alts_def split: option.splits) (metis not_le)

lemma glob_loop_correct:
  assumes "CHR ''*'' \<notin> set s" "glob_inv p s i j star retry" "glob_measure p s i j retry < fuel"
  shows "glob_loop fuel p s i j star retry = Some (glob_alts p s i j star retry)"
  using assms(2,3)
proof (induction fuel arbitrary: i j star retry)
  case 0
  then show ?case by simp
next
  case (Suc fuel)
  note inv = Suc.prems(1)
  have b: "i \<le> length p" "j \<le> length s" "retry \<le> j" using inv by (auto simp: glob_inv_def)
  let ?hit = "i < length p \<and> (p ! i = CHR ''?'' \<or> p ! i = s ! j)"
  let ?star = "i < length p \<and> p ! i = CHR ''*''"
  consider (fin) "\<not> j < length s" | (hit) "j < length s" ?hit | (star) "j < length s" "\<not> ?hit" ?star
    | (miss) "j < length s" "\<not> ?hit" "\<not> ?star" by blast
  then show ?case
  proof cases
    case fin
    then have j: "j = length s" using b by simp
    have "glob_loop (Suc fuel) p s i j star retry = Some (skip_stars p (length p) i = length p)"
      using fin by simp
    with j inv b show ?thesis
      by (simp add: skip_stars_spec glob_alts_end)
  next
    case hit
    then have "i < length p" "p ! i = CHR ''?'' \<or> p ! i = s ! j" by simp_all
    note st = glob_alts_step_match [OF inv this(1) hit(1) assms(1) this(2)]
    have "length s - (j + 1) < length s - j" "length p - (i + 1) < length p - i"
      using hit by auto
    then have "glob_measure p s (i + 1) (j + 1) retry < fuel"
      using Suc.prems(2) unfolding glob_measure_def by linarith
    with Suc.IH [OF st(1)] st(2) hit show ?thesis by simp
  next
    case star
    then have "i < length p" "p ! i = CHR ''*''" by simp_all
    note st = glob_alts_step_star [OF inv this]
    have "(length s - j) * (length s + length p + 1) \<le> (length s - retry) * (length s + length p + 1)"
      using b by (intro mult_le_mono1) simp
    moreover have "length p - (i + 1) < length p - i" using star(3) by auto
    ultimately have "glob_measure p s (i + 1) j j < fuel"
      using Suc.prems(2) unfolding glob_measure_def by linarith
    from Suc.IH [OF st(1) this] st(2) star show ?thesis by auto
  next
    case miss
    show ?thesis
    proof (cases star)
      case None
      then have "\<not> glob_alts p s i j star retry"
        using glob_spec_no_match [OF miss] by (simp add: glob_alts_def)
      with None miss show ?thesis by auto
    next
      case (Some k)
      note st = glob_alts_step_retry [OF inv [unfolded Some] miss]
      have "Suc (length s - (retry + 1)) = length s - retry" using miss(1) b by simp
      then have "(length s - retry) * (length s + length p + 1) =
          (length s - (retry + 1)) * (length s + length p + 1) + (length s + length p + 1)"
        by (metis add.commute mult_Suc)
      then have "glob_measure p s (k + 1) (retry + 1) (retry + 1) < fuel"
        using Suc.prems(2) unfolding glob_measure_def by linarith
      from Suc.IH [OF st(1) this] st(2) miss Some show ?thesis by auto
    qed
  qed
qed

section \<open>Properties\<close>

text \<open>C16: for every pattern, and every input that holds no star, the matcher stops and its answer is
  the meaning of the pattern: a star stands for any run of bytes, a question mark for one byte,
  any other byte for itself.\<close>

theorem glob_match_correct:
  assumes "CHR ''*'' \<notin> set s"
  shows "glob_match p s = Some (glob_spec p s)"
proof -
  have "glob_measure p s 0 0 0 < glob_fuel p s"
    by (simp add: glob_measure_def glob_fuel_def)
  moreover have "glob_inv p s 0 0 None 0" by (simp add: glob_inv_def)
  ultimately have "glob_match p s = Some (glob_alts p s 0 0 None 0)"
    unfolding glob_match_def by (intro glob_loop_correct [OF assms])
  then show ?thesis by (simp add: glob_alts_def)
qed

theorem glob_match_correct_witness:
  "CHR ''*'' \<notin> set ''user:12'' \<and> glob_match ''us*:1?'' ''user:12'' = Some True"
proof -
  have n: "CHR ''*'' \<notin> set ''user:12''" by simp
  have "glob_spec ''us*:1?'' ''user:12''" by code_simp
  with glob_match_correct [OF n, of "''us*:1?''"] n show ?thesis by simp
qed

text \<open>On an input that holds a star the matcher can reject what the pattern means: the test for
  an equal byte comes before the test for a star, so a star of the pattern that meets a star of
  the input is consumed as an ordinary byte and no retry point is kept.\<close>

theorem glob_match_literal_star:
  "glob_match ''*a'' ''*ba'' = Some False \<and> glob_spec ''*a'' ''*ba''"
  by code_simp

end
