(* ===== verification/Store.thy ===== *)
theory Store
  imports Custom_Map Values Glob
begin

text \<open>
  The store (\<open>src/src/storage/store.rs\<close>): the concurrent map of values with their expiry, and the
  counters beside it.  The first section is the store itself.  The second has the three shapes
  that the commands of \<open>src/src/storage\<close> are written in: update an entry in place or return a
  default, update it in place or insert a new one, and read it; each shape first looks at the
  expiry and then at the kind of the value.  The laws of these shapes, proved over an arbitrary
  kind of value, are what the command theories use.
\<close>

section \<open>The store\<close>

record store =
  sdata :: "store_value custom_map"
  connected_clients :: u64
  ttl_count :: u64
  ttl_generation :: u64

definition store_with_config :: "(string \<Rightarrow> u64) \<Rightarrow> nat \<Rightarrow> nat \<Rightarrow> store" where
  "store_with_config hs shard_count limit = \<lparr>sdata = cm_with_capacity hs shard_count limit,
     connected_clients = 0, ttl_count = 0, ttl_generation = 0\<rparr>"

definition store_new :: "(string \<Rightarrow> u64) \<Rightarrow> store" where
  "store_new hs = store_with_config hs 1 1000"

definition client_connected :: "store \<Rightarrow> store" where
  "client_connected st = st\<lparr>connected_clients := connected_clients st + 1\<rparr>"

definition client_disconnected :: "store \<Rightarrow> store" where
  "client_disconnected st = st\<lparr>connected_clients := connected_clients st - 1\<rparr>"

definition store_compact_shard :: "store \<Rightarrow> nat \<Rightarrow> store" where
  "store_compact_shard st i = st\<lparr>sdata := cm_compact_shard (sdata st) i\<rparr>"

definition compact_underutilized :: "store \<Rightarrow> store" where
  "compact_underutilized st = fold (\<lambda>i st. store_compact_shard st i) [0..<cm_shard_count (sdata st)] st"

definition defragment_values :: "store \<Rightarrow> nat \<Rightarrow> store \<times> nat" where
  "defragment_values st budget = (let (m, n) = cm_defragment_values (sdata st) budget sv_compact_allocations
     in (st\<lparr>sdata := m\<rparr>, n))"

definition add_ttl :: "store \<Rightarrow> store" where
  "add_ttl st = st\<lparr>ttl_generation := ttl_generation st + 1, ttl_count := ttl_count st + 1\<rparr>"

definition sub_ttl :: "store \<Rightarrow> store" where
  "sub_ttl st = (if ttl_count st = 0 then st else st\<lparr>ttl_count := ttl_count st - 1\<rparr>)"

definition has_ttl_keys :: "store \<Rightarrow> bool" where
  "has_ttl_keys st \<longleftrightarrow> ttl_count st > 0"

definition reset_ttl_count :: "store \<Rightarrow> store" where
  "reset_ttl_count st = st\<lparr>ttl_count := 0, ttl_generation := ttl_generation st + 1\<rparr>"

definition finish_ttl_scan :: "store \<Rightarrow> u64 \<Rightarrow> u64 \<Rightarrow> store" where
  "finish_ttl_scan st generation live_ttls =
     (if ttl_generation st \<noteq> generation then st else st\<lparr>ttl_count := live_ttls\<rparr>)"

section \<open>The shapes of the commands\<close>

definition put_key :: "store \<Rightarrow> string \<Rightarrow> store_value \<Rightarrow> store" where
  "put_key st k sv = st\<lparr>sdata := fst (cm_insert (sdata st) k sv)\<rparr>"

text \<open>\<open>match self.data.update_with(key, f) { Some(r) => r, None => d }\<close>\<close>

definition update_or :: "store \<Rightarrow> string \<Rightarrow> (store_value \<Rightarrow> store_value \<times> 'r) \<Rightarrow> 'r \<Rightarrow> store \<times> 'r" where
  "update_or st k f d = (case cm_update_with (sdata st) k f of
      (m, Some r) \<Rightarrow> (st\<lparr>sdata := m\<rparr>, r)
    | (m, None) \<Rightarrow> (st\<lparr>sdata := m\<rparr>, d))"

text \<open>\<open>match self.data.update_with(key, f) { Some(r) => r, None => { self.data.insert(key, v); d } }\<close>\<close>

definition upsert :: "store \<Rightarrow> string \<Rightarrow> (store_value \<Rightarrow> store_value \<times> 'r) \<Rightarrow> store_value \<Rightarrow> 'r \<Rightarrow> store \<times> 'r" where
  "upsert st k f v d = (case cm_update_with (sdata st) k f of
      (m, Some r) \<Rightarrow> (st\<lparr>sdata := m\<rparr>, r)
    | (m, None) \<Rightarrow> (put_key (st\<lparr>sdata := m\<rparr>) k v, d))"

text \<open>The closure of an update: what to do with an expired value, with a value of the kind, and
  \<open>WRONGTYPE\<close> for any other.\<close>

definition on_value ::
  "clock \<Rightarrow> (fyrodb \<Rightarrow> 'a option) \<Rightarrow> ('a \<Rightarrow> fyrodb) \<Rightarrow> (store_value \<Rightarrow> store_value \<times> 'r res) \<Rightarrow> ('a \<Rightarrow> 'a \<times> 'r res)
    \<Rightarrow> store_value \<Rightarrow> store_value \<times> 'r res" where
  "on_value c get put expired act sv =
     (if is_expired c sv then expired sv
      else case get (val sv) of
          Some x \<Rightarrow> (let (x', r) = act x in (sv\<lparr>val := put x'\<rparr>, r))
        | None \<Rightarrow> (sv, Err WRONGTYPE))"

text \<open>An expired value that is left alone, and one that is replaced by a fresh value.\<close>

definition leave :: "'r \<Rightarrow> store_value \<Rightarrow> store_value \<times> 'r" where
  "leave r sv = (sv, r)"

definition renew :: "fyrodb \<Rightarrow> 'r \<Rightarrow> store_value \<Rightarrow> store_value \<times> 'r" where
  "renew v r sv = (sv\<lparr>val := v, expires_ms := 0\<rparr>, r)"

text \<open>\<open>match self.data.get_ref(key) { None => d, Some(e) if e.is_expired() => d, Some(e) => match
  e.value.as_kind() { Some(x) => f(x), None => Err("WRONGTYPE") } }\<close>\<close>

definition read_value ::
  "clock \<Rightarrow> (fyrodb \<Rightarrow> 'a option) \<Rightarrow> store \<Rightarrow> string \<Rightarrow> 'r res \<Rightarrow> ('a \<Rightarrow> 'r res) \<Rightarrow> 'r res" where
  "read_value c get st k d f = (case cm_get (sdata st) k of None \<Rightarrow> d
     | Some e \<Rightarrow> if is_expired c e then d
         else (case get (val e) of Some x \<Rightarrow> f x | None \<Rightarrow> Err WRONGTYPE))"

text \<open>The same with \<open>read_consistent\<close> in place of \<open>get_ref\<close>.\<close>

definition read_locked ::
  "clock \<Rightarrow> (fyrodb \<Rightarrow> 'a option) \<Rightarrow> store \<Rightarrow> string \<Rightarrow> 'r res \<Rightarrow> ('a \<Rightarrow> 'r res) \<Rightarrow> 'r res" where
  "read_locked c get st k d f =
     (case cm_read_consistent (sdata st) k (\<lambda>e. if is_expired c e then d
         else (case get (val e) of Some x \<Rightarrow> f x | None \<Rightarrow> Err WRONGTYPE)) of
        Some r \<Rightarrow> r | None \<Rightarrow> d)"

section \<open>Contents of a store\<close>

definition store_ok :: "store \<Rightarrow> bool" where
  "store_ok st \<longleftrightarrow> cm_wf (sdata st)"

definition db :: "store \<Rightarrow> string \<Rightarrow> store_value option" where
  "db st = cm_lookup (sdata st)"

text \<open>What a client sees: the values that are not expired.\<close>

definition live :: "clock \<Rightarrow> store \<Rightarrow> string \<Rightarrow> fyrodb option" where
  "live c st k = (case db st k of None \<Rightarrow> None | Some sv \<Rightarrow> if is_expired c sv then None else Some (val sv))"

text \<open>The counters of two stores are the same.\<close>

definition same_counters :: "store \<Rightarrow> store \<Rightarrow> bool" where
  "same_counters st st' \<longleftrightarrow> connected_clients st' = connected_clients st \<and> ttl_count st' = ttl_count st
     \<and> ttl_generation st' = ttl_generation st"

lemma same_counters_refl [simp]: "same_counters st st"
  by (simp add: same_counters_def)

lemma is_expired_simps [simp]:
  "\<not> is_expired c (sv_plain v)" "\<not> is_expired c (sv\<lparr>val := v, expires_ms := 0\<rparr>)"
  "is_expired c (sv\<lparr>val := v\<rparr>) = is_expired c sv" "val (sv_plain v) = v" "expires_ms (sv_plain v) = 0"
  by (simp_all add: is_expired_def sv_plain_def)

lemma sdata_update [simp]: "db (st\<lparr>sdata := m\<rparr>) = cm_lookup m" "store_ok (st\<lparr>sdata := m\<rparr>) = cm_wf m"
  by (simp_all add: db_def store_ok_def)

lemma store_with_config_ok [simp]:
  "store_ok (store_with_config hs n l)" "db (store_with_config hs n l) = Map.empty"
  by (simp_all add: store_ok_def db_def store_with_config_def map_laws)

lemma put_key_laws [store_simps]:
  "store_ok st \<Longrightarrow> db (put_key st k sv) = (db st)(k \<mapsto> sv)" "store_ok st \<Longrightarrow> store_ok (put_key st k sv)"
  by (simp_all add: put_key_def store_ok_def db_def map_laws)

lemma put_key_counters [simp]:
  "ttl_count (put_key st k sv) = ttl_count st" "ttl_generation (put_key st k sv) = ttl_generation st"
  "connected_clients (put_key st k sv) = connected_clients st"
  by (simp_all add: put_key_def)

lemma store_update_with:
  assumes "store_ok st"
  shows "snd (cm_update_with (sdata st) k f) = map_option (snd \<circ> f) (db st k)"
    "cm_lookup (fst (cm_update_with (sdata st) k f)) = (case db st k of None \<Rightarrow> db st | Some sv \<Rightarrow> (db st)(k \<mapsto> fst (f sv)))"
    "cm_wf (fst (cm_update_with (sdata st) k f))"
  using cm_update_with_ok [of "sdata st" k f] assms unfolding store_ok_def db_def by blast+

lemma update_or_laws [store_simps]:
  assumes "store_ok st"
  shows "db (fst (update_or st k f d)) = (case db st k of None \<Rightarrow> db st | Some sv \<Rightarrow> (db st)(k \<mapsto> fst (f sv)))"
    and "snd (update_or st k f d) = (case db st k of None \<Rightarrow> d | Some sv \<Rightarrow> snd (f sv))"
    and "store_ok (fst (update_or st k f d))"
proof -
  note laws = store_update_with [OF assms, of k f]
  then show "db (fst (update_or st k f d)) = (case db st k of None \<Rightarrow> db st | Some sv \<Rightarrow> (db st)(k \<mapsto> fst (f sv)))"
    "snd (update_or st k f d) = (case db st k of None \<Rightarrow> d | Some sv \<Rightarrow> snd (f sv))" "store_ok (fst (update_or st k f d))"
    by (cases "cm_update_with (sdata st) k f"; cases "db st k"; simp add: update_or_def db_def store_ok_def)+
qed

lemma upsert_laws [store_simps]:
  assumes "store_ok st"
  shows "db (fst (upsert st k f v d)) = (db st)(k \<mapsto> (case db st k of None \<Rightarrow> v | Some sv \<Rightarrow> fst (f sv)))"
    and "snd (upsert st k f v d) = (case db st k of None \<Rightarrow> d | Some sv \<Rightarrow> snd (f sv))"
    and "store_ok (fst (upsert st k f v d))"
proof -
  note laws = store_update_with [OF assms, of k f]
  then show "db (fst (upsert st k f v d)) = (db st)(k \<mapsto> (case db st k of None \<Rightarrow> v | Some sv \<Rightarrow> fst (f sv)))"
    "snd (upsert st k f v d) = (case db st k of None \<Rightarrow> d | Some sv \<Rightarrow> snd (f sv))" "store_ok (fst (upsert st k f v d))"
    by (cases "cm_update_with (sdata st) k f"; cases "db st k"; simp add: upsert_def db_def store_ok_def put_key_def map_laws)+
qed

lemma update_counters [simp]:
  "same_counters st (fst (update_or st k f d))" "same_counters st (fst (upsert st k f v d))"
  by (simp_all add: update_or_def upsert_def same_counters_def split: prod.split option.split)

lemma read_value_live: "store_ok st \<Longrightarrow> read_value c get st k d f =
    (case live c st k of None \<Rightarrow> d | Some v \<Rightarrow> (case get v of Some x \<Rightarrow> f x | None \<Rightarrow> Err WRONGTYPE))"
  by (simp add: read_value_def live_def db_def store_ok_def map_laws split: option.split)

lemma read_locked_live: "store_ok st \<Longrightarrow> read_locked c get st k d f =
    (case live c st k of None \<Rightarrow> d | Some v \<Rightarrow> (case get v of Some x \<Rightarrow> f x | None \<Rightarrow> Err WRONGTYPE))"
  by (simp add: read_locked_def live_def db_def store_ok_def map_laws split: option.split)

lemma live_put_key [store_simps]: "store_ok st \<Longrightarrow>
    live c (put_key st k sv) = (live c st)(k := (if is_expired c sv then None else Some (val sv)))"
  by (auto simp: live_def store_simps fun_eq_iff)

lemma live_congD: "db st = db st' \<Longrightarrow> live c st = live c st'"
  by (simp add: live_def fun_eq_iff)

context value_kind
begin

text \<open>An update that leaves an expired value alone acts on the live value of the kind.\<close>

lemma update_live:
  assumes ok: "store_ok st"
  shows "snd (update_or st k (on_value c get put (leave d) act) d) =
      (case live c st k of None \<Rightarrow> d | Some v \<Rightarrow> (case get v of None \<Rightarrow> Err WRONGTYPE | Some x \<Rightarrow> snd (act x)))"
    and "live c (fst (update_or st k (on_value c get put (leave d) act) d)) =
      (case Option.bind (live c st k) get of None \<Rightarrow> live c st | Some x \<Rightarrow> (live c st)(k \<mapsto> put (fst (act x))))"
  using ok
  by (auto simp: update_or_laws live_def on_value_def leave_def fun_eq_iff split: option.splits prod.splits)

text \<open>An update that renews an expired value and inserts a missing one acts on the live value, or
  on the fresh one.\<close>

lemma upsert_live:
  assumes ok: "store_ok st"
  shows "snd (upsert st k (on_value c get put (renew v r) act) (sv_plain v') r) =
      (case live c st k of None \<Rightarrow> r | Some v \<Rightarrow> (case get v of None \<Rightarrow> Err WRONGTYPE | Some x \<Rightarrow> snd (act x)))"
    and "live c (fst (upsert st k (on_value c get put (renew v r) act) (sv_plain v') r)) =
      (live c st)(k := (case live c st k of
          None \<Rightarrow> Some (if db st k = None then v' else v)
        | Some w \<Rightarrow> (case get w of None \<Rightarrow> Some w | Some x \<Rightarrow> Some (put (fst (act x))))))"
  using ok
  by (auto simp: upsert_laws live_def on_value_def renew_def fun_eq_iff split: option.splits prod.splits)

text \<open>A live value of another kind is an error and stays as it is.\<close>

lemma wrong_kind:
  assumes ok: "store_ok st" and v: "live c st k = Some v" "get v = None"
  shows "snd (update_or st k (on_value c get put ex act) d) = Err WRONGTYPE"
    and "db (fst (update_or st k (on_value c get put ex act) d)) = db st"
    and "snd (upsert st k (on_value c get put ex act) w r) = Err WRONGTYPE"
    and "db (fst (upsert st k (on_value c get put ex act) w r)) = db st"
    and "read_value c get st k d' f = Err WRONGTYPE" and "read_locked c get st k d' f = Err WRONGTYPE"
proof -
  obtain sv where sv: "db st k = Some sv" "\<not> is_expired c sv" "val sv = v"
    using v(1) by (auto simp: live_def split: option.splits if_splits)
  then have f: "on_value c get put ex act sv = (sv, Err WRONGTYPE)" using v(2) by (simp add: on_value_def)
  show "snd (update_or st k (on_value c get put ex act) d) = Err WRONGTYPE"
    "db (fst (update_or st k (on_value c get put ex act) d)) = db st"
    "snd (upsert st k (on_value c get put ex act) w r) = Err WRONGTYPE"
    "db (fst (upsert st k (on_value c get put ex act) w r)) = db st"
    using sv(1) f by (auto simp: update_or_laws [OF ok] upsert_laws [OF ok])
  show "read_value c get st k d' f = Err WRONGTYPE" "read_locked c get st k d' f = Err WRONGTYPE"
    using v by (simp_all add: read_value_live [OF ok] read_locked_live [OF ok])
qed

end

text \<open>A store in which no entry is expired: there the treatment of expired entries does not matter.\<close>

definition fresh :: "clock \<Rightarrow> store \<Rightarrow> bool" where
  "fresh c st \<longleftrightarrow> (\<forall>k sv. db st k = Some sv \<longrightarrow> \<not> is_expired c sv)"

lemma fresh_live: "fresh c st \<Longrightarrow> live c st k = map_option val (db st k)"
  by (auto simp: live_def fresh_def split: option.split)

context value_kind
begin

lemma update_fresh:
  assumes ok: "store_ok st" and fr: "fresh c st"
  shows "snd (update_or st k (on_value c get put ex act) d) =
      (case live c st k of None \<Rightarrow> d | Some v \<Rightarrow> (case get v of None \<Rightarrow> Err WRONGTYPE | Some x \<Rightarrow> snd (act x)))"
    and "live c (fst (update_or st k (on_value c get put ex act) d)) = (live c st)(k := (case live c st k of None \<Rightarrow> None
      | Some v \<Rightarrow> (case get v of None \<Rightarrow> Some v | Some x \<Rightarrow> Some (put (fst (act x))))))"
    and "fresh c (fst (update_or st k (on_value c get put ex act) d))"
proof -
  have f: "on_value c get put ex act sv = (case get (val sv) of
      Some x \<Rightarrow> (sv\<lparr>val := put (fst (act x))\<rparr>, snd (act x)) | None \<Rightarrow> (sv, Err WRONGTYPE))" if "db st k = Some sv" for sv
    using fr that by (auto simp: on_value_def fresh_def split: option.split prod.split)
  show "snd (update_or st k (on_value c get put ex act) d) =
      (case live c st k of None \<Rightarrow> d | Some v \<Rightarrow> (case get v of None \<Rightarrow> Err WRONGTYPE | Some x \<Rightarrow> snd (act x)))"
    by (auto simp: update_or_laws [OF ok] fresh_live [OF fr] f split: option.splits)
  show fr': "fresh c (fst (update_or st k (on_value c get put ex act) d))"
    using fr by (auto simp: update_or_laws [OF ok] fresh_def f split: option.splits if_splits)
  show "live c (fst (update_or st k (on_value c get put ex act) d)) = (live c st)(k := (case live c st k of None \<Rightarrow> None
      | Some v \<Rightarrow> (case get v of None \<Rightarrow> Some v | Some x \<Rightarrow> Some (put (fst (act x))))))"
    by (rule ext) (auto simp: fresh_live [OF fr'] fresh_live [OF fr] update_or_laws [OF ok] f split: option.splits)
qed

lemma upsert_fresh:
  assumes ok: "store_ok st" and fr: "fresh c st"
  shows "snd (upsert st k (on_value c get put ex act) (sv_plain w) d) =
      (case live c st k of None \<Rightarrow> d | Some v \<Rightarrow> (case get v of None \<Rightarrow> Err WRONGTYPE | Some x \<Rightarrow> snd (act x)))"
    and "live c (fst (upsert st k (on_value c get put ex act) (sv_plain w) d)) = (live c st)(k := (case live c st k of None \<Rightarrow> Some w
      | Some v \<Rightarrow> (case get v of None \<Rightarrow> Some v | Some x \<Rightarrow> Some (put (fst (act x))))))"
    and "fresh c (fst (upsert st k (on_value c get put ex act) (sv_plain w) d))"
proof -
  have f: "on_value c get put ex act sv = (case get (val sv) of
      Some x \<Rightarrow> (sv\<lparr>val := put (fst (act x))\<rparr>, snd (act x)) | None \<Rightarrow> (sv, Err WRONGTYPE))" if "db st k = Some sv" for sv
    using fr that by (auto simp: on_value_def fresh_def split: option.split prod.split)
  show "snd (upsert st k (on_value c get put ex act) (sv_plain w) d) =
      (case live c st k of None \<Rightarrow> d | Some v \<Rightarrow> (case get v of None \<Rightarrow> Err WRONGTYPE | Some x \<Rightarrow> snd (act x)))"
    by (auto simp: upsert_laws [OF ok] fresh_live [OF fr] f split: option.splits)
  show fr': "fresh c (fst (upsert st k (on_value c get put ex act) (sv_plain w) d))"
    using fr by (auto simp: upsert_laws [OF ok] fresh_def f split: option.splits if_splits)
  show "live c (fst (upsert st k (on_value c get put ex act) (sv_plain w) d)) = (live c st)(k := (case live c st k of None \<Rightarrow> Some w
      | Some v \<Rightarrow> (case get v of None \<Rightarrow> Some v | Some x \<Rightarrow> Some (put (fst (act x))))))"
    by (rule ext) (auto simp: fresh_live [OF fr'] fresh_live [OF fr] upsert_laws [OF ok] f split: option.splits)
qed

end

lemmas wrong_kind_laws =
  strings.wrong_kind hashes.wrong_kind lists.wrong_kind sets.wrong_kind zsets.wrong_kind streams.wrong_kind

end
