(* ===== verification/Keyspace.thy ===== *)
theory Keyspace
  imports Store
begin

text \<open>
  The operations on keys of any kind (\<open>src/src/storage/keys.rs\<close>) and on the store as a whole
  (\<open>src/src/storage/server.rs\<close>): existence, expiry, renaming, copying, choosing and listing keys,
  removing expired ones, flushing.
\<close>

section \<open>Keys\<close>

definition store_del :: "store \<Rightarrow> string \<Rightarrow> store \<times> bool" where
  "store_del st k = (let (m, b) = cm_remove_no_clone (sdata st) k in (st\<lparr>sdata := m\<rparr>, b))"

definition store_exists :: "clock \<Rightarrow> store \<Rightarrow> string \<Rightarrow> bool" where
  "store_exists c st k = (case cm_get (sdata st) k of Some e \<Rightarrow> \<not> is_expired_precise c e | None \<Rightarrow> False)"

definition set_deadline :: "clock \<Rightarrow> u64 \<Rightarrow> store_value \<Rightarrow> store_value \<times> bool" where
  "set_deadline c t sv = (if is_expired c sv then (sv, False)
     else (sv\<lparr>expires_ms := t\<rparr>, expires_ms sv = 0))"

text \<open>The addition wraps in the release profile.\<close>

definition store_expire :: "clock \<Rightarrow> store \<Rightarrow> string \<Rightarrow> u64 \<Rightarrow> store \<times> bool" where
  "store_expire c st k duration = (let (st', ok) = update_or st k (set_deadline c (now_ms c + duration)) False
     in (if ok then add_ttl st' else st', ok))"

definition store_expire_ms :: "clock \<Rightarrow> store \<Rightarrow> string \<Rightarrow> u64 \<Rightarrow> store \<times> bool" where
  "store_expire_ms c st k abs_ms = (let (st', ok) = update_or st k (set_deadline c abs_ms) False
     in (if ok then add_ttl st' else st', ok))"

definition store_persist :: "clock \<Rightarrow> store \<Rightarrow> string \<Rightarrow> store \<times> bool" where
  "store_persist c st k = (let (st', ok) = update_or st k
       (\<lambda>sv. if is_expired c sv \<or> expires_ms sv = 0 then (sv, False) else (sv\<lparr>expires_ms := 0\<rparr>, True)) False
     in (if ok then sub_ttl st' else st', ok))"

definition store_ttl :: "clock \<Rightarrow> store \<Rightarrow> string \<Rightarrow> u64 option" where
  "store_ttl c st k = (case cm_get (sdata st) k of None \<Rightarrow> None
     | Some e \<Rightarrow> if is_expired c e then None else ttl_ms c e)"

definition store_ttl_value_ms :: "clock \<Rightarrow> store \<Rightarrow> string \<Rightarrow> int" where
  "store_ttl_value_ms c st k = (case cm_get (sdata st) k of None \<Rightarrow> - 2
     | Some e \<Rightarrow> if is_expired c e then - 2
         else (case ttl_ms c e of None \<Rightarrow> - 1 | Some t \<Rightarrow> min (int (unat t)) i64_max))"

definition store_rename :: "clock \<Rightarrow> store \<Rightarrow> string \<Rightarrow> string \<Rightarrow> store \<times> bool" where
  "store_rename c st old_key new_key =
     (if old_key = new_key then (st, store_exists c st old_key)
      else case cm_remove (sdata st) old_key of
          (m, Some e) \<Rightarrow> if \<not> is_expired c e then (put_key (st\<lparr>sdata := m\<rparr>) new_key e, True) else (st\<lparr>sdata := m\<rparr>, False)
        | (m, None) \<Rightarrow> (st\<lparr>sdata := m\<rparr>, False))"

definition store_renamenx :: "clock \<Rightarrow> store \<Rightarrow> string \<Rightarrow> string \<Rightarrow> store \<times> bool" where
  "store_renamenx c st old_key new_key =
     (if old_key = new_key then (st, store_exists c st old_key)
      else case cm_remove (sdata st) old_key of
          (m, Some e) \<Rightarrow> if \<not> is_expired c e then
              (let (m', ok) = cm_insert_if_absent m new_key e in
                 if ok then (st\<lparr>sdata := m'\<rparr>, True) else (put_key (st\<lparr>sdata := m'\<rparr>) old_key e, False))
            else (st\<lparr>sdata := m\<rparr>, False)
        | (m, None) \<Rightarrow> (st\<lparr>sdata := m\<rparr>, False))"

definition store_copy :: "clock \<Rightarrow> store \<Rightarrow> string \<Rightarrow> string \<Rightarrow> bool \<Rightarrow> store \<times> bool" where
  "store_copy c st src dst replace = (case cm_get (sdata st) src of None \<Rightarrow> (st, False)
     | Some e \<Rightarrow> if is_expired c e then (st, False)
         else if replace then (put_key st dst e, True)
         else (let (m, ok) = cm_insert_if_absent (sdata st) dst e in (st\<lparr>sdata := m\<rparr>, ok)))"

text \<open>The seed is mixed with the address of a local variable, the argument \<open>entropy\<close>.\<close>

definition random_order :: "store \<Rightarrow> nat \<Rightarrow> nat \<Rightarrow> (nat \<times> nat) list" where
  "random_order st shard_start slot_seed = (let n = cm_shard_count (sdata st) in
     concat (map (\<lambda>i. let sh = (shard_start + i) mod n; cnt = slot_count (sdata st) sh in
       if cnt = 0 then [] else map (\<lambda>off. (sh, (slot_seed mod cnt + off) mod cnt)) [0..<cnt]) [0..<n]))"

definition live_slot :: "clock \<Rightarrow> store \<Rightarrow> nat \<times> nat \<Rightarrow> string option" where
  "live_slot c st = (\<lambda>(sh, i). case cm_peek_slot (sdata st) sh i of
      Some (Some (k, sv)) \<Rightarrow> if \<not> is_expired c sv then Some k else None | _ \<Rightarrow> None)"

fun first_some :: "('a \<Rightarrow> 'b option) \<Rightarrow> 'a list \<Rightarrow> 'b option" where
  "first_some f [] = None"
| "first_some f (x # xs) = (case f x of Some y \<Rightarrow> Some y | None \<Rightarrow> first_some f xs)"

definition store_randomkey :: "u64 \<Rightarrow> clock \<Rightarrow> store \<Rightarrow> string option" where
  "store_randomkey entropy c st = (let n = cm_shard_count (sdata st) in
     if n = 0 \<or> cm_is_empty (sdata st) then None
     else let seed = xorshift (now_ms c XOR 0x517cc1b727220a95 XOR entropy);
              slot_seed = xorshift seed
          in first_some (live_slot c st) (random_order st (unat seed mod n) (unat slot_seed)))"

definition store_keys_matching :: "clock \<Rightarrow> store \<Rightarrow> string \<Rightarrow> string list" where
  "store_keys_matching c st pat = cm_for_each (sdata st)
     (\<lambda>k sv out. if \<not> is_expired c sv \<and> glob_match pat k = Some True then out @ [k] else out) []"

section \<open>The whole store\<close>

definition store_cleanup_expired :: "clock \<Rightarrow> store \<Rightarrow> clock \<times> store" where
  "store_cleanup_expired c st = (let c' = tick_clock c; now = now_ms c'; generation = ttl_generation st;
       (m, live_ttls) = cm_retain (sdata st)
         (\<lambda>_ e n. if expires_ms e = 0 then (True, n) else if expires_ms e > now then (True, n + 1) else (False, n)) 0
     in (c', finish_ttl_scan (st\<lparr>sdata := m\<rparr>) generation live_ttls))"

definition store_cleanup_expired_shard ::
  "clock \<Rightarrow> store \<Rightarrow> nat \<Rightarrow> nat \<Rightarrow> nat \<Rightarrow> (clock \<times> store) \<times> nat \<times> nat \<times> nat \<times> nat" where
  "store_cleanup_expired_shard c st sh start_slot max_slots =
     (if \<not> has_ttl_keys st then ((c, st), 0, start_slot, 0, 0)
      else let c' = tick_clock c; now = now_ms c';
               ((m, st', live_ttls, removed), r) = cm_retain_shard_range (sdata st) sh start_slot max_slots
                 (\<lambda>_ e (st, live_ttls, removed). if expires_ms e \<noteq> 0 \<and> expires_ms e \<le> now
                    then (False, (sub_ttl st, live_ttls, removed + 1))
                    else (True, (st, if expires_ms e \<noteq> 0 then live_ttls + 1 else live_ttls, removed)))
                 (st, 0, 0);
               (next_slot, cap) = (case r of Some p \<Rightarrow> p | None \<Rightarrow> (start_slot, 0))
           in ((c', st'\<lparr>sdata := m\<rparr>), live_ttls, next_slot, cap, removed))"

definition store_flush :: "store \<Rightarrow> store" where
  "store_flush st = reset_ttl_count (st\<lparr>sdata := cm_clear (sdata st)\<rparr>)"

definition store_dbsize :: "store \<Rightarrow> nat" where
  "store_dbsize st = cm_len (sdata st)"

definition store_type_of :: "clock \<Rightarrow> store \<Rightarrow> string \<Rightarrow> string" where
  "store_type_of c st k = (case cm_get (sdata st) k of
      Some e \<Rightarrow> if \<not> is_expired_precise c e then type_name (val e) else ''none'' | None \<Rightarrow> ''none'')"

section \<open>Laws\<close>

lemma ttl_simps [simp]:
  "sdata (add_ttl st) = sdata st" "sdata (sub_ttl st) = sdata st" "sdata (reset_ttl_count st) = sdata st"
  "sdata (finish_ttl_scan st g n) = sdata st"
  by (simp_all add: add_ttl_def sub_ttl_def reset_ttl_count_def finish_ttl_scan_def)

lemma ttl_db [simp]:
  "db (add_ttl st) = db st" "db (sub_ttl st) = db st" "store_ok (add_ttl st) = store_ok st"
  "store_ok (sub_ttl st) = store_ok st"
  by (simp_all add: db_def store_ok_def)

lemma store_del_laws [store_simps]:
  assumes "store_ok st"
  shows "db (fst (store_del st k)) = (db st)(k := None)" "snd (store_del st k) = (db st k \<noteq> None)"
    "store_ok (fst (store_del st k))"
  using assms by (simp_all add: store_del_def db_def store_ok_def case_prod_beta map_laws)

lemma remove_laws:
  assumes "store_ok st"
  obtains m where "cm_remove (sdata st) k = (m, db st k)" "cm_lookup m = (db st)(k := None)" "cm_wf m"
  using that [of "fst (cm_remove (sdata st) k)"] assms
  by (cases "cm_remove (sdata st) k") (auto simp: db_def store_ok_def dest: cm_remove_ok [of _ k])



lemma renamenx_laws:
  assumes ok: "store_ok st" and ne: "old_key \<noteq> new_key"
  shows "db (fst (store_renamenx c st old_key new_key)) =
      (case db st old_key of
         Some sv \<Rightarrow> if is_expired c sv then (db st)(old_key := None)
           else if db st new_key = None then (db st)(old_key := None, new_key \<mapsto> sv) else db st
       | None \<Rightarrow> db st)"
    and "snd (store_renamenx c st old_key new_key) = (live c st old_key \<noteq> None \<and> db st new_key = None)"
    and "store_ok (fst (store_renamenx c st old_key new_key))"
proof -
  obtain m where m: "cm_remove (sdata st) old_key = (m, db st old_key)"
    "cm_lookup m = (db st)(old_key := None)" "cm_wf m"
    using remove_laws [OF ok] .
  have ins: "snd (cm_insert_if_absent m new_key sv) = (db st new_key = None)"
    "cm_lookup (fst (cm_insert_if_absent m new_key sv)) =
       (if db st new_key = None then (db st)(old_key := None, new_key \<mapsto> sv) else (db st)(old_key := None))"
    "cm_wf (fst (cm_insert_if_absent m new_key sv))" for sv
    using m(2,3) ne by (auto simp: map_laws)
  have put: "store_ok (put_key (st\<lparr>sdata := fst (cm_insert_if_absent m new_key sv)\<rparr>) k e)"
    "db (put_key (st\<lparr>sdata := fst (cm_insert_if_absent m new_key sv)\<rparr>) k e)
       = (cm_lookup (fst (cm_insert_if_absent m new_key sv)))(k \<mapsto> e)" for sv k e
    using ins(3) [of sv] put_key_laws [of "st\<lparr>sdata := fst (cm_insert_if_absent m new_key sv)\<rparr>" k e]
    by (simp_all add: store_ok_def db_def)
  note simps = store_renamenx_def m live_def case_prod_beta ins put db_def [of "st\<lparr>sdata := _\<rparr>"]
    store_ok_def [of "st\<lparr>sdata := _\<rparr>"]
  have same: "db st old_key = None \<Longrightarrow> (db st)(old_key := None) = db st"
    "db st old_key = Some sv \<Longrightarrow> (db st)(old_key \<mapsto> sv) = db st" for sv by auto
  show "db (fst (store_renamenx c st old_key new_key)) =
      (case db st old_key of
         Some sv \<Rightarrow> if is_expired c sv then (db st)(old_key := None)
           else if db st new_key = None then (db st)(old_key := None, new_key \<mapsto> sv) else db st
       | None \<Rightarrow> db st)"
    "snd (store_renamenx c st old_key new_key) = (live c st old_key \<noteq> None \<and> db st new_key = None)"
    "store_ok (fst (store_renamenx c st old_key new_key))"
    using ne by (auto simp: simps same split: option.splits)
qed

subsection \<open>Expiry and the count of expiring keys\<close>

definition ttl_keys :: "store \<Rightarrow> string set" where
  "ttl_keys st = {k. \<exists>sv. db st k = Some sv \<and> expires_ms sv \<noteq> 0}"

text \<open>The count is never below the number of keys that expire: the periodic cleanup, which does
  nothing when the count is zero, then never overlooks one.\<close>

definition ttl_counted :: "store \<Rightarrow> bool" where
  "ttl_counted st \<longleftrightarrow> card (ttl_keys st) \<le> unat (ttl_count st)"

lemma finite_ttl_keys: "store_ok st \<Longrightarrow> finite (ttl_keys st)"
proof -
  assume "store_ok st"
  then have "finite (dom (db st))"
    using cm_keys_ok(1) [of "sdata st"] by (metis List.finite_set db_def store_ok_def)
  then show ?thesis by (rule rev_finite_subset) (auto simp: ttl_keys_def)
qed

lemma ttl_keys_update:
  "db st' = (db st)(k := x) \<Longrightarrow> ttl_keys st' = (case x of
     Some sv \<Rightarrow> if expires_ms sv \<noteq> 0 then insert k (ttl_keys st) else ttl_keys st - {k} | None \<Rightarrow> ttl_keys st - {k})"
  by (auto simp: ttl_keys_def split: option.splits)

lemma ttl_counted_mono:
  "ttl_counted st \<Longrightarrow> store_ok st \<Longrightarrow> ttl_keys st' \<subseteq> ttl_keys st \<Longrightarrow> ttl_count st' = ttl_count st \<Longrightarrow> ttl_counted st'"
  unfolding ttl_counted_def by (metis card_mono finite_ttl_keys le_trans)

lemma unat_inc: "(w :: u64) \<noteq> - 1 \<Longrightarrow> unat (w + 1) = Suc (unat w)"
proof -
  assume "w \<noteq> - 1"
  then have "1 + w \<noteq> 0" by (metis add.commute add_eq_0_iff2)
  then show ?thesis by (metis add.commute unatSuc)
qed

lemma ttl_counted_add:
  assumes "ttl_counted st" "store_ok st" "ttl_keys st' \<subseteq> insert k (ttl_keys st)"
    "ttl_count st' = ttl_count st" "ttl_count st \<noteq> - 1"
  shows "ttl_counted (add_ttl st')"
proof -
  have "card (ttl_keys st') \<le> card (insert k (ttl_keys st))"
    using assms(2,3) by (intro card_mono) (simp_all add: finite_ttl_keys)
  also have "\<dots> \<le> Suc (unat (ttl_count st))"
    using assms(1) card_insert_le_m1 [of "Suc (unat (ttl_count st))" "ttl_keys st" k] by (simp add: ttl_counted_def)
  finally show ?thesis using assms(4,5) by (simp add: ttl_counted_def ttl_keys_def add_ttl_def unat_inc db_def)
qed

lemma set_deadline_laws:
  assumes ok: "store_ok st" and r: "update_or st k (set_deadline c t) False = (st', b)"
  shows "db st' = (case db st k of Some sv \<Rightarrow> if is_expired c sv then db st else (db st)(k \<mapsto> sv\<lparr>expires_ms := t\<rparr>)
       | None \<Rightarrow> db st)"
    and "b = (\<exists>sv. db st k = Some sv \<and> \<not> is_expired c sv \<and> expires_ms sv = 0)"
    and "store_ok st'" "ttl_count st' = ttl_count st"
proof -
  have st: "st' = fst (update_or st k (set_deadline c t) False)" "b = snd (update_or st k (set_deadline c t) False)"
    using r by simp_all
  show "db st' = (case db st k of Some sv \<Rightarrow> if is_expired c sv then db st else (db st)(k \<mapsto> sv\<lparr>expires_ms := t\<rparr>)
       | None \<Rightarrow> db st)"
    unfolding st by (auto simp: update_or_laws [OF ok] set_deadline_def split: option.splits)
  show "b = (\<exists>sv. db st k = Some sv \<and> \<not> is_expired c sv \<and> expires_ms sv = 0)"
    unfolding st by (auto simp: update_or_laws [OF ok] set_deadline_def split: option.splits)
  show "store_ok st'" "ttl_count st' = ttl_count st"
    unfolding st using update_counters(1) [of st k "set_deadline c t" False]
    by (simp_all add: update_or_laws [OF ok] same_counters_def)
qed

lemma expire_ms_counted:
  assumes ok: "store_ok st" "ttl_counted st" and max: "ttl_count st \<noteq> - 1"
  shows "ttl_counted (fst (store_expire_ms c st k t))"
proof -
  obtain st' b where r: "update_or st k (set_deadline c t) False = (st', b)" by (metis surj_pair)
  note laws = set_deadline_laws [OF ok(1) r]
  have sub: "ttl_keys st' \<subseteq> insert k (ttl_keys st)"
    using laws(1) by (auto simp: ttl_keys_def split: option.splits if_splits)
  show ?thesis
  proof (cases b)
    case True
    then show ?thesis using ttl_counted_add [OF ok(2,1) sub laws(4) max] by (simp add: store_expire_ms_def r)
  next
    case False
    have "ttl_keys st' \<subseteq> ttl_keys st"
      using laws(1,2) False by (auto simp: ttl_keys_def split: option.splits if_splits)
    then show ?thesis using False ttl_counted_mono [OF ok(2,1) _ laws(4)] by (simp add: store_expire_ms_def r)
  qed
qed

lemma store_expire_eq: "store_expire c st k d = store_expire_ms c st k (now_ms c + d)"
  by (simp add: store_expire_def store_expire_ms_def)

lemma persist_counted:
  assumes ok: "store_ok st" "ttl_counted st"
  shows "ttl_counted (fst (store_persist c st k))"
proof -
  let ?f = "\<lambda>sv. if is_expired c sv \<or> expires_ms sv = 0 then (sv, False) else (sv\<lparr>expires_ms := 0\<rparr>, True)"
  let ?st = "fst (update_or st k ?f False)" and ?b = "snd (update_or st k ?f False)"
  have p: "fst (store_persist c st k) = (if ?b then sub_ttl ?st else ?st)"
    by (simp add: store_persist_def case_prod_beta)
  have cnt: "ttl_count ?st = ttl_count st" using update_counters(1) [of st k ?f False] by (simp add: same_counters_def)
  show ?thesis
  proof (cases ?b)
    case True
    then have k: "k \<in> ttl_keys st" "db ?st = (db st)(k := Some ((the (db st k))\<lparr>expires_ms := 0\<rparr>))"
      by (auto simp: update_or_laws [OF ok(1)] ttl_keys_def split: option.splits if_splits)
    have "card (ttl_keys ?st) = card (ttl_keys st) - 1"
      using k finite_ttl_keys [OF ok(1)] by (simp add: ttl_keys_update [OF k(2)])
    moreover have "ttl_keys (sub_ttl ?st) = ttl_keys ?st" by (simp add: ttl_keys_def)
    moreover have "0 < card (ttl_keys st)" using k(1) finite_ttl_keys [OF ok(1)] by (auto simp: card_gt_0_iff)
    moreover from this have "ttl_count st \<noteq> 0" using ok(2) by (auto simp: ttl_counted_def)
    ultimately show ?thesis using ok(2) True
      by (simp add: p ttl_counted_def sub_ttl_def cnt unat_minus_one)
  next
    case False
    have "ttl_keys ?st \<subseteq> ttl_keys st"
      using False by (auto simp: ttl_keys_def update_or_laws [OF ok(1)] split: option.splits if_splits)
    then show ?thesis using False ttl_counted_mono [OF ok(2,1) _ cnt] by (simp add: p)
  qed
qed

lemma del_counted: "store_ok st \<Longrightarrow> ttl_counted st \<Longrightarrow> ttl_counted (fst (store_del st k))"
proof -
  assume ok: "store_ok st" "ttl_counted st"
  have "ttl_count (fst (store_del st k)) = ttl_count st" by (simp add: store_del_def case_prod_beta)
  moreover have "ttl_keys (fst (store_del st k)) \<subseteq> ttl_keys st"
    by (simp add: ttl_keys_update [OF store_del_laws(1) [OF ok(1)]])
  ultimately show ?thesis using ttl_counted_mono [OF ok(2,1)] by blast
qed

lemma rename_counted:
  assumes ok: "store_ok st" "ttl_counted st"
  shows "ttl_counted (fst (store_rename c st a b))"
proof -
  obtain m where m: "cm_remove (sdata st) a = (m, db st a)" "cm_lookup m = (db st)(a := None)" "cm_wf m"
    using remove_laws [OF ok(1)] .
  let ?st = "st\<lparr>sdata := m\<rparr>"
  have st: "store_ok ?st" "db ?st = (db st)(a := None)" using m by (simp_all add: store_ok_def db_def)
  have fin: "finite (ttl_keys st)" using finite_ttl_keys [OF ok(1)] .
  have keys: "ttl_keys ?st = ttl_keys st - {a}" by (simp add: ttl_keys_update [OF st(2)])
  have moved: "card (ttl_keys (put_key ?st b sv)) \<le> card (ttl_keys st)" if a: "db st a = Some sv" for sv
  proof (cases "expires_ms sv = 0")
    case True
    then show ?thesis using fin by (simp add: ttl_keys_update [OF put_key_laws(1) [OF st(1)]] keys)
      (intro card_mono, simp, blast)
  next
    case False
    then have "a \<in> ttl_keys st" using a by (simp add: ttl_keys_def)
    then have "Suc (card (ttl_keys st - {a})) = card (ttl_keys st)" by (rule card_Suc_Diff1 [OF fin])
    moreover have "card (insert b (ttl_keys st - {a})) \<le> Suc (card (ttl_keys st - {a}))"
      by (rule card_insert_le_m1) simp_all
    moreover have "ttl_keys (put_key ?st b sv) = insert b (ttl_keys st - {a})"
      using False by (simp add: ttl_keys_update [OF put_key_laws(1) [OF st(1)]] keys)
    ultimately show ?thesis by simp
  qed
  have removed: "card (ttl_keys st - {a}) \<le> card (ttl_keys st)" using fin by (intro card_mono) auto
  show ?thesis using ok(2) moved removed
    by (auto simp: store_rename_def m(1) ttl_counted_def keys split: option.splits dest: order_trans)
qed



text \<open>Copying a key copies its expiry without counting it: from a store that counts exactly its one
  expiring key, copying that key gives two expiring keys and still a count of one, so that the
  removal of the first resets the count to zero and the cleanup stops looking.
\<close>

theorem copy_undercounts:
  assumes "store_ok st" "db st src = Some sv" "expires_ms sv \<noteq> 0" "\<not> is_expired c sv"
    and "db st dst = None" "ttl_keys st = {src}" "ttl_count st = 1"
  shows "ttl_keys (fst (store_copy c st src dst False)) = {src, dst}
    \<and> ttl_count (fst (store_copy c st src dst False)) = 1
    \<and> \<not> ttl_counted (fst (store_copy c st src dst False))"
proof -
  have get: "cm_get (sdata st) src = Some sv" and wf: "cm_wf (sdata st)" and none: "cm_lookup (sdata st) dst = None"
    using assms(1,2,5) by (simp_all add: store_ok_def db_def cm_get_lookup)
  have copy: "store_copy c st src dst False = (st\<lparr>sdata := fst (cm_insert_if_absent (sdata st) dst sv)\<rparr>, True)"
    using cm_insert_if_absent_ok [OF wf, of dst sv] none assms(4) by (simp add: store_copy_def get case_prod_beta)
  have "db (fst (store_copy c st src dst False)) = (db st)(dst := Some sv)"
    using cm_insert_if_absent_ok [OF wf, of dst sv] none by (simp add: copy db_def)
  note ttl_keys_update [OF this]
  then have "ttl_keys (fst (store_copy c st src dst False)) = {src, dst}"
    using assms(3,6) by (simp add: insert_commute)
  moreover have "src \<noteq> dst" using assms(2,5) by auto
  ultimately show ?thesis using assms(7) by (simp add: copy ttl_counted_def)
qed

theorem copy_undercounts_witness:
  "\<not> ttl_counted (fst (store_copy \<lparr>unix_ms_cache = 0, system_ms = 2, instant_ns = 0\<rparr>
     (add_ttl (put_key (store_with_config (\<lambda>_. 3) 2 10) ''a'' \<lparr>val = FString [], expires_ms = 9\<rparr>)) ''a'' ''b'' False))"
proof -
  let ?sv = "\<lparr>val = FString [], expires_ms = 9\<rparr>" and ?c = "\<lparr>unix_ms_cache = 0, system_ms = 2, instant_ns = 0\<rparr>"
  let ?st = "add_ttl (put_key (store_with_config (\<lambda>_. 3) 2 10) ''a'' ?sv)"
  have st: "store_ok ?st" "db ?st = [''a'' \<mapsto> ?sv]" by (simp_all add: store_simps)
  have "ttl_keys ?st = {''a''}" unfolding ttl_keys_def st(2) by (auto split: if_splits)
  moreover have "ttl_count ?st = 1" by (simp add: add_ttl_def store_with_config_def put_key_def)
  moreover have "\<not> is_expired ?c ?sv" by (simp add: is_expired_def approx_now_ms_def now_ms_def)
  ultimately show ?thesis using copy_undercounts [of ?st "''a''" ?sv ?c "''b''"] st by simp
qed

subsection \<open>Removing expired keys\<close>

lemma now_tick [simp]: "now_ms (tick_clock c) = now_ms c"
  by (simp add: now_ms_def tick_clock_def)

lemma fold_count_state:
  "fold (\<lambda>(k, e) n. if P e then n + 1 else n) ps (a :: u64) = a + of_nat (length (filter (\<lambda>(k, e). P e) ps))"
  by (induction ps arbitrary: a) auto

text \<open>C20: The cleanup refreshes the cached clock, removes exactly the keys whose expiry has come by
  that clock, and leaves a count that is the number of keys that still expire.
\<close>

theorem cleanup_removes_expired:
  assumes ok: "store_ok st" and r: "store_cleanup_expired c st = (c', st')"
  shows "db st' = (\<lambda>k. case db st k of None \<Rightarrow> None
      | Some sv \<Rightarrow> if expires_ms sv \<noteq> 0 \<and> expires_ms sv \<le> now_ms c then None else Some sv)
    \<and> store_ok st' \<and> ttl_count st' = of_nat (card (ttl_keys st')) \<and> unix_ms_cache c' = now_ms c"
proof -
  let ?f = "\<lambda>_ e n. if expires_ms e = 0 then (True, n) else if expires_ms e > now_ms c then (True, n + 1) else (False, n :: u64)"
  let ?P = "\<lambda>(_ :: string) e. expires_ms e = 0 \<or> expires_ms e > now_ms c"
  have P: "fst (?f k v s) = ?P k v" for k v s by simp
  have wf: "cm_wf (sdata st)" using ok by (simp add: store_ok_def)
  note ret = cm_retain_ok [where f = ?f and P = ?P and s = 0, OF wf P]
  have st': "st' = finish_ttl_scan (st\<lparr>sdata := fst (cm_retain (sdata st) ?f 0)\<rparr>) (ttl_generation st) (snd (cm_retain (sdata st) ?f 0))"
    using r unfolding store_cleanup_expired_def Let_def now_tick by (auto simp: case_prod_beta)
  have look: "db st' = keep_if ?P UNIV (db st)" and ok': "store_ok st'"
    unfolding st' using ret(1,2) by (simp_all add: db_def store_ok_def)
  have live: "snd (cm_retain (sdata st) ?f 0) = of_nat (length (filter (\<lambda>(k, e). expires_ms e > now_ms c) (all_pairs (sdata st))))"
  proof -
    have f: "(\<lambda>(k :: string, v) s. snd (?f k v s)) = (\<lambda>(k, e) n. if expires_ms e > now_ms c then n + 1 else n)"
      by (auto simp: fun_eq_iff)
    show ?thesis unfolding ret(3) f fold_count_state by simp
  qed
  have "k \<in> ttl_keys st' \<longleftrightarrow> (\<exists>sv. db st k = Some sv \<and> expires_ms sv > now_ms c)" for k
    by (auto simp: ttl_keys_def look keep_if_def split: option.splits if_splits)
  then have "k \<in> ttl_keys st' \<longleftrightarrow> (\<exists>sv. (k, sv) \<in> set (all_pairs (sdata st)) \<and> expires_ms sv > now_ms c)" for k
    by (simp add: all_pairs_lookup [OF wf] db_def)
  then have "ttl_keys st' = fst ` set (filter (\<lambda>(k, e). expires_ms e > now_ms c) (all_pairs (sdata st)))" by force
  moreover have "distinct (map fst (filter (\<lambda>(k, e). expires_ms e > now_ms c) (all_pairs (sdata st))))"
    by (rule distinct_map_filter [OF all_pairs_distinct [OF wf]])
  ultimately have "card (ttl_keys st') = length (filter (\<lambda>(k, e). expires_ms e > now_ms c) (all_pairs (sdata st)))"
    by (metis distinct_card length_map list.set_map)
  moreover have "ttl_count st' = snd (cm_retain (sdata st) ?f 0)" unfolding st' by (simp add: finish_ttl_scan_def)
  moreover have "unix_ms_cache c' = now_ms c" using r by (auto simp: store_cleanup_expired_def Let_def case_prod_beta tick_clock_def)
  ultimately show ?thesis using look ok' live by (auto simp: keep_if_def fun_eq_iff split: option.splits)
qed

theorem cleanup_removes_expired_witness:
  "ttl_count (snd (store_cleanup_expired \<lparr>unix_ms_cache = 0, system_ms = 5, instant_ns = 0\<rparr>
     (put_key (store_with_config (\<lambda>_. 3) 2 10) ''a'' \<lparr>val = FString [], expires_ms = 4\<rparr>))) = 0"
proof -
  let ?c = "\<lparr>unix_ms_cache = 0, system_ms = 5, instant_ns = 0\<rparr>"
  let ?st = "put_key (store_with_config (\<lambda>_. 3) 2 10) ''a'' \<lparr>val = FString [], expires_ms = 4\<rparr>"
  obtain c' st' where r: "store_cleanup_expired ?c ?st = (c', st')" by (metis surj_pair)
  have st: "store_ok ?st" "db ?st = [''a'' \<mapsto> \<lparr>val = FString [], expires_ms = 4\<rparr>]" by (simp_all add: store_simps)
  note res = cleanup_removes_expired [OF st(1) r]
  then have "ttl_keys st' = {}" by (auto simp: ttl_keys_def st(2) now_ms_def split: if_splits)
  with res show ?thesis by (simp add: r)
qed

subsection \<open>The rest of the keyspace\<close>

lemma copy_laws:
  assumes ok: "store_ok st"
  shows "db (fst (store_copy c st src dst replace)) = (case db st src of None \<Rightarrow> db st
      | Some sv \<Rightarrow> if is_expired c sv \<or> \<not> replace \<and> db st dst \<noteq> None then db st else (db st)(dst \<mapsto> sv))"
    and "store_ok (fst (store_copy c st src dst replace))"
  using ok by (auto simp: store_copy_def db_def store_ok_def map_laws put_key_def case_prod_beta split: option.splits)

lemma flush_laws: "store_ok st \<Longrightarrow> db (store_flush st) = Map.empty \<and> store_ok (store_flush st) \<and> ttl_count (store_flush st) = 0"
  by (simp add: store_flush_def db_def store_ok_def reset_ttl_count_def map_laws)

lemma keys_matching_laws:
  assumes ok: "store_ok st"
  shows "set (store_keys_matching c st pat) = {k. live c st k \<noteq> None \<and> glob_match pat k = Some True}"
    and "distinct (store_keys_matching c st pat)"
proof -
  let ?P = "\<lambda>(k, sv). \<not> is_expired c sv \<and> glob_match pat k = Some True"
  have wf: "cm_wf (sdata st)" using ok by (simp add: store_ok_def)
  have "fold (\<lambda>(k, sv) out. if \<not> is_expired c sv \<and> glob_match pat k = Some True then out @ [k] else out) ps acc
      = acc @ map fst (filter ?P ps)" for ps acc
    by (induction ps arbitrary: acc) (simp_all add: case_prod_beta)
  then have keys: "store_keys_matching c st pat = map fst (filter ?P (all_pairs (sdata st)))"
    by (simp add: store_keys_matching_def cm_for_each_def)
  show "distinct (store_keys_matching c st pat)"
    unfolding keys by (rule distinct_map_filter [OF all_pairs_distinct [OF wf]])
  have "k \<in> set (store_keys_matching c st pat) \<longleftrightarrow>
      (\<exists>sv. (k, sv) \<in> set (all_pairs (sdata st)) \<and> \<not> is_expired c sv \<and> glob_match pat k = Some True)" for k
    unfolding keys by force
  then have "k \<in> set (store_keys_matching c st pat) \<longleftrightarrow> live c st k \<noteq> None \<and> glob_match pat k = Some True" for k
    by (auto simp: all_pairs_lookup [OF wf] live_def db_def split: option.splits)
  then show "set (store_keys_matching c st pat) = {k. live c st k \<noteq> None \<and> glob_match pat k = Some True}" by blast
qed

end
