(* ===== verification/Scan.thy ===== *)
theory Scan
  imports Keyspace
begin

text \<open>
  The incremental traversal (\<open>src/src/storage/scan.rs\<close>): a cursor packs a shard and a slot, and
  each call visits slots from there until it has collected enough keys.
\<close>

section \<open>Scanning\<close>

definition scan_matches :: "string option \<Rightarrow> string \<Rightarrow> bool" where
  "scan_matches pat k = (case pat of None \<Rightarrow> True | Some p \<Rightarrow> glob_match p k = Some True)"

definition cursor_of :: "nat \<Rightarrow> nat \<Rightarrow> nat" where
  "cursor_of sh i = push_bit 20 sh OR (i AND 0xFFFFF)"

text \<open>The two nested loops: the next slot of the shard, or the next shard.\<close>

function scan_loop :: "clock \<Rightarrow> store \<Rightarrow> string option \<Rightarrow> nat \<Rightarrow> nat \<Rightarrow> nat \<Rightarrow> string list \<Rightarrow> nat \<times> string list" where
  "scan_loop c st pat cnt sh i ks =
     (let total = cm_shard_count (sdata st); n = slot_count (sdata st) sh in
      if sh < total then
        if i < n then
          (let ks' = (case live_slot c st (sh, i) of Some k \<Rightarrow> if scan_matches pat k then ks @ [k] else ks | None \<Rightarrow> ks);
               i' = i + 1
           in if length ks' \<ge> cnt then
                (let (sh'', i'') = (if i' \<ge> n then (sh + 1, 0) else (sh, i'))
                 in if sh'' \<ge> total then (0, ks') else (cursor_of sh'' i'', ks'))
              else scan_loop c st pat cnt sh i' ks')
        else scan_loop c st pat cnt (sh + 1) 0 ks
      else (0, ks))"
  by pat_completeness auto

termination
  by (relation "measures [\<lambda>(c, st, pat, cnt, sh, i, ks). cm_shard_count (sdata st) - sh,
      \<lambda>(c, st, pat, cnt, sh, i, ks). slot_count (sdata st) sh - i]") auto

declare scan_loop.simps [simp del]

definition store_scan :: "clock \<Rightarrow> store \<Rightarrow> nat \<Rightarrow> string option \<Rightarrow> nat \<Rightarrow> nat \<times> string list" where
  "store_scan c st cursor pat cnt = (let total = cm_shard_count (sdata st) in
     if total = 0 then (0, [])
     else let (sh, i) = (if cursor = 0 then (0, 0) else (drop_bit 20 cursor AND 0xFFF, cursor AND 0xFFFFF))
          in scan_loop c st pat cnt sh i [])"

section \<open>A whole traversal\<close>

text \<open>What a client does: call again with the returned cursor until it is zero.\<close>

fun scan_session :: "nat \<Rightarrow> clock \<Rightarrow> store \<Rightarrow> nat \<Rightarrow> string option \<Rightarrow> nat \<Rightarrow> string list option" where
  "scan_session 0 c st cursor pat cnt = None"
| "scan_session (Suc n) c st cursor pat cnt = (let (cur, ks) = store_scan c st cursor pat cnt in
     if cur = 0 then Some ks else map_option ((@) ks) (scan_session n c st cur pat cnt))"

definition slots_from :: "store \<Rightarrow> nat \<Rightarrow> nat \<Rightarrow> (nat \<times> nat) list" where
  "slots_from st sh i = (if sh < cm_shard_count (sdata st)
     then map (Pair sh) [i..<slot_count (sdata st) sh]
       @ concat (map (\<lambda>s. map (Pair s) [0..<slot_count (sdata st) s]) [Suc sh..<cm_shard_count (sdata st)])
     else [])"

definition hits :: "clock \<Rightarrow> store \<Rightarrow> string option \<Rightarrow> (nat \<times> nat) list \<Rightarrow> string list" where
  "hits c st pat ps = filter (scan_matches pat) (List.map_filter (live_slot c st) ps)"

lemma hits_append [simp]: "hits c st pat (ps @ qs) = hits c st pat ps @ hits c st pat qs"
  by (simp add: hits_def map_filter_append)

lemma slots_from_Cons:
  "sh < cm_shard_count (sdata st) \<Longrightarrow> i < slot_count (sdata st) sh \<Longrightarrow> slots_from st sh i = (sh, i) # slots_from st sh (Suc i)"
  by (simp add: slots_from_def upt_conv_Cons)

lemma slots_from_next:
  assumes "sh < cm_shard_count (sdata st)" "slot_count (sdata st) sh \<le> i"
  shows "slots_from st sh i = slots_from st (Suc sh) 0"
proof (cases "Suc sh < cm_shard_count (sdata st)")
  case True
  then show ?thesis using assms by (simp add: slots_from_def upt_conv_Cons [of "Suc sh"])
qed (use assms in \<open>simp add: slots_from_def\<close>)

lemma hits_single: "ks @ hits c st pat [p] =
    (case live_slot c st p of Some k \<Rightarrow> if scan_matches pat k then ks @ [k] else ks | None \<Rightarrow> ks)"
  by (simp add: hits_def map_filter_Cons map_filter_Nil split: option.split)

text \<open>A call either reaches the end, or stops at a slot that is still to be visited.\<close>

definition scan_outcome :: "clock \<Rightarrow> store \<Rightarrow> string option \<Rightarrow> nat \<Rightarrow> nat \<Rightarrow> string list \<Rightarrow> nat \<times> string list \<Rightarrow> bool" where
  "scan_outcome c st pat sh i ks r \<longleftrightarrow> r = (0, ks @ hits c st pat (slots_from st sh i))
     \<or> (\<exists>sh' i' vis. sh' < cm_shard_count (sdata st) \<and> i' < slot_count (sdata st) sh' \<and> (sh', i') \<noteq> (0, 0)
          \<and> slots_from st sh i = vis @ slots_from st sh' i' \<and> vis \<noteq> []
          \<and> r = (cursor_of sh' i', ks @ hits c st pat vis))"

lemma scan_outcome_end: "slots_from st sh i = vis \<Longrightarrow> scan_outcome c st pat sh i ks (0, ks @ hits c st pat vis)"
  by (simp add: scan_outcome_def)

lemma scan_outcome_stop:
  "sh' < cm_shard_count (sdata st) \<Longrightarrow> i' < slot_count (sdata st) sh' \<Longrightarrow> (sh', i') \<noteq> (0, 0) \<Longrightarrow> vis \<noteq> [] \<Longrightarrow>
    slots_from st sh i = vis @ slots_from st sh' i' \<Longrightarrow>
    scan_outcome c st pat sh i ks (cursor_of sh' i', ks @ hits c st pat vis)"
  unfolding scan_outcome_def by blast

lemma scan_outcome_step:
  assumes cons: "slots_from st sh i = [(sh, i)] @ slots_from st sh j"
    and out: "scan_outcome c st pat sh j (ks @ hits c st pat [(sh, i)]) r"
  shows "scan_outcome c st pat sh i ks r"
  using out [unfolded scan_outcome_def]
proof (elim disjE exE conjE)
  assume "r = (0, (ks @ hits c st pat [(sh, i)]) @ hits c st pat (slots_from st sh j))"
  then show ?thesis using scan_outcome_end [OF cons, of c pat ks] by (simp only: hits_append append_assoc)
next
  fix sh' i' vis
  assume v: "sh' < cm_shard_count (sdata st)" "i' < slot_count (sdata st) sh'" "(sh', i') \<noteq> (0, 0)"
    "slots_from st sh j = vis @ slots_from st sh' i'"
    and r: "r = (cursor_of sh' i', (ks @ hits c st pat [(sh, i)]) @ hits c st pat vis)"
  have "slots_from st sh i = ([(sh, i)] @ vis) @ slots_from st sh' i'" using cons v(4) by simp
  from scan_outcome_stop [OF v(1-3) _ this, of c pat ks] show ?thesis
    unfolding r by (simp only: hits_append append_assoc) simp
qed

lemma scan_loop_outcome:
  assumes pos: "\<And>s. s < cm_shard_count (sdata st) \<Longrightarrow> 0 < slot_count (sdata st) s"
  shows "scan_outcome c st pat sh i ks (scan_loop c st pat cnt sh i ks)"
  using pos
proof (induction c st pat cnt sh i ks rule: scan_loop.induct)
  case (1 c st pat cnt sh i ks)
  let ?n = "slot_count (sdata st) sh" and ?total = "cm_shard_count (sdata st)"
  let ?ks = "ks @ hits c st pat [(sh, i)]"
  note ks = hits_single [of ks c st pat "(sh, i)"]
  show ?case
  proof (cases "sh < ?total \<and> i < ?n")
    case True
    then have cons: "slots_from st sh i = [(sh, i)] @ slots_from st sh (Suc i)" by (simp add: slots_from_Cons)
    show ?thesis
    proof (cases "length ?ks \<ge> cnt")
      case stop: True
      have r: "scan_loop c st pat cnt sh i ks = (let (sh'', i'') = (if Suc i \<ge> ?n then (sh + 1, 0) else (sh, Suc i))
           in if sh'' \<ge> ?total then (0, ?ks) else (cursor_of sh'' i'', ?ks))"
        using True stop by (subst scan_loop.simps) (simp add: Let_def flip: ks)
      show ?thesis
      proof (cases "?n \<le> Suc i")
        case last: True
        then have next_shard: "slots_from st sh (Suc i) = slots_from st (Suc sh) 0" using True slots_from_next by blast
        show ?thesis
        proof (cases "Suc sh < ?total")
          case more: True
          have "scan_loop c st pat cnt sh i ks = (cursor_of (Suc sh) 0, ?ks)" using r last more by simp
          then show ?thesis
            using scan_outcome_stop [OF more 1(3) [OF more], of "[(sh, i)]" sh i] cons next_shard by simp
        next
          case none: False
          then have "slots_from st (Suc sh) 0 = []" by (simp add: slots_from_def)
          moreover have "scan_loop c st pat cnt sh i ks = (0, ?ks)" using r last none by simp
          ultimately show ?thesis using scan_outcome_end cons next_shard by simp
        qed
      next
        case False
        then have "scan_loop c st pat cnt sh i ks = (cursor_of sh (Suc i), ?ks)" using r True by simp
        then show ?thesis using scan_outcome_stop [of sh st "Suc i" "[(sh, i)]" sh i] True False cons by simp
      qed
    next
      case go: False
      then have r: "scan_loop c st pat cnt sh i ks = scan_loop c st pat cnt sh (Suc i) ?ks"
        using True by (subst scan_loop.simps) (simp add: Let_def flip: ks)
      have "scan_outcome c st pat sh (Suc i) ?ks (scan_loop c st pat cnt sh (Suc i) ?ks)"
        using 1(1) [OF refl refl] 1(3) True go by (simp add: Let_def flip: ks)
      then show ?thesis unfolding r by (rule scan_outcome_step [OF cons])
    qed
  next
    case False
    show ?thesis
    proof (cases "sh < ?total")
      case True
      with False have n: "?n \<le> i" by simp
      then have r: "scan_loop c st pat cnt sh i ks = scan_loop c st pat cnt (sh + 1) 0 ks"
        using True by (subst scan_loop.simps) (simp add: Let_def)
      have "scan_outcome c st pat (sh + 1) 0 ks (scan_loop c st pat cnt (sh + 1) 0 ks)"
        using 1(2) [OF refl refl] 1(3) True n by simp
      then show ?thesis unfolding r scan_outcome_def using slots_from_next [OF True n] by simp
    next
      case False
      then show ?thesis by (subst scan_loop.simps) (simp add: Let_def scan_outcome_def slots_from_def hits_def map_filter_Nil)
    qed
  qed
qed

text \<open>A cursor names a slot exactly while shards have at most two to the twentieth slots and there
  are at most 4096 of them.\<close>

lemma cursor_value: "i < 2 ^ 20 \<Longrightarrow> cursor_of sh i = sh * 2 ^ 20 + i"
proof -
  assume i: "i < 2 ^ 20"
  have "i AND 0xFFFFF = i" using i and_pow2_minus_1 [of i 20] by simp
  then have "cursor_of sh i = push_bit 20 sh OR take_bit 20 i" using i by (simp add: cursor_of_def take_bit_nat_eq_self)
  also have "\<dots> = push_bit 20 sh + take_bit 20 i"
    by (rule disjunctive_add [symmetric]) (auto simp: bit_push_bit_iff bit_take_bit_iff)
  finally show ?thesis using i by (simp add: push_bit_eq_mult take_bit_nat_eq_self)
qed

lemma cursor_decode:
  assumes "i < 2 ^ 20" "sh < 2 ^ 12"
  shows "drop_bit 20 (cursor_of sh i) AND 0xFFF = sh" "cursor_of sh i AND 0xFFFFF = i"
    and "(sh, i) \<noteq> (0, 0) \<Longrightarrow> cursor_of sh i \<noteq> 0"
proof -
  note v = cursor_value [OF assms(1), of sh]
  have "drop_bit 20 (cursor_of sh i) = sh" using assms(1) by (simp add: v drop_bit_eq_div)
  then show "drop_bit 20 (cursor_of sh i) AND 0xFFF = sh" using assms(2) and_pow2_minus_1 [of sh 12] by simp
  have "(sh * 2 ^ 20 + i) mod 2 ^ 20 = i" using assms(1) by simp
  then show "cursor_of sh i AND 0xFFFFF = i" using and_pow2_minus_1 [of "cursor_of sh i" 20] by (simp add: v)
  show "(sh, i) \<noteq> (0, 0) \<Longrightarrow> cursor_of sh i \<noteq> 0" by (auto simp: v)
qed

definition scannable :: "store \<Rightarrow> bool" where
  "scannable st \<longleftrightarrow> store_ok st \<and> cm_shard_count (sdata st) \<le> 2 ^ 12
     \<and> (\<forall>s<cm_shard_count (sdata st). slot_count (sdata st) s \<le> 2 ^ 20)"

lemma slot_count_pos: "store_ok st \<Longrightarrow> s < cm_shard_count (sdata st) \<Longrightarrow> 0 < slot_count (sdata st) s"
  using cm_wf_shard [of "sdata st" s]
  by (auto simp: store_ok_def cm_shard_count_def shard_wf_def table_wf_def table_shape_def slot_count_def)

lemma store_scan_at:
  assumes st: "scannable st" and p: "sh < cm_shard_count (sdata st)" "i < slot_count (sdata st) sh"
    and cur: "cursor = (if (sh, i) = (0, 0) then 0 else cursor_of sh i)"
  shows "store_scan c st cursor pat cnt = scan_loop c st pat cnt sh i []"
proof -
  have b: "i < 2 ^ 20" "sh < 2 ^ 12" using st p by (fastforce simp: scannable_def)+
  show ?thesis using p(1) cursor_decode [OF b] by (auto simp: store_scan_def Let_def cur)
qed

lemma scan_session_from:
  assumes st: "scannable st"
  shows "sh < cm_shard_count (sdata st) \<Longrightarrow> i < slot_count (sdata st) sh \<Longrightarrow>
    cursor = (if (sh, i) = (0, 0) then 0 else cursor_of sh i) \<Longrightarrow> length (slots_from st sh i) < n \<Longrightarrow>
    scan_session n c st cursor pat cnt = Some (hits c st pat (slots_from st sh i))"
proof (induction n arbitrary: sh i cursor)
  case (Suc n)
  have pos: "\<And>s. s < cm_shard_count (sdata st) \<Longrightarrow> 0 < slot_count (sdata st) s"
    using st slot_count_pos by (simp add: scannable_def)
  note scan = store_scan_at [OF st Suc.prems(1-3), of c pat cnt]
  have "scan_outcome c st pat sh i [] (scan_loop c st pat cnt sh i [])" by (rule scan_loop_outcome) (rule pos)
  then show ?case unfolding scan_outcome_def
  proof (elim disjE exE conjE)
    assume "scan_loop c st pat cnt sh i [] = (0, [] @ hits c st pat (slots_from st sh i))"
    then show ?thesis by (simp add: scan)
  next
    fix sh' i' vis
    assume v: "sh' < cm_shard_count (sdata st)" "i' < slot_count (sdata st) sh'" "(sh', i') \<noteq> (0, 0)"
      "slots_from st sh i = vis @ slots_from st sh' i'" "vis \<noteq> []"
      and r: "scan_loop c st pat cnt sh i [] = (cursor_of sh' i', [] @ hits c st pat vis)"
    have b: "i' < 2 ^ 20" "sh' < 2 ^ 12" using st v by (fastforce simp: scannable_def)+
    have "length (slots_from st sh' i') < n" using Suc.prems(4) v(4,5) by (cases vis) simp_all
    with Suc.IH [OF v(1,2), of "cursor_of sh' i'"] v(3)
    have "scan_session n c st (cursor_of sh' i') pat cnt = Some (hits c st pat (slots_from st sh' i'))" by auto
    then show ?thesis using cursor_decode(3) [OF b v(3)] by (simp add: scan r v(4))
  qed
qed simp

lemma peek_slot_pair:
  assumes ok: "store_ok st" and p: "sh < cm_shard_count (sdata st)" "i < slot_count (sdata st) sh"
  shows "cm_peek_slot (sdata st) sh i = Some (live_pair (slots (tbl (shards (sdata st) ! sh)) ! i))"
proof (cases "slots (tbl (shards (sdata st) ! sh)) ! i")
  case None
  then show ?thesis using p by (simp add: cm_peek_slot_def cm_shard_count_def slot_count_def live_pair_def Let_def)
next
  case (Some e)
  have wf: "cm_wf (sdata st)" and len: "sh < length (shards (sdata st))"
    using ok p(1) by (simp_all add: store_ok_def cm_shard_count_def)
  have "entry_ok (hasher (sdata st)) e" using slot_entry(3) [OF wf len p(2) Some] .
  then show ?thesis using p Some
    by (auto simp: cm_peek_slot_def cm_shard_count_def slot_count_def live_pair_def live_value_def entry_ok_def Let_def)
qed

lemma map_filter_bind: "(\<And>x. x \<in> set xs \<Longrightarrow> f x = Option.bind (g x) h) \<Longrightarrow>
    List.map_filter f xs = List.map_filter h (List.map_filter g xs)"
  by (induction xs) (auto simp: map_filter_Cons map_filter_Nil split: option.splits)

lemma map_filter_concat: "List.map_filter f (concat xss) = concat (map (List.map_filter f) xss)"
  by (induction xss) (simp_all add: map_filter_append map_filter_Nil)

lemma map_filter_map_Pair: "List.map_filter f (map (Pair s) xs) = List.map_filter (\<lambda>x. f (s, x)) xs"
  by (induction xs) (simp_all add: map_filter_Cons map_filter_Nil split: option.splits)

lemma slots_from_start: "0 < cm_shard_count (sdata st) \<Longrightarrow>
    slots_from st 0 0 = concat (map (\<lambda>s. map (Pair s) [0..<slot_count (sdata st) s]) [0..<cm_shard_count (sdata st)])"
  by (simp add: slots_from_def upt_conv_Cons)

text \<open>A traversal that looks at the pair of every slot looks at the pairs of the map.\<close>

lemma slots_all_pairs:
  assumes ok: "store_ok st"
    and f: "\<And>s i. s < cm_shard_count (sdata st) \<Longrightarrow> i < slot_count (sdata st) s \<Longrightarrow>
      f (s, i) = Option.bind (live_pair (slots (tbl (shards (sdata st) ! s)) ! i)) h"
  shows "List.map_filter f (concat (map (\<lambda>s. map (Pair s) [0..<slot_count (sdata st) s]) [0..<cm_shard_count (sdata st)]))
    = List.map_filter h (all_pairs (sdata st))"
proof -
  let ?m = "sdata st"
  have wf: "cm_wf ?m" using ok by (simp add: store_ok_def)
  have shard: "List.map_filter (\<lambda>i. f (s, i)) [0..<slot_count ?m s] = List.map_filter h (shard_pairs (shards ?m ! s))"
    if s: "s < length (shards ?m)" for s
  proof -
    have "List.map_filter (\<lambda>i. f (s, i)) [0..<slot_count ?m s] = List.map_filter h (slot_pairs ?m s [0..<slot_count ?m s])"
      unfolding slot_pairs_def by (rule map_filter_bind) (use f s in \<open>simp add: cm_shard_count_def\<close>)
    then show ?thesis by (simp only: slot_pairs_all [OF wf s])
  qed
  have all: "all_pairs ?m = concat (map (\<lambda>s. shard_pairs (shards ?m ! s)) [0..<length (shards ?m)])"
    unfolding all_pairs_def by (rule arg_cong [where f = concat], rule nth_equalityI) simp_all
  show ?thesis unfolding all map_filter_concat map_map cm_shard_count_def
    by (rule arg_cong [where f = concat]) (simp add: comp_def map_filter_map_Pair shard)
qed

lemma live_slots_all:
  assumes ok: "store_ok st" and pos: "0 < cm_shard_count (sdata st)"
  shows "List.map_filter (live_slot c st) (slots_from st 0 0)
    = List.map_filter (\<lambda>(k, sv). if is_expired c sv then None else Some k) (all_pairs (sdata st))"
  unfolding slots_from_start [OF pos]
  by (rule slots_all_pairs [OF ok]) (auto simp: live_slot_def peek_slot_pair [OF ok] split: option.split)



text \<open>In a shard with more than two to the twentieth slots the cursor of a later slot is the cursor
  of an earlier one: the slot number loses its high bits, so the traversal goes back.
\<close>

theorem scan_cursor_collides: "cursor_of sh (2 ^ 20 + i) = cursor_of sh i"
proof -
  have "(2 ^ 20 + i) AND 0xFFFFF = i AND (0xFFFFF :: nat)"
    using and_pow2_minus_1 [of "2 ^ 20 + i" 20] and_pow2_minus_1 [of i 20] by simp
  then show ?thesis by (simp add: cursor_of_def)
qed

end
