(* ===== verification/Typed_Store.thy ===== *)
theory Typed_Store
  imports Store
begin

text \<open>
  What the commands on one kind of value have in common.  A key is absent, holds a value of the
  kind, or holds another kind of value; a command on one key is specified by what it does in each
  of the three cases.  The locale \<open>typed_view\<close> relates the shapes of \<open>Store\<close> to such
  specifications, over a kind of value with an abstraction of its values and an invariant; the
  command theories interpret it and obtain a simulation of any sequence of commands.
\<close>

section \<open>Cells\<close>

datatype 'a cell = Absent | Here 'a | Other

definition cell_of :: "(fyrodb \<Rightarrow> 'v option) \<Rightarrow> ('v \<Rightarrow> 'a) \<Rightarrow> fyrodb option \<Rightarrow> 'a cell" where
  "cell_of get view x = (case x of None \<Rightarrow> Absent
     | Some v \<Rightarrow> (case get v of None \<Rightarrow> Other | Some y \<Rightarrow> Here (view y)))"

definition cells :: "(fyrodb \<Rightarrow> 'v option) \<Rightarrow> ('v \<Rightarrow> 'a) \<Rightarrow> clock \<Rightarrow> store \<Rightarrow> string \<Rightarrow> 'a cell" where
  "cells get view c st k = cell_of get view (live c st k)"

text \<open>The values of the kind satisfy their invariant, and no entry is expired.\<close>

definition kind_inv :: "(fyrodb \<Rightarrow> 'v option) \<Rightarrow> ('v \<Rightarrow> bool) \<Rightarrow> clock \<Rightarrow> store \<Rightarrow> bool" where
  "kind_inv get good c st \<longleftrightarrow> store_ok st \<and> fresh c st \<and> (\<forall>k v x. live c st k = Some v \<longrightarrow> get v = Some x \<longrightarrow> good x)"

text \<open>A specification says, for a command, the cell and the reply on an absent key, the value and the
  reply on a value of the kind, and the reply on any other value, which stays as it is.\<close>

type_synonym ('cmd, 'a, 'r) cell_rules =
  "('cmd \<Rightarrow> 'a option \<times> 'r) \<times> ('cmd \<Rightarrow> 'a \<Rightarrow> 'a \<times> 'r) \<times> ('cmd \<Rightarrow> 'r)"

definition opt_cell :: "'a option \<Rightarrow> 'a cell" where
  "opt_cell x = (case x of None \<Rightarrow> Absent | Some y \<Rightarrow> Here y)"

definition cell_spec ::
  "('cmd, 'a, 'r) cell_rules \<Rightarrow> string \<times> 'cmd \<Rightarrow> (string \<Rightarrow> 'a cell) \<Rightarrow> (string \<Rightarrow> 'a cell) \<times> 'r" where
  "cell_spec rules = (\<lambda>(k, cmd) a. case rules of (absent, here, other) \<Rightarrow> (case a k of
      Absent \<Rightarrow> (a(k := opt_cell (fst (absent cmd))), snd (absent cmd))
    | Here x \<Rightarrow> (a(k := Here (fst (here cmd x))), snd (here cmd x))
    | Other \<Rightarrow> (a, other cmd)))"

lemma cell_of_simps [simp]:
  "cell_of get view None = Absent" "get v = None \<Longrightarrow> cell_of get view (Some v) = Other"
  "get v = Some x \<Longrightarrow> cell_of get view (Some v) = Here (view x)"
  "opt_cell None = Absent" "opt_cell (Some y) = Here y"
  by (simp_all add: cell_of_def opt_cell_def)

lemma fresh_new [simp]: "fresh c (store_with_config hs n l)"
  by (simp add: fresh_def)

lemma kind_inv_new [simp]: "kind_inv get good c (store_with_config hs n l)"
  by (simp add: kind_inv_def live_def)

lemma cells_new [simp]: "cells get view c (store_with_config hs n l) = (\<lambda>_. Absent)"
  by (simp add: cells_def live_def fun_eq_iff)

lemma read_map:
  "map_sum id F (read_value c get st k d f) = read_value c get st k (map_sum id F d) (\<lambda>x. map_sum id F (f x))"
  "store_ok st \<Longrightarrow> map_sum id F (read_locked c get st k d f) = read_locked c get st k (map_sum id F d) (\<lambda>x. map_sum id F (f x))"
  by (auto simp: read_value_def read_locked_live split: option.split)

section \<open>Shapes that act on one cell\<close>

text \<open>A step from \<open>st\<close> that does to the cell of \<open>k\<close> what the rules say.\<close>

definition cell_step :: "(fyrodb \<Rightarrow> 'v option) \<Rightarrow> ('v \<Rightarrow> 'a) \<Rightarrow> ('v \<Rightarrow> bool) \<Rightarrow> clock \<Rightarrow> store \<Rightarrow> string
    \<Rightarrow> ('a option \<times> 'r) \<Rightarrow> ('a \<Rightarrow> 'a \<times> 'r) \<Rightarrow> 'r \<Rightarrow> store \<times> 'r \<Rightarrow> bool" where
  "cell_step get view good c st k absent here other = (\<lambda>(st', r). kind_inv get good c st' \<and> (case cells get view c st k of
      Absent \<Rightarrow> cells get view c st' = (cells get view c st)(k := opt_cell (fst absent)) \<and> r = snd absent
    | Here x \<Rightarrow> cells get view c st' = (cells get view c st)(k := Here (fst (here x))) \<and> r = snd (here x)
    | Other \<Rightarrow> cells get view c st' = cells get view c st \<and> r = other))"

lemma cell_step_reply:
  assumes "cell_step get view good c st k (x, d) here other res"
    and "absent' = (x, R d)" "\<And>y. here' y = (fst (here y), R (snd (here y)))" "other' = R other"
  shows "cell_step get view good c st k absent' here' other' (map_prod id R res)"
  using assms by (auto simp: cell_step_def split: cell.splits)

locale typed_view = value_kind get put
  for get :: "fyrodb \<Rightarrow> 'v option" and put :: "'v \<Rightarrow> fyrodb" +
  fixes view :: "'v \<Rightarrow> 'a" and good :: "'v \<Rightarrow> bool"
begin

lemma kind_inv_update:
  assumes "kind_inv get good c st" "store_ok st'" "fresh c st'" "live c st' = (live c st)(k := x)"
    "\<And>v y. x = Some v \<Longrightarrow> get v = Some y \<Longrightarrow> good y"
  shows "kind_inv get good c st'"
  using assms unfolding kind_inv_def by (metis fun_upd_apply)

text \<open>An update in place, or a default for an absent key.\<close>

lemma update_step:
  assumes inv: "kind_inv get good c st"
    and act: "\<And>x. good x \<Longrightarrow> good (fst (act x)) \<and> view (fst (act x)) = fst (here (view x)) \<and> snd (act x) = snd (here (view x))"
  shows "cell_step get view good c st k (None, d) here (Err WRONGTYPE) (update_or st k (on_value c get put ex act) d)"
proof -
  have ok: "store_ok st" "fresh c st" using inv by (simp_all add: kind_inv_def)
  obtain st' r where r: "update_or st k (on_value c get put ex act) d = (st', r)" by fastforce
  note up = update_fresh [OF ok, of k ex act d, unfolded r fst_conv snd_conv]
  have goodx: "good x" if "live c st k = Some v" "get v = Some x" for v x using inv that by (auto simp: kind_inv_def)
  have ok': "store_ok st'" using update_or_laws(3) [OF ok(1), of k "on_value c get put ex act" d] r by simp
  have inv': "kind_inv get good c st'"
    by (rule kind_inv_update [OF inv ok' up(3,2)]) (auto simp: act goodx split: option.splits)
  show ?thesis
  proof (cases "live c st k")
    case None
    then show ?thesis using inv' up(1,2) by (simp add: r cell_step_def cells_def fun_eq_iff)
  next
    case (Some v)
    then show ?thesis using inv' up(1) act goodx
      by (cases "get v") (auto simp: r cell_step_def cells_def up(2) fun_eq_iff)
  qed
qed

text \<open>An update in place, or the insertion of a new value.\<close>

lemma upsert_step:
  assumes inv: "kind_inv get good c st" and w: "good w" "view w = y"
    and act: "\<And>x. good x \<Longrightarrow> good (fst (act x)) \<and> view (fst (act x)) = fst (here (view x)) \<and> snd (act x) = snd (here (view x))"
  shows "cell_step get view good c st k (Some y, d) here (Err WRONGTYPE)
    (upsert st k (on_value c get put ex act) (sv_plain (put w)) d)"
proof -
  have ok: "store_ok st" "fresh c st" using inv by (simp_all add: kind_inv_def)
  obtain st' r where r: "upsert st k (on_value c get put ex act) (sv_plain (put w)) d = (st', r)" by fastforce
  note up = upsert_fresh [OF ok, of k ex act "put w" d, unfolded r fst_conv snd_conv]
  have goodx: "good x" if "live c st k = Some v" "get v = Some x" for v x using inv that by (auto simp: kind_inv_def)
  have ok': "store_ok st'" using upsert_laws(3) [OF ok(1), of k "on_value c get put ex act" "sv_plain (put w)" d] r by simp
  have inv': "kind_inv get good c st'"
    by (rule kind_inv_update [OF inv ok' up(3,2)]) (use w in \<open>auto simp: act goodx split: option.splits\<close>)
  show ?thesis
  proof (cases "live c st k")
    case None
    then show ?thesis using inv' up(1) w
      by (auto simp: r cell_step_def cells_def up(2) fun_eq_iff)
  next
    case (Some v)
    then show ?thesis using inv' up(1) act goodx
      by (cases "get v") (auto simp: r cell_step_def cells_def up(2) fun_eq_iff)
  qed
qed

text \<open>A read, which changes nothing.\<close>

lemma read_step:
  assumes inv: "kind_inv get good c st" and f: "\<And>x. good x \<Longrightarrow> f x = g (view x)"
  shows "cell_step get view good c st k (None, d) (\<lambda>x. (x, g x)) (Err WRONGTYPE) (st, read_value c get st k d f)"
    and "cell_step get view good c st k (None, d) (\<lambda>x. (x, g x)) (Err WRONGTYPE) (st, read_locked c get st k d f)"
proof -
  have ok: "store_ok st" using inv by (simp add: kind_inv_def)
  have "good x" if "live c st k = Some v" "get v = Some x" for v x using inv that by (auto simp: kind_inv_def)
  then show "cell_step get view good c st k (None, d) (\<lambda>x. (x, g x)) (Err WRONGTYPE) (st, read_value c get st k d f)"
    "cell_step get view good c st k (None, d) (\<lambda>x. (x, g x)) (Err WRONGTYPE) (st, read_locked c get st k d f)"
    using inv f by (auto simp: cell_step_def cells_def cell_of_def read_value_live [OF ok] read_locked_live [OF ok]
        fun_eq_iff split: option.splits)
qed

text \<open>Steps by the rules make a simulation.\<close>

lemma guarded_of_steps:
  assumes "\<And>st k cmd. pre cmd \<Longrightarrow> kind_inv get good c st \<Longrightarrow>
    cell_step get view good c st k (absent cmd) (here cmd) (other cmd) (exec (k, cmd) st)"
  shows "guarded_simulation (\<lambda>(k, cmd). pre cmd) (kind_inv get good c) (cells get view c) exec (cell_spec (absent, here, other))"
proof (unfold_locales)
  fix st and op :: "string \<times> 'b"
  assume pre: "case op of (k, cmd) \<Rightarrow> pre cmd" and inv: "kind_inv get good c st"
  obtain k cmd where op: "op = (k, cmd)" by fastforce
  obtain st' r where r: "exec (k, cmd) st = (st', r)" by fastforce
  show "kind_inv get good c (fst (exec op st))"
    "cells get view c (fst (exec op st)) = fst (cell_spec (absent, here, other) op (cells get view c st))"
    "snd (exec op st) = snd (cell_spec (absent, here, other) op (cells get view c st))"
    using assms [of cmd, OF _ inv, of k] pre by (auto simp: op r cell_step_def cell_spec_def split: cell.splits)
qed

lemma simulation_of_steps:
  assumes "\<And>st k cmd. kind_inv get good c st \<Longrightarrow> cell_step get view good c st k (absent cmd) (here cmd) (other cmd) (exec (k, cmd) st)"
  shows "simulation (kind_inv get good c) (cells get view c) exec (cell_spec (absent, here, other))"
  using guarded_of_steps [of "\<lambda>_. True" c absent here other exec, OF assms]
  by (simp add: guarded_simulation_def simulation_def case_prod_beta)

end

section \<open>Updates that insert if absent and try again\<close>

text \<open>\<open>match self.data.update_with(key, f) { Some(r) => r, None => if self.data.insert_if_absent(key, v)
  { d } else { retry } }\<close>\<close>

partial_function (option) upsert_retry ::
  "store \<Rightarrow> string \<Rightarrow> (store_value \<Rightarrow> store_value \<times> 'r) \<Rightarrow> store_value \<Rightarrow> 'r \<Rightarrow> (store \<times> 'r) option" where
  "upsert_retry st k f v d = (case cm_update_with (sdata st) k f of
      (m, Some r) \<Rightarrow> Some (st\<lparr>sdata := m\<rparr>, r)
    | (m, None) \<Rightarrow> (case cm_insert_if_absent m k v of
        (m', inserted) \<Rightarrow> if inserted then Some (st\<lparr>sdata := m'\<rparr>, d) else upsert_retry (st\<lparr>sdata := m'\<rparr>) k f v d))"

text \<open>With no other thread the first attempt succeeds, with the effect of \<open>upsert\<close>.\<close>

lemma upsert_retry_returns:
  assumes ok: "store_ok st"
  obtains st' where "upsert_retry st k f v d = Some (st', snd (upsert st k f v d))"
    "db st' = db (fst (upsert st k f v d))" "store_ok st'" "same_counters st st'"
proof -
  define m where "m = fst (cm_update_with (sdata st) k f)"
  note laws = store_update_with [OF ok, of k f, folded m_def]
  have up: "cm_update_with (sdata st) k f = (m, map_option (snd \<circ> f) (db st k))"
    using laws(1) by (simp add: m_def prod_eq_iff)
  show ?thesis
  proof (cases "db st k")
    case None
    have lk: "cm_lookup m k = None" using laws(2) None by simp
    obtain m' where ins: "cm_insert_if_absent m k v = (m', True)" "cm_wf m'" "cm_lookup m' = (cm_lookup m)(k \<mapsto> v)"
      using cm_insert_if_absent_ok [OF laws(3), of k v] lk by (cases "cm_insert_if_absent m k v") auto
    have "upsert_retry st k f v d = Some (st\<lparr>sdata := m'\<rparr>, d)"
      by (subst upsert_retry.simps) (simp add: up None ins(1))
    then show ?thesis using that [of "st\<lparr>sdata := m'\<rparr>"] ins laws(2) None
      by (simp add: upsert_laws [OF ok] same_counters_def)
  next
    case (Some sv)
    have "upsert_retry st k f v d = Some (st\<lparr>sdata := m\<rparr>, snd (f sv))"
      by (subst upsert_retry.simps) (simp add: up Some)
    then show ?thesis using that [of "st\<lparr>sdata := m\<rparr>"] laws(2,3) Some
      by (simp add: upsert_laws [OF ok] same_counters_def)
  qed
qed

context typed_view
begin

lemma retry_step:
  assumes inv: "kind_inv get good c st" and w: "good w" "view w = y"
    and act: "\<And>x. good x \<Longrightarrow> good (fst (act x)) \<and> view (fst (act x)) = fst (here (view x)) \<and> snd (act x) = snd (here (view x))"
  obtains st' r where "upsert_retry st k (on_value c get put ex act) (sv_plain (put w)) d = Some (st', r)"
    "cell_step get view good c st k (Some y, d) here (Err WRONGTYPE) (st', r)"
proof -
  let ?f = "on_value c get put ex act"
  have ok: "store_ok st" using inv by (simp add: kind_inv_def)
  obtain st' where st': "upsert_retry st k ?f (sv_plain (put w)) d = Some (st', snd (upsert st k ?f (sv_plain (put w)) d))"
    "db st' = db (fst (upsert st k ?f (sv_plain (put w)) d))" "store_ok st'"
    using upsert_retry_returns [OF ok] by metis
  obtain st1 r where r: "upsert st k ?f (sv_plain (put w)) d = (st1, r)" by fastforce
  have step: "cell_step get view good c st k (Some y, d) here (Err WRONGTYPE) (st1, r)"
    using upsert_step [where act = act and here = here and k = k and d = d and ex = ex, OF inv w] act by (simp add: r)
  have "live c st' = live c st1" using st'(2) by (intro live_congD) (simp add: r)
  moreover have "fresh c st' = fresh c st1" using st'(2) by (simp add: fresh_def r)
  ultimately have "cell_step get view good c st k (Some y, d) here (Err WRONGTYPE) (st', r)"
    using step st'(3) by (simp add: cell_step_def kind_inv_def cells_def [abs_def] case_prod_beta split: cell.splits)
  then show thesis using that st'(1) by (simp add: r)
qed

end

end
