(* ===== verification/F64_Text.thy ===== *)
theory F64_Text
  imports F64 Rust_Std
begin

text \<open>
  Floating-point numbers as text: \<open>str::parse::<f64>\<close> and the fixed-precision formatting
  \<open>{:.17}\<close> of the standard library, both of which round to nearest with ties to even, and
  \<open>format_float\<close> of \<open>src/src/utils/util.rs\<close>, which removes trailing zeros and a trailing point.
  Whole numbers below two to the fifty-third survive a round trip.
\<close>

section \<open>Parsing\<close>

definition ascii_lower :: "char \<Rightarrow> char" where
  "ascii_lower c = (let n = (of_char c :: nat) in if 65 \<le> n \<and> n \<le> 90 then char_of (n + 32) else c)"

definition digits_val :: "string \<Rightarrow> nat" where
  "digits_val ds = foldl (\<lambda>a c. a * 10 + digit_val c) 0 ds"

text \<open>The number nearest to \<open>m * 10 ^ e\<close>: three extra bits, the last of which stands for everything below.\<close>

definition f_of_decimal :: "bool \<Rightarrow> nat \<Rightarrow> int \<Rightarrow> f64" where
  "f_of_decimal neg m e = (let num = m * 10 ^ nat e * 2 ^ 1074; den = 10 ^ nat (- e) in
     f_round neg (num * 4 div den * 2 + (if num * 4 mod den = 0 then 0 else 1)) 3)"

definition split_sign :: "string \<Rightarrow> bool \<times> string" where
  "split_sign s = (case s of [] \<Rightarrow> (False, [])
     | c # cs \<Rightarrow> if c = CHR ''-'' then (True, cs) else if c = CHR ''+'' then (False, cs) else (False, s))"

definition parse_exponent :: "string \<Rightarrow> int option" where
  "parse_exponent s = (case s of [] \<Rightarrow> Some 0
     | c # cs \<Rightarrow> if ascii_lower c \<noteq> CHR ''e'' then None
         else (let (neg, ds) = split_sign cs in
           map_option (\<lambda>n. if neg then - int n else int n) (parse_digits ds)))"

definition parse_f64_number :: "bool \<Rightarrow> string \<Rightarrow> f64 option" where
  "parse_f64_number neg s = (let ip = takeWhile is_ascii_digit s; r = dropWhile is_ascii_digit s;
       (fp, r') = (case r of [] \<Rightarrow> ([], [])
         | c # cs \<Rightarrow> if c = CHR ''.'' then (takeWhile is_ascii_digit cs, dropWhile is_ascii_digit cs) else ([], r))
     in if ip = [] \<and> fp = [] then None
        else map_option (\<lambda>e. f_of_decimal neg (digits_val (ip @ fp)) (e - int (length fp))) (parse_exponent r'))"

definition parse_f64 :: "string \<Rightarrow> f64 option" where
  "parse_f64 s = (let (neg, r) = split_sign s; w = map ascii_lower r in
     if w = ''inf'' \<or> w = ''infinity'' then Some (f_make neg f_inf_bits)
     else if w = ''nan'' then Some (f_make neg (f_inf_bits + 2 ^ 51))
     else parse_f64_number neg r)"

section \<open>Printing\<close>

primrec padded_digits :: "nat \<Rightarrow> nat \<Rightarrow> string" where
  "padded_digits 0 n = []"
| "padded_digits (Suc w) n = padded_digits w (n div 10) @ [digit_char (n mod 10)]"

definition fixed_17 :: "f64 \<Rightarrow> string" where
  "fixed_17 x = (if f_is_nan x then ''NaN''
     else (if f_neg x then ''-'' else []) @
       (if f_is_infinite x then ''inf''
        else let n = round_half_even (f_magnitude x * 10 ^ 17) 1074
             in nat_to_string (n div 10 ^ 17) @ ''.'' @ padded_digits 17 (n mod 10 ^ 17)))"

definition trim_end_matches :: "char \<Rightarrow> string \<Rightarrow> string" where
  "trim_end_matches c s = rev (dropWhile (\<lambda>d. d = c) (rev s))"

definition format_float :: "f64 \<Rightarrow> string" where
  "format_float x = trim_end_matches CHR ''.'' (trim_end_matches CHR ''0'' (fixed_17 x))"

section \<open>Minimum and maximum\<close>

text \<open>\<open>f64::min\<close> and \<open>f64::max\<close> return the other argument when one is NaN.\<close>

definition f_min :: "f64 \<Rightarrow> f64 \<Rightarrow> f64" where
  "f_min a b = (if f_is_nan a then b else if f_is_nan b then a else if f_lt b a then b else a)"

definition f_max :: "f64 \<Rightarrow> f64 \<Rightarrow> f64" where
  "f_max a b = (if f_is_nan a then b else if f_is_nan b then a else if f_lt a b then b else a)"

section \<open>Whole numbers\<close>

lemma bit_length_less: "n < 2 ^ bit_length n"
proof (induction n rule: bit_length.induct)
  case (1 n)
  show ?case
  proof (cases "n = 0")
    case False
    then have "n div 2 < 2 ^ bit_length (n div 2)" using 1 by simp
    then show ?thesis using False by (subst bit_length.simps) simp
  qed (simp add: bit_length.simps)
qed

lemma bit_length_ge: "0 < n \<Longrightarrow> 2 ^ (bit_length n - 1) \<le> n"
proof (induction n rule: bit_length.induct)
  case (1 n)
  show ?case
  proof (cases "n div 2 = 0")
    case True
    then show ?thesis using 1(2) by (simp add: bit_length.simps)
  next
    case False
    then have IH: "2 ^ (bit_length (n div 2) - 1) \<le> n div 2" using 1 by simp
    have "bit_length (n div 2) = Suc (bit_length (n div 2) - 1)"
      using False by (metis bit_length.simps diff_Suc_1)
    then have "bit_length n - 1 = Suc (bit_length (n div 2) - 1)"
      using 1(2) by (subst bit_length.simps) simp
    then show ?thesis using IH by simp
  qed
qed

lemma bit_length_double: "0 < n \<Longrightarrow> bit_length (n * 2 ^ k) = bit_length n + k"
proof (induction k)
  case (Suc k)
  have "bit_length (n * 2 ^ Suc k) = Suc (bit_length (n * 2 ^ Suc k div 2))"
    using Suc.prems by (subst bit_length.simps) simp
  then show ?case using Suc by (simp add: mult.assoc [symmetric])
qed simp

lemma bit_length_le: "n < 2 ^ w \<Longrightarrow> bit_length n \<le> w"
proof (cases "n = 0")
  case False
  assume w: "n < 2 ^ w"
  have "2 ^ (bit_length n - 1) \<le> n" using False by (intro bit_length_ge) simp
  also note w
  finally have "bit_length n - 1 < w" by (rule power_less_imp_less_exp [rotated]) simp
  then show ?thesis by simp
qed (simp add: bit_length.simps [of 0])

lemma round_half_even_exact: "round_half_even (q * 2 ^ k) k = q"
  by (simp add: round_half_even_def Let_def)

lemma f_round_exact:
  assumes m: "m < 2 ^ 53" "0 < m" and s: "s \<le> k" "k \<le> s + 1074"
  shows "f_round_bits (m * 2 ^ k) s < f_inf_bits"
    and "f_magnitude (f_make neg (f_round_bits (m * 2 ^ k) s)) = m * 2 ^ (k - s)"
proof -
  define L where "L = bit_length m + k - s"
  define e where "e = L - 53"
  define sig where "sig = m * 2 ^ (k - s - e)"
  have bl: "bit_length m \<le> 53" "0 < bit_length m"
    using bit_length_le [OF m(1)] m(2) by (simp_all add: bit_length.simps [of m])
  have e: "e \<le> k - s" "bit_length (m * 2 ^ k) - s - 53 = e" using bl(1) s(1) m(2) by (simp_all add: e_def L_def bit_length_double)
  have "m * 2 ^ k = sig * 2 ^ (e + s)"
    using e(1) s(1) by (simp add: sig_def mult.assoc flip: power_add)
  then have r: "round_half_even (m * 2 ^ k) (e + s) = sig" by (simp add: round_half_even_exact)
  have lensig: "bit_length sig = L - e" using m(2) e(1) s(1) by (simp add: sig_def bit_length_double L_def)
  have lt: "sig < 2 ^ 53"
  proof -
    have "sig < 2 ^ (L - e)" using bit_length_less [of sig] lensig by simp
    also have "(2 :: nat) ^ (L - e) \<le> 2 ^ 53" by (rule power_increasing) (simp_all add: e_def)
    finally show ?thesis .
  qed
  have "k - s - e + e = k - s" using e(1) by simp
  then have val: "sig * 2 ^ e = m * 2 ^ (k - s)" unfolding sig_def mult.assoc power_add [symmetric] by simp
  have ebound: "e \<le> 1074" using e(1) s(2) by simp
  define b where "b = e * 2 ^ 52 + sig"
  have bound: "b < f_inf_bits" using ebound lt by (simp add: f_inf_bits_def b_def)
  then have bits: "f_round_bits (m * 2 ^ k) s = b"
    unfolding f_round_bits_def Let_def e(2) r b_def [symmetric] by simp
  show "f_round_bits (m * 2 ^ k) s < f_inf_bits" using bound by (simp add: bits)
  have fb: "f_bits (f_make neg b) = b" using bound by (simp add: f_inf_bits_def)
  show "f_magnitude (f_make neg (f_round_bits (m * 2 ^ k) s)) = m * 2 ^ (k - s)"
  proof (cases "2 ^ 52 \<le> sig")
    case True
    then have "sig div 2 ^ 52 = 1" "sig mod 2 ^ 52 = sig - 2 ^ 52" using lt by (simp_all add: div_nat_eqI le_mod_geq)
    then have "b div 2 ^ 52 = e + 1" "b mod 2 ^ 52 = sig - 2 ^ 52" by (simp_all add: b_def)
    then show ?thesis using val True unfolding bits f_magnitude_def f_exponent_def f_fraction_def fb by simp
  next
    case False
    have "e = 0"
    proof (rule ccontr)
      assume "e \<noteq> 0"
      then have "bit_length sig = 53" using lensig by (simp add: e_def)
      moreover have "0 < sig" using m(2) by (simp add: sig_def)
      ultimately show False using bit_length_ge [of sig] False by simp
    qed
    then have "b = sig" by (simp add: b_def)
    then show ?thesis using val False \<open>e = 0\<close> unfolding bits f_magnitude_def f_exponent_def f_fraction_def fb by simp
  qed
qed

lemma f_of_nat_magnitude:
  assumes "n < 2 ^ 53"
  shows "f_magnitude (f_of_nat n) = n * 2 ^ 1074" "f_bits (f_of_nat n) < f_inf_bits" "\<not> f_neg (f_of_nat n)"
proof -
  have "f_magnitude (f_of_nat n) = n * 2 ^ 1074 \<and> f_bits (f_of_nat n) < f_inf_bits \<and> \<not> f_neg (f_of_nat n)"
  proof (cases "n = 0")
    case True
    then show ?thesis
      by (simp add: f_of_nat_def f_round_def f_round_bits_def round_half_even_def bit_length.simps [of 0] Let_def
        f_magnitude_def f_exponent_def f_fraction_def f_inf_bits_def)
  next
    case False
    then have "0 < n" by simp
    note ex = f_round_exact [OF assms this, of 0 1074]
    have lt: "f_round_bits (n * 2 ^ 1074) 0 < 2 ^ 63" using ex(1) by (simp add: f_inf_bits_def)
    show ?thesis using ex(1) ex(2) [of False] f_bits_make [OF lt] unfolding f_of_nat_def f_round_def by simp
  qed
  then show "f_magnitude (f_of_nat n) = n * 2 ^ 1074" "f_bits (f_of_nat n) < f_inf_bits" "\<not> f_neg (f_of_nat n)"
    by simp_all
qed

lemma padded_zero: "padded_digits w 0 = replicate w CHR ''0''"
proof (induction w)
  case (Suc w)
  then show ?case by (simp add: replicate_append_same)
qed simp

lemma trim_digits:
  "trim_end_matches CHR ''.'' (trim_end_matches CHR ''0'' (nat_to_string n @ ''.'' @ replicate w CHR ''0'')) = nat_to_string n"
proof -
  have "dropWhile (\<lambda>d. d = CHR ''0'') (replicate w CHR ''0'' @ CHR ''.'' # xs) = CHR ''.'' # xs" for xs
    by (induction w) simp_all
  moreover have "dropWhile (\<lambda>d. d = CHR ''.'') (rev (nat_to_string n)) = rev (nat_to_string n)"
  proof (cases "rev (nat_to_string n)")
    case (Cons c cs)
    then have "c \<in> set (nat_to_string n)" by (metis list.set_intros(1) set_rev)
    then have "is_ascii_digit c" by (rule nat_to_string_digits)
    then have "c \<noteq> CHR ''.''" by (auto simp: is_ascii_digit_def)
    then show ?thesis using Cons by simp
  qed simp
  ultimately show ?thesis by (simp add: trim_end_matches_def)
qed

lemma round_half_even_decimal: "round_half_even (n * 2 ^ k * d) k = n * d"
  using round_half_even_exact [of "n * d" k] by (simp only: ac_simps)

lemma format_float_nat: "n < 2 ^ 53 \<Longrightarrow> format_float (f_of_nat n) = nat_to_string n"
proof -
  assume n: "n < 2 ^ 53"
  note f = f_of_nat_magnitude [OF n]
  have kind: "\<not> f_is_nan (f_of_nat n)" "\<not> f_is_infinite (f_of_nat n)"
    using f(2) by (simp_all add: f_is_nan_def f_is_infinite_def)
  have "n * 10 ^ 17 div 10 ^ 17 = n" "n * 10 ^ 17 mod 10 ^ 17 = 0" by simp_all
  then have "fixed_17 (f_of_nat n) = nat_to_string n @ ''.'' @ replicate 17 CHR ''0''"
    using kind f(3) unfolding fixed_17_def f(1) round_half_even_decimal Let_def
    by (simp only: padded_zero if_False append_Nil)
  then show ?thesis by (simp only: format_float_def trim_digits)
qed

lemma digits_val_nat_to_string: "digits_val (nat_to_string n) = n"
proof (induction n rule: nat_to_string.induct)
  case (1 n)
  show ?case
  proof (cases "n < 10")
    case True
    then show ?thesis by (simp add: digits_val_def)
  next
    case False
    then have "digits_val (nat_to_string (n div 10)) = n div 10" using 1 by simp
    then show ?thesis using False by (simp add: nat_to_string_step digits_val_def)
  qed
qed

lemma round_half_even_scale: "round_half_even (n * 2 ^ j) (k + j) = round_half_even n k"
proof -
  have "n * 2 ^ j div 2 ^ (k + j) = n div 2 ^ k" by (simp add: power_add)
  moreover have "n * 2 ^ j mod 2 ^ (k + j) = n mod 2 ^ k * 2 ^ j" by (simp add: power_add)
  moreover have "2 * (r * 2 ^ j) > 2 ^ (k + j) \<longleftrightarrow> 2 * r > (2 :: nat) ^ k" "2 * (r * 2 ^ j) = 2 ^ (k + j) \<longleftrightarrow> 2 * r = (2 :: nat) ^ k" for r
    by (simp_all add: power_add mult.assoc [symmetric])
  ultimately show ?thesis unfolding round_half_even_def Let_def by simp
qed

lemma f_round_scale: "0 < n \<Longrightarrow> f_round neg (n * 2 ^ j) (s + j) = f_round neg n s"
proof -
  assume "0 < n"
  then have "bit_length (n * 2 ^ j) - (s + j) - 53 = bit_length n - s - 53" by (simp add: bit_length_double)
  moreover have "round_half_even (n * 2 ^ j) (e + (s + j)) = round_half_even n (e + s)" for e
    using round_half_even_scale [of n j "e + s"] by (simp only: add.assoc)
  ultimately show ?thesis unfolding f_round_def f_round_bits_def Let_def by simp
qed

lemma f_of_decimal_nat: "f_of_decimal False n 0 = f_of_nat n"
proof (cases "n = 0")
  case True
  have "f_round False 0 3 = f_round False 0 0"
    by (simp add: f_round_def f_round_bits_def round_half_even_def Let_def bit_length.simps [of 0])
  then show ?thesis unfolding f_of_decimal_def f_of_nat_def Let_def True by simp
next
  case False
  have "f_round False (n * 2 ^ k * 4 div 1 * 2 + 0) 3 = f_round False (n * 2 ^ k) 0" for k
  proof -
    have "n * 2 ^ k * 4 div 1 * 2 + 0 = n * 2 ^ k * 2 ^ 3" by simp
    then show ?thesis using f_round_scale [of "n * 2 ^ k" False 3 0] False by (simp only: add_0 zero_less_mult_iff) simp
  qed
  then show ?thesis unfolding f_of_decimal_def f_of_nat_def Let_def
    by (simp only: nat_0 power_0 mult_1_right minus_zero mod_by_1 simp_thms if_True)
qed



end
