(* ===== verification/Lcs.thy ===== *)
theory Lcs
  imports Rust_Std "HOL-Library.Sublist"
begin

text \<open>
  The longest common subsequence of two byte strings, the computation of \<open>Store::lcs\<close> in
  \<open>src/src/storage/string.rs\<close>: a table of 16-bit lengths filled row by row, and a walk back from
  its last cell.  (The source first computes the last row alone, only to size the result vector.)
\<close>

section \<open>The computation\<close>

definition add_u16 :: "nat \<Rightarrow> nat \<Rightarrow> nat" where
  "add_u16 a b = (a + b) mod 2 ^ 16"

text \<open>The cells of a row after the first: \<open>prev\<close> is the row above from the column to the left on,
  \<open>left\<close> the cell before.\<close>

fun row_cells :: "char \<Rightarrow> string \<Rightarrow> nat list \<Rightarrow> nat \<Rightarrow> nat list" where
  "row_cells x (y # ys) (p0 # p1 # ps) left =
     (let v = (if x = y then add_u16 p0 1 else max p1 left) in v # row_cells x ys (p1 # ps) v)"
| "row_cells x _ _ left = []"

definition dp_row :: "char \<Rightarrow> string \<Rightarrow> nat list \<Rightarrow> nat list" where
  "dp_row x ys prev = 0 # row_cells x ys prev 0"

fun dp_rows :: "string \<Rightarrow> string \<Rightarrow> nat list \<Rightarrow> nat list list" where
  "dp_rows [] ys prev = [prev]"
| "dp_rows (x # xs) ys prev = prev # dp_rows xs ys (dp_row x ys prev)"

definition dp_table :: "string \<Rightarrow> string \<Rightarrow> nat list list" where
  "dp_table xs ys = dp_rows xs ys (replicate (length ys + 1) 0)"

function walk_back :: "string \<Rightarrow> string \<Rightarrow> nat list list \<Rightarrow> nat \<Rightarrow> nat \<Rightarrow> string \<Rightarrow> string" where
  "walk_back xs ys dp i j acc =
     (if i > 0 \<and> j > 0 then
        if xs ! (i - 1) = ys ! (j - 1) then walk_back xs ys dp (i - 1) (j - 1) (acc @ [xs ! (i - 1)])
        else if dp ! (i - 1) ! j > dp ! i ! (j - 1) then walk_back xs ys dp (i - 1) j acc
        else walk_back xs ys dp i (j - 1) acc
      else acc)"
  by pat_completeness auto

termination
  by (relation "measure (\<lambda>(xs, ys, dp, i, j, acc). i + j)") auto

declare walk_back.simps [simp del]

definition lcs_bytes :: "string \<Rightarrow> string \<Rightarrow> string" where
  "lcs_bytes xs ys = (if xs = [] \<or> ys = [] then []
     else rev (walk_back xs ys (dp_table xs ys) (length xs) (length ys) []))"

section \<open>The table\<close>

text \<open>The length of a longest common subsequence of two prefixes.\<close>

function lcsn :: "string \<Rightarrow> string \<Rightarrow> nat \<Rightarrow> nat \<Rightarrow> nat" where
  "lcsn xs ys i j =
     (if i = 0 \<or> j = 0 then 0
      else if xs ! (i - 1) = ys ! (j - 1) then lcsn xs ys (i - 1) (j - 1) + 1
      else max (lcsn xs ys (i - 1) j) (lcsn xs ys i (j - 1)))"
  by pat_completeness auto

termination
  by (relation "measure (\<lambda>(xs, ys, i, j). i + j)") auto

declare lcsn.simps [simp del]

lemma lcsn_zero [simp]: "lcsn xs ys 0 j = 0" "lcsn xs ys i 0 = 0"
  by (subst lcsn.simps, simp)+

lemma lcsn_Suc: "lcsn xs ys (Suc i) (Suc j) = (if xs ! i = ys ! j then lcsn xs ys i j + 1
    else max (lcsn xs ys i (Suc j)) (lcsn xs ys (Suc i) j))"
  by (subst lcsn.simps) simp

lemma lcsn_le: "lcsn xs ys i j \<le> i"
proof (induction xs ys i j rule: lcsn.induct)
  case (1 xs ys i j)
  then show ?case by (cases i; cases j) (auto simp: lcsn_Suc)
qed

lemma row_cells_correct:
  assumes small: "length xs < 2 ^ 16" and i: "i < length xs"
  shows "j \<le> length ys \<Longrightarrow> prev = map (lcsn xs ys i) [j..<Suc (length ys)] \<Longrightarrow> left = lcsn xs ys (Suc i) j \<Longrightarrow>
    row_cells (xs ! i) (drop j ys) prev left = map (lcsn xs ys (Suc i)) [Suc j..<Suc (length ys)]"
proof (induction "length ys - j" arbitrary: j prev left)
  case 0
  then show ?case by simp
next
  case (Suc n)
  then have j: "j < length ys" by simp
  have dr: "drop j ys = ys ! j # drop (Suc j) ys" by (rule Cons_nth_drop_Suc [OF j, symmetric])
  have p: "prev = lcsn xs ys i j # lcsn xs ys i (Suc j) # map (lcsn xs ys i) [Suc (Suc j)..<Suc (length ys)]"
    using Suc.prems(2) j by (simp add: upt_conv_Cons del: upt_Suc)
  let ?v = "if xs ! i = ys ! j then add_u16 (lcsn xs ys i j) 1 else max (lcsn xs ys i (Suc j)) left"
  have "lcsn xs ys i j + 1 < 2 ^ 16" using lcsn_le [of xs ys i j] i small by simp
  then have v: "?v = lcsn xs ys (Suc i) (Suc j)" using Suc.prems(3) by (simp add: lcsn_Suc add_u16_def)
  have "row_cells (xs ! i) (drop (Suc j) ys) (map (lcsn xs ys i) [Suc j..<Suc (length ys)]) ?v
      = map (lcsn xs ys (Suc i)) [Suc (Suc j)..<Suc (length ys)]"
    using Suc(1) [of "Suc j"] Suc(2) j v by simp
  moreover have "map (lcsn xs ys i) [Suc j..<Suc (length ys)] = lcsn xs ys i (Suc j) # map (lcsn xs ys i) [Suc (Suc j)..<Suc (length ys)]"
    using j by (simp add: upt_conv_Cons del: upt_Suc)
  moreover have "map (lcsn xs ys (Suc i)) [Suc j..<Suc (length ys)]
      = lcsn xs ys (Suc i) (Suc j) # map (lcsn xs ys (Suc i)) [Suc (Suc j)..<Suc (length ys)]"
    using j by (simp add: upt_conv_Cons del: upt_Suc)
  ultimately show ?case unfolding dr p by (simp add: v Let_def del: upt_Suc)
qed

lemma dp_row_correct:
  assumes "length xs < 2 ^ 16" "i < length xs"
  shows "dp_row (xs ! i) ys (map (lcsn xs ys i) [0..<Suc (length ys)]) = map (lcsn xs ys (Suc i)) [0..<Suc (length ys)]"
proof -
  have "row_cells (xs ! i) ys (map (lcsn xs ys i) [0..<Suc (length ys)]) 0 = map (lcsn xs ys (Suc i)) [Suc 0..<Suc (length ys)]"
    using row_cells_correct [OF assms, of 0 ys] by simp
  moreover have "map (lcsn xs ys (Suc i)) [0..<Suc (length ys)] = 0 # map (lcsn xs ys (Suc i)) [Suc 0..<Suc (length ys)]"
    by (subst upt_conv_Cons) (simp_all del: upt_Suc)
  ultimately show ?thesis by (simp only: dp_row_def)
qed

lemma dp_rows_correct:
  assumes small: "length xs < 2 ^ 16"
  shows "i \<le> length xs \<Longrightarrow> dp_rows (drop i xs) ys (map (lcsn xs ys i) [0..<Suc (length ys)])
    = map (\<lambda>k. map (lcsn xs ys k) [0..<Suc (length ys)]) [i..<Suc (length xs)]"
proof (induction "length xs - i" arbitrary: i)
  case 0
  then show ?case by simp
next
  case (Suc n)
  then have i: "i < length xs" by simp
  have "drop i xs = xs ! i # drop (Suc i) xs" by (rule Cons_nth_drop_Suc [OF i, symmetric])
  then show ?case using Suc(1) [of "Suc i"] Suc(2) i
    by (simp add: dp_row_correct [OF small i] upt_conv_Cons [of i "Suc (length xs)"] del: upt_Suc)
qed

lemma dp_table_nth:
  assumes "length xs < 2 ^ 16" "i \<le> length xs" "j \<le> length ys"
  shows "dp_table xs ys ! i ! j = lcsn xs ys i j"
proof -
  have "replicate (length ys + 1) 0 = map (lcsn xs ys 0) [0..<Suc (length ys)]"
    by (rule nth_equalityI) (simp_all del: upt_Suc replicate_Suc)
  then have "dp_table xs ys = map (\<lambda>k. map (lcsn xs ys k) [0..<Suc (length ys)]) [0..<Suc (length xs)]"
    using dp_rows_correct [OF assms(1), of 0 ys] by (simp add: dp_table_def del: upt_Suc replicate_Suc)
  then show ?thesis using assms(2,3) by (simp del: upt_Suc)
qed

section \<open>The result\<close>

lemma take_Suc_snoc: "i < length xs \<Longrightarrow> take (Suc i) xs = take i xs @ [xs ! i]"
  by (rule take_Suc_conv_app_nth)

lemma subseq_snoc_iff: "subseq zs (xs @ [x]) \<longleftrightarrow> subseq zs xs \<or> (\<exists>us. zs = us @ [x] \<and> subseq us xs)"
proof -
  have single: "subseq vs [x] \<longleftrightarrow> vs = [] \<or> vs = [x]" for vs by (cases vs) auto
  show ?thesis unfolding subseq_append_iff single by (auto simp: conj_disj_distribL ex_disj_distrib)
qed

lemma walk_back_correct:
  assumes small: "length xs < 2 ^ 16"
  shows "i \<le> length xs \<Longrightarrow> j \<le> length ys \<Longrightarrow>
    \<exists>zs. walk_back xs ys (dp_table xs ys) i j acc = acc @ rev zs \<and> length zs = lcsn xs ys i j
      \<and> subseq zs (take i xs) \<and> subseq zs (take j ys)"
proof (induction "i + j" arbitrary: i j acc rule: less_induct)
  case less
  show ?case
  proof (cases "i > 0 \<and> j > 0")
    case False
    then have "walk_back xs ys (dp_table xs ys) i j acc = acc" by (subst walk_back.simps) (simp only: False if_False)
    moreover have "lcsn xs ys i j = 0" using False by auto
    ultimately show ?thesis by (intro exI [of _ "[]"]) simp
  next
    case True
    then obtain i' j' where ij: "i = Suc i'" "j = Suc j'" by (metis gr0_implies_Suc)
    have l: "i' < length xs" "j' < length ys" using less.prems ij by simp_all
    note takes = take_Suc_snoc [OF l(1)] take_Suc_snoc [OF l(2)]
    show ?thesis
    proof (cases "xs ! i' = ys ! j'")
      case eq: True
      obtain zs where zs: "walk_back xs ys (dp_table xs ys) i' j' (acc @ [xs ! i']) = (acc @ [xs ! i']) @ rev zs"
        "length zs = lcsn xs ys i' j'" "subseq zs (take i' xs)" "subseq zs (take j' ys)"
        using less.hyps [of i' j' "acc @ [xs ! i']"] l ij by auto
      have "walk_back xs ys (dp_table xs ys) i j acc = acc @ rev (zs @ [xs ! i'])"
        using zs(1) eq by (subst walk_back.simps) (simp add: ij)
      moreover have "subseq (zs @ [xs ! i']) (take i xs)" "subseq (zs @ [xs ! i']) (take j ys)"
        using zs(3,4) eq by (simp_all add: ij takes)
      ultimately show ?thesis using zs(2) eq by (intro exI [of _ "zs @ [xs ! i']"]) (simp add: ij lcsn_Suc)
    next
      case ne: False
      have cells: "dp_table xs ys ! i' ! j = lcsn xs ys i' j" "dp_table xs ys ! i ! j' = lcsn xs ys i j'"
        using dp_table_nth [OF small] less.prems ij by simp_all
      show ?thesis
      proof (cases "lcsn xs ys i' j > lcsn xs ys i j'")
        case up: True
        obtain zs where zs: "walk_back xs ys (dp_table xs ys) i' j acc = acc @ rev zs"
          "length zs = lcsn xs ys i' j" "subseq zs (take i' xs)" "subseq zs (take j ys)"
          using less.hyps [of i' j acc] l ij less.prems by auto
        have "walk_back xs ys (dp_table xs ys) i j acc = acc @ rev zs"
          using zs(1) ne up cells by (subst walk_back.simps) (simp add: ij)
        then show ?thesis using zs up ne by (intro exI [of _ zs]) (simp add: ij lcsn_Suc takes subseq_rev_drop_many)
      next
        case left: False
        obtain zs where zs: "walk_back xs ys (dp_table xs ys) i j' acc = acc @ rev zs"
          "length zs = lcsn xs ys i j'" "subseq zs (take i xs)" "subseq zs (take j' ys)"
          using less.hyps [of i j' acc] l ij less.prems by auto
        have "walk_back xs ys (dp_table xs ys) i j acc = acc @ rev zs"
          using zs(1) ne left cells by (subst walk_back.simps) (simp add: ij)
        then show ?thesis using zs left ne by (intro exI [of _ zs]) (simp add: ij lcsn_Suc takes subseq_rev_drop_many)
      qed
    qed
  qed
qed

lemma subseq_butlast: "subseq (us @ [c]) ts \<Longrightarrow> subseq us ts"
  using list_emb_appendD [of "(=)" us "[c]" ts] by (auto simp: subseq_rev_drop_many)

lemma lcsn_upper:
  "i \<le> length xs \<Longrightarrow> j \<le> length ys \<Longrightarrow> subseq zs (take i xs) \<Longrightarrow> subseq zs (take j ys) \<Longrightarrow> length zs \<le> lcsn xs ys i j"
proof (induction "i + j" arbitrary: i j zs rule: less_induct)
  case less
  show ?case
  proof (cases "i > 0 \<and> j > 0")
    case False
    then show ?thesis using less.prems(3,4) by auto
  next
    case True
    then obtain i' j' where ij: "i = Suc i'" "j = Suc j'" by (metis gr0_implies_Suc)
    have l: "i' < length xs" "j' < length ys" using less.prems ij by simp_all
    note IH = less.hyps [of i' j] less.hyps [of i j'] less.hyps [of i' j']
    from less.prems(3) have x: "subseq zs (take i' xs) \<or> (\<exists>us. zs = us @ [xs ! i'] \<and> subseq us (take i' xs))"
      unfolding ij take_Suc_snoc [OF l(1)] subseq_snoc_iff .
    from less.prems(4) have y: "subseq zs (take j' ys) \<or> (\<exists>us. zs = us @ [ys ! j'] \<and> subseq us (take j' ys))"
      unfolding ij take_Suc_snoc [OF l(2)] subseq_snoc_iff .
    show ?thesis
    proof (cases "xs ! i' = ys ! j'")
      case eq: True
      show ?thesis
      proof (cases zs rule: rev_cases)
        case (snoc us c)
        have "subseq us (take i' xs)" "subseq us (take j' ys)"
          using x y subseq_butlast [of us c] unfolding snoc by auto
        then have "length us \<le> lcsn xs ys i' j'" using IH(3) l ij by simp
        then show ?thesis using eq by (simp add: snoc ij lcsn_Suc)
      qed simp
    next
      case ne: False
      then have "subseq zs (take i' xs) \<or> subseq zs (take j' ys)" using x y by auto
      then have "length zs \<le> lcsn xs ys i' j \<or> length zs \<le> lcsn xs ys i j'"
        using IH(1,2) less.prems ij by auto
      then show ?thesis using ne by (auto simp: ij lcsn_Suc)
    qed
  qed
qed



end
