(* ===== verification/Resp.thy ===== *)
theory Resp
  imports Rust_Std
begin

text \<open>
  The RESP wire protocol: the reply writers of \<open>src/src/utils/resp.rs\<close> and the zero-copy request parser of
  \<open>src/src/utils/parser.rs\<close>.  A writer takes the output buffer and returns the extended
  one.  The parser keeps its read buffer, the number of bytes received (\<open>filled\<close>), the
  read position and the list of parsed parts; a raw pointer into the read buffer is the
  offset it points at.  A Rust panic is the result \<^const>\<open>None\<close>.
\<close>

section \<open>Reply writers\<close>

abbreviation CR :: char where "CR \<equiv> CHR 0x0D"
abbreviation LF :: char where "LF \<equiv> CHR 0x0A"
abbreviation CRLF :: string where "CRLF \<equiv> [CR, LF]"

definition NIL :: string where
  "NIL = ''$-1'' @ CRLF"

definition write_ok :: "string \<Rightarrow> string" where
  "write_ok out = out @ ''+OK'' @ CRLF"

definition write_pong :: "string \<Rightarrow> string" where
  "write_pong out = out @ ''+PONG'' @ CRLF"

definition write_nil :: "string \<Rightarrow> string" where
  "write_nil out = out @ NIL"

function usize_digits :: "string \<Rightarrow> nat \<Rightarrow> string" where
  "usize_digits out n =
     (if 0 < n then usize_digits (out @ [digit_char (n mod 10)]) (n div 10) else out)"
  by pat_completeness auto
termination
  by (relation "measure (\<lambda>(out, n). n)") auto

definition write_usize :: "string \<Rightarrow> nat \<Rightarrow> string" where
  "write_usize out n =
     (if n = 0 then out @ ''0''
      else let start = length out; out' = usize_digits out n
           in take start out' @ rev (drop start out'))"

text \<open>
  \<open>rem10\<close> and \<open>quot10\<close> are Rust's truncating \<open>n % 10\<close> and \<open>n / 10\<close>.
  The loop of \<open>write_i64\<close> runs on the negative number itself, so that the least
  \<open>i64\<close> needs no negation.
\<close>

definition rem10 :: "int \<Rightarrow> int" where
  "rem10 n = (if n < 0 then - ((- n) mod 10) else n mod 10)"

definition quot10 :: "int \<Rightarrow> int" where
  "quot10 n = (if n < 0 then - ((- n) div 10) else n div 10)"

function neg_digits :: "string \<Rightarrow> int \<Rightarrow> string" where
  "neg_digits out n =
     (let out' = out @ [digit_char (nat (- rem10 n))]
      in if quot10 n = 0 then out' else neg_digits out' (quot10 n))"
  by pat_completeness auto
termination
  by (relation "measure (\<lambda>(out, n). nat \<bar>n\<bar>)") (auto simp: quot10_def split: if_splits)

definition write_i64 :: "string \<Rightarrow> int \<Rightarrow> string" where
  "write_i64 out n =
     (if n < 0 then
        let out1 = out @ ''-''; start = length out1; out2 = neg_digits out1 n
        in take start out2 @ rev (drop start out2)
      else write_usize out (nat n))"

definition INT_CACHE :: "string list" where
  "INT_CACHE = ['':0'' @ CRLF, '':1'' @ CRLF, '':2'' @ CRLF, '':3'' @ CRLF, '':4'' @ CRLF,
     '':5'' @ CRLF, '':6'' @ CRLF, '':7'' @ CRLF, '':8'' @ CRLF, '':9'' @ CRLF]"

definition write_integer :: "string \<Rightarrow> int \<Rightarrow> string" where
  "write_integer out n =
     (if 0 \<le> n \<and> n < 10 then out @ INT_CACHE ! nat n
      else write_i64 (out @ '':'') n @ CRLF)"

definition write_bulk_bytes :: "string \<Rightarrow> string \<Rightarrow> string" where
  "write_bulk_bytes out s =
     (let len = length s;
          out1 = (if len < 10 then out @ ''$'' @ [char_of (48 + len)] @ CRLF
                  else if len < 100 then
                    out @ ''$'' @ [char_of (48 + len div 10)] @ [char_of (48 + len mod 10)] @ CRLF
                  else write_usize (out @ ''$'') len @ CRLF)
      in out1 @ s @ CRLF)"

definition write_bulk :: "string \<Rightarrow> string \<Rightarrow> string" where
  "write_bulk out s = write_bulk_bytes out s"

definition write_boolean :: "string \<Rightarrow> bool \<Rightarrow> string" where
  "write_boolean out b = out @ (if b then '':1'' @ CRLF else '':0'' @ CRLF)"

definition write_opt_bulk :: "string \<Rightarrow> string option \<Rightarrow> string" where
  "write_opt_bulk out v = (case v of Some s \<Rightarrow> write_bulk out s | None \<Rightarrow> write_nil out)"

definition write_array_header :: "string \<Rightarrow> nat \<Rightarrow> string" where
  "write_array_header out len = write_usize (out @ ''*'') len @ CRLF"

definition write_array :: "string \<Rightarrow> string list \<Rightarrow> string" where
  "write_array out items = foldl write_bulk (write_array_header out (length items)) items"

definition write_opt_array :: "string \<Rightarrow> string option list \<Rightarrow> string" where
  "write_opt_array out items = foldl write_opt_bulk (write_array_header out (length items)) items"

definition write_err :: "string \<Rightarrow> string \<Rightarrow> string" where
  "write_err out msg = out @ ''-ERR '' @ msg @ CRLF"

definition write_wrong_type :: "string \<Rightarrow> string" where
  "write_wrong_type out =
     out @ ''-WRONGTYPE Operation against a key holding the wrong kind of value'' @ CRLF"

definition write_store_err :: "string \<Rightarrow> string \<Rightarrow> string" where
  "write_store_err out err = (if err = WRONGTYPE then write_wrong_type out else write_err out err)"

definition write_wrong_args :: "string \<Rightarrow> string \<Rightarrow> string" where
  "write_wrong_args out cmd =
     out @ ''-ERR wrong number of arguments for '' @ [CHR 0x27] @ cmd @ [CHR 0x27] @ '' command'' @ CRLF"

definition write_simple :: "string \<Rightarrow> string \<Rightarrow> string" where
  "write_simple out s = out @ ''+'' @ s @ CRLF"

subsection \<open>The writers print decimal numbers\<close>

declare usize_digits.simps [simp del] neg_digits.simps [simp del]

lemma usize_digits_eq: "0 < n \<Longrightarrow> usize_digits out n = out @ rev (nat_to_string n)"
proof (induction out n rule: usize_digits.induct)
  case (1 out n)
  show ?case
  proof (cases "n < 10")
    case True
    with "1.prems" show ?thesis
      by (subst usize_digits.simps, subst nat_to_string.simps) (simp add: usize_digits.simps)
  next
    case False
    with 1 have "usize_digits (out @ [digit_char (n mod 10)]) (n div 10) =
        (out @ [digit_char (n mod 10)]) @ rev (nat_to_string (n div 10))"
      by simp
    with False show ?thesis
      by (subst usize_digits.simps, subst nat_to_string.simps) simp
  qed
qed

lemma write_usize_eq: "write_usize out n = out @ nat_to_string n"
  by (simp add: write_usize_def usize_digits_eq)

lemma neg_digits_eq: "n < 0 \<Longrightarrow> neg_digits out n = out @ rev (nat_to_string (nat (- n)))"
proof (induction out n rule: neg_digits.induct)
  case (1 out n)
  let ?m = "nat (- n)"
  have q: "quot10 n = - int (?m div 10)" and r: "nat (- rem10 n) = ?m mod 10"
    using "1.prems" by (auto simp: quot10_def rem10_def nat_div_distrib nat_mod_distrib)
  show ?case
  proof (cases "?m < 10")
    case True
    then show ?thesis
      by (subst neg_digits.simps, subst nat_to_string.simps) (simp add: q r)
  next
    case False
    then have nz: "quot10 n \<noteq> 0" "quot10 n < 0" by (simp_all add: q)
    then have "neg_digits (out @ [digit_char (?m mod 10)]) (quot10 n) =
        (out @ [digit_char (?m mod 10)]) @ rev (nat_to_string (nat (- quot10 n)))"
      using "1.IH" [OF refl nz] by (simp add: r)
    moreover have "nat (- quot10 n) = ?m div 10" by (simp add: q)
    ultimately show ?thesis using False nz
      by (subst neg_digits.simps, subst nat_to_string.simps) (simp add: r)
  qed
qed

lemma write_i64_eq: "write_i64 out n = out @ int_to_string n"
  by (simp add: write_i64_def neg_digits_eq write_usize_eq int_to_string_def)

lemma INT_CACHE_nth: "k < 10 \<Longrightarrow> INT_CACHE ! k = '':'' @ nat_to_string k @ CRLF"
proof -
  assume "k < 10"
  then have "k \<in> {0, 1, 2, 3, 4, 5, 6, 7, 8, 9}" by auto
  then show ?thesis
    by (elim insertE emptyE) (simp_all add: INT_CACHE_def)
qed

lemma write_integer_eq: "write_integer out n = out @ '':'' @ int_to_string n @ CRLF"
proof (cases "0 \<le> n \<and> n < 10")
  case True
  then have "nat n < 10" by linarith
  with True show ?thesis
    by (simp add: write_integer_def INT_CACHE_nth int_to_string_def)
next
  case False
  then show ?thesis by (auto simp: write_integer_def write_i64_eq)
qed

lemma write_bulk_bytes_eq:
  "write_bulk_bytes out s = out @ ''$'' @ nat_to_string (length s) @ CRLF @ s @ CRLF"
proof -
  consider "length s < 10" | "10 \<le> length s" "length s < 100" | "100 \<le> length s" by linarith
  then show ?thesis
  proof cases
    case 1
    then show ?thesis
      by (simp add: write_bulk_bytes_def digit_char_def Let_def)
  next
    case 2
    then have "nat_to_string (length s) = [digit_char (length s div 10), digit_char (length s mod 10)]"
      by (simp add: nat_to_string_step)
    with 2 show ?thesis by (simp add: write_bulk_bytes_def digit_char_def Let_def)
  next
    case 3
    then show ?thesis by (simp add: write_bulk_bytes_def write_usize_eq Let_def)
  qed
qed

lemma write_bulk_eq: "write_bulk out s = out @ write_bulk [] s"
  by (simp add: write_bulk_def write_bulk_bytes_eq)

lemma foldl_write_bulk: "foldl write_bulk out items = out @ concat (map (write_bulk []) items)"
proof (induction items arbitrary: out)
  case Nil
  then show ?case by simp
next
  case (Cons s items)
  have "foldl write_bulk out (s # items) = foldl write_bulk (out @ write_bulk [] s) items"
    using write_bulk_eq [of out s] by simp
  also have "\<dots> = (out @ write_bulk [] s) @ concat (map (write_bulk []) items)"
    by (rule Cons.IH)
  finally show ?case by simp
qed

lemma write_array_eq:
  "write_array out items =
     out @ ''*'' @ nat_to_string (length items) @ CRLF @ concat (map (write_bulk []) items)"
  by (simp add: write_array_def write_array_header_def write_usize_eq foldl_write_bulk)

section \<open>The request parser\<close>

record resp_parser =
  rbuf :: string
  filled :: nat
  pos :: nat
  wbuf :: string
  parts_raw :: "(nat \<times> nat) list"

datatype parse_result = Complete | Incomplete | Error

definition MAX_ARRAY_ELEMENTS :: nat where
  "MAX_ARRAY_ELEMENTS = 1024"

definition MAX_BULK_BYTES :: nat where
  "MAX_BULK_BYTES = 512 * 1024 * 1024"

definition slice :: "'a list \<Rightarrow> nat \<Rightarrow> nat \<Rightarrow> 'a list" where
  "slice xs a b = take (b - a) (drop a xs)"

definition new_parser :: resp_parser where
  "new_parser = \<lparr>rbuf = replicate 2048 (CHR 0x00), filled = 0, pos = 0, wbuf = [], parts_raw = []\<rparr>"

text \<open>\<open>read_buf\<close> returns the room for the next read; the model returns the new state.\<close>

definition read_buf :: "resp_parser \<Rightarrow> resp_parser" where
  "read_buf p =
     (if length (rbuf p) - filled p < 1024 then
        let p1 = (if 0 < pos p then
                    p\<lparr>rbuf := slice (rbuf p) (pos p) (filled p) @ drop (filled p - pos p) (rbuf p),
                      filled := filled p - pos p, pos := 0\<rparr>
                  else p)
        in if length (rbuf p1) - filled p1 < 1024
           then p1\<lparr>rbuf := rbuf p1 @ replicate (length (rbuf p1)) (CHR 0x00)\<rparr>
           else p1
      else p)"

text \<open>\<open>did_fill\<close> after the kernel has copied \<open>bs\<close> into the room.\<close>

definition receive :: "resp_parser \<Rightarrow> string \<Rightarrow> resp_parser" where
  "receive p bs =
     p\<lparr>rbuf := take (filled p) (rbuf p) @ bs @ drop (filled p + length bs) (rbuf p),
       filled := filled p + length bs\<rparr>"

fun parse_usize_loop :: "nat \<Rightarrow> nat \<Rightarrow> string \<Rightarrow> nat option" where
  "parse_usize_loop n mx [] = Some n"
| "parse_usize_loop n mx (b # bs) =
     (if \<not> is_ascii_digit b then None
      else if 2 ^ 64 \<le> n * 10 then None
      else if 2 ^ 64 \<le> n * 10 + digit_val b then None
      else if mx < n * 10 + digit_val b then None
      else parse_usize_loop (n * 10 + digit_val b) mx bs)"

definition parse_usize :: "string \<Rightarrow> nat \<Rightarrow> nat option" where
  "parse_usize s mx =
     (if s = [] then None
      else if length s \<le> 3 then
        (case parse_digits_acc 0 s of
           None \<Rightarrow> None
         | Some n \<Rightarrow> if mx < n then None else Some n)
      else parse_usize_loop 0 mx s)"

definition scan_line :: "resp_parser \<Rightarrow> (resp_parser \<times> nat \<times> nat) option" where
  "scan_line p =
     (case position (\<lambda>c. c = LF) (slice (rbuf p) (pos p) (filled p)) of
        None \<Rightarrow> None
      | Some rel \<Rightarrow>
          let start = pos p; nl = pos p + rel
          in Some (p\<lparr>pos := nl + 1\<rparr>, start, if start < nl then nl - 1 else nl))"

text \<open>
  The slice \<open>&rbuf[s + 1..e]\<close> panics when \<open>s + 1\<close> is past \<open>e\<close>.
\<close>

definition line_body :: "string \<Rightarrow> nat \<Rightarrow> nat \<Rightarrow> string option" where
  "line_body buf s e = (if s + 1 \<le> e \<and> e \<le> length buf then Some (slice buf (s + 1) e) else None)"

definition byte_at :: "string \<Rightarrow> nat \<Rightarrow> char \<Rightarrow> bool" where
  "byte_at buf i c \<longleftrightarrow> i < length buf \<and> buf ! i = c"

fun parse_parts :: "resp_parser \<Rightarrow> nat \<Rightarrow> nat \<Rightarrow> (resp_parser \<times> parse_result) option" where
  "parse_parts p start_pos 0 = Some (p, Complete)"
| "parse_parts p start_pos (Suc n) =
     (case scan_line p of
        None \<Rightarrow> Some (p\<lparr>pos := start_pos\<rparr>, Incomplete)
      | Some (p1, bs, be) \<Rightarrow>
          if \<not> byte_at (rbuf p1) bs (CHR ''$'') then Some (p1, Error)
          else (case line_body (rbuf p1) bs be of
              None \<Rightarrow> None
            | Some digits \<Rightarrow>
                (case parse_usize digits MAX_BULK_BYTES of
                   None \<Rightarrow> Some (p1, Error)
                 | Some len \<Rightarrow>
                     if filled p1 - pos p1 < len + 2 then Some (p1\<lparr>pos := start_pos\<rparr>, Incomplete)
                     else parse_parts
                            (p1\<lparr>parts_raw := parts_raw p1 @ [(pos p1, len)], pos := pos p1 + (len + 2)\<rparr>)
                            start_pos n)))"

definition shrink_after_drain :: "resp_parser \<Rightarrow> resp_parser" where
  "shrink_after_drain p =
     (if pos p = filled p \<and> 16 * 1024 < length (rbuf p)
      then p\<lparr>rbuf := take (2 * 1024) (rbuf p), filled := 0, pos := 0\<rparr>
      else p)"

definition parse_one :: "resp_parser \<Rightarrow> (resp_parser \<times> parse_result) option" where
  "parse_one p0 =
     (let p = p0\<lparr>parts_raw := []\<rparr>; start_pos = pos p
      in case scan_line p of
           None \<Rightarrow> Some (p\<lparr>pos := start_pos\<rparr>, Incomplete)
         | Some (p1, s, e) \<Rightarrow>
             if \<not> byte_at (rbuf p1) s (CHR ''*'') then Some (p1, Error)
             else (case line_body (rbuf p1) s e of
                 None \<Rightarrow> None
               | Some digits \<Rightarrow>
                   (case parse_usize digits MAX_ARRAY_ELEMENTS of
                      None \<Rightarrow> Some (p1, Error)
                    | Some cnt \<Rightarrow>
                        (case parse_parts p1 start_pos cnt of
                           None \<Rightarrow> None
                         | Some (p2, r) \<Rightarrow>
                             (case r of
                                Complete \<Rightarrow> Some (shrink_after_drain p2, Complete)
                              | _ \<Rightarrow> Some (p2, r))))))"

text \<open>What the handler reads through the recorded pointers.\<close>

definition part_bytes :: "resp_parser \<Rightarrow> nat \<times> nat \<Rightarrow> string" where
  "part_bytes p part = slice (rbuf p) (fst part) (fst part + snd part)"

definition parser_wf :: "resp_parser \<Rightarrow> bool" where
  "parser_wf p \<longleftrightarrow> pos p \<le> filled p \<and> filled p \<le> length (rbuf p) \<and> 2048 \<le> length (rbuf p)"

definition unread :: "resp_parser \<Rightarrow> string" where
  "unread p = slice (rbuf p) (pos p) (filled p)"


subsection \<open>Decimal lengths\<close>

lemma parse_digits_acc_ge: "parse_digits_acc n bs = Some m \<Longrightarrow> n \<le> m"
proof (induction bs arbitrary: n)
  case Nil
  then show ?case by simp
next
  case (Cons b bs)
  then have "n * 10 + digit_val b \<le> m" by (auto split: if_splits)
  then show ?case by simp
qed

lemma parse_usize_loop_eq:
  assumes "mx < 2 ^ 60" "n \<le> mx"
  shows "parse_usize_loop n mx bs =
    (case parse_digits_acc n bs of None \<Rightarrow> None | Some m \<Rightarrow> if mx < m then None else Some m)"
  using assms(2)
proof (induction bs arbitrary: n)
  case Nil
  then show ?case by simp
next
  case (Cons b bs)
  show ?case
  proof (cases "is_ascii_digit b")
    case False
    then show ?thesis by simp
  next
    case True
    then have d: "digit_val b < 10" by (auto simp: digit_val_def is_ascii_digit_def)
    have lt: "n * 10 + digit_val b < 2 ^ 64" using Cons.prems assms(1) d by simp
    show ?thesis
    proof (cases "mx < n * 10 + digit_val b")
      case True
      then have "mx < m" if "parse_digits_acc (n * 10 + digit_val b) bs = Some m" for m
        using parse_digits_acc_ge [OF that] by simp
      with True \<open>is_ascii_digit b\<close> show ?thesis by (auto split: option.splits)
    next
      case False
      with lt \<open>is_ascii_digit b\<close> Cons.IH [of "n * 10 + digit_val b"] show ?thesis by simp
    qed
  qed
qed

text \<open>
  Both paths of \<open>parse_usize\<close> accept exactly the non-empty decimal numbers up to the
  bound; the short path needs no overflow checks.
\<close>

lemma parse_usize_eq:
  "mx < 2 ^ 60 \<Longrightarrow> parse_usize s mx =
    (case parse_digits s of None \<Rightarrow> None | Some n \<Rightarrow> if mx < n then None else Some n)"
  by (simp add: parse_usize_def parse_digits_def parse_usize_loop_eq)

lemma parse_usize_nat_to_string:
  "mx < 2 ^ 60 \<Longrightarrow> n \<le> mx \<Longrightarrow> parse_usize (nat_to_string n) mx = Some n"
  by (simp add: parse_usize_eq)

lemma parser_limits [simp]: "MAX_BULK_BYTES < 2 ^ 60" "MAX_ARRAY_ELEMENTS < 2 ^ 60"
  by (simp_all add: MAX_BULK_BYTES_def MAX_ARRAY_ELEMENTS_def)

lemma LF_notin_number [simp]: "LF \<notin> set (nat_to_string n)"
  using nat_to_string_digits [of LF n] by (auto simp: is_ascii_digit_def)

subsection \<open>Reading lines and parts\<close>

lemma length_unread: "parser_wf p \<Longrightarrow> length (unread p) = filled p - pos p"
  by (auto simp: parser_wf_def unread_def slice_def)

lemma position_append_hit: "\<forall>x \<in> set xs. \<not> P x \<Longrightarrow> P y \<Longrightarrow> position P (xs @ y # ys) = Some (length xs)"
  by (induction xs) auto

lemma unread_advance:
  assumes "parser_wf p" "unread p = xs @ ys"
  shows "unread (p\<lparr>pos := pos p + length xs\<rparr>) = ys" "pos p + length xs \<le> filled p"
    "slice (rbuf p) (pos p) (pos p + length xs) = xs"
proof -
  have l: "length xs + length ys = filled p - pos p"
    using length_unread [OF assms(1)] assms(2) by simp
  then show le: "pos p + length xs \<le> filled p" using assms(1) by (auto simp: parser_wf_def)
  have t: "take (filled p - pos p) (drop (pos p) (rbuf p)) = xs @ ys"
    using assms(2) by (simp add: unread_def slice_def)
  have "drop (length xs) (take (filled p - pos p) (drop (pos p) (rbuf p))) = ys"
    by (simp add: t)
  then show "unread (p\<lparr>pos := pos p + length xs\<rparr>) = ys"
    by (simp add: unread_def slice_def drop_take add.commute diff_diff_left)
  have "take (length xs) (take (filled p - pos p) (drop (pos p) (rbuf p))) = xs"
    by (simp add: t)
  then show "slice (rbuf p) (pos p) (pos p + length xs) = xs"
    using l by (simp add: slice_def)
qed

lemma scan_line_hit:
  assumes "parser_wf p" "unread p = c # line @ CRLF @ rest" "LF \<notin> set (c # line)"
  shows "scan_line p =
     Some (p\<lparr>pos := pos p + length line + 3\<rparr>, pos p, pos p + length line + 1)"
proof -
  have "position (\<lambda>x. x = LF) (unread p) = Some (length (c # line @ [CR]))"
    using assms(2,3) position_append_hit [of "c # line @ [CR]" "\<lambda>x. x = LF" LF rest] by auto
  then show ?thesis
    by (simp add: scan_line_def unread_def [symmetric] Let_def)
qed

lemma scan_line_miss: "LF \<notin> set (unread p) \<Longrightarrow> scan_line p = None"
proof -
  assume "LF \<notin> set (unread p)"
  then have "position (\<lambda>c. c = LF) (unread p) = None" by auto
  then show ?thesis by (simp only: scan_line_def unread_def [symmetric] option.case)
qed

lemma header_line:
  assumes wf: "parser_wf p" and u: "unread p = c # nat_to_string n @ CRLF @ rest" and c: "c \<noteq> LF"
  shows "scan_line p = Some (p\<lparr>pos := pos p + length (c # nat_to_string n @ CRLF)\<rparr>, pos p,
      pos p + length (nat_to_string n) + 1)"
    and "byte_at (rbuf p) (pos p) c"
    and "line_body (rbuf p) (pos p) (pos p + length (nat_to_string n) + 1) = Some (nat_to_string n)"
proof -
  let ?h = "c # nat_to_string n"
  show "scan_line p = Some (p\<lparr>pos := pos p + length (c # nat_to_string n @ CRLF)\<rparr>, pos p,
      pos p + length (nat_to_string n) + 1)"
    using scan_line_hit [OF wf u] c by simp
  have u': "unread p = ?h @ (CRLF @ rest)" using u by simp
  note adv = unread_advance [OF wf u']
  have le: "pos p + length ?h \<le> length (rbuf p)"
    using adv(2) wf by (simp add: parser_wf_def)
  have s: "take (length ?h) (drop (pos p) (rbuf p)) = ?h"
    using adv(3) by (simp add: slice_def)
  then have "drop (pos p) (rbuf p) ! 0 = c"
    by (metis nth_Cons_0 nth_take length_Cons zero_less_Suc)
  then show "byte_at (rbuf p) (pos p) c"
    using le by (simp add: byte_at_def)
  have "drop 1 (take (length ?h) (drop (pos p) (rbuf p))) = nat_to_string n"
    by (simp only: s) simp
  then have "take (length (nat_to_string n)) (drop (Suc (pos p)) (rbuf p)) = nat_to_string n"
    by (simp add: drop_take)
  then show "line_body (rbuf p) (pos p) (pos p + length (nat_to_string n) + 1) =
      Some (nat_to_string n)"
    using le by (simp add: line_body_def slice_def)
qed

lemma unread_parts_raw [simp]:
  "unread (p\<lparr>parts_raw := xs, pos := i\<rparr>) = unread (p\<lparr>pos := i\<rparr>)"
  "unread (p\<lparr>parts_raw := xs\<rparr>) = unread p"
  by (simp_all add: unread_def)

lemma parser_wf_update [simp]:
  "parser_wf (p\<lparr>parts_raw := xs\<rparr>) = parser_wf p"
  "parser_wf p \<Longrightarrow> i \<le> filled p \<Longrightarrow> parser_wf (p\<lparr>pos := i\<rparr>)"
  "parser_wf p \<Longrightarrow> i \<le> filled p \<Longrightarrow> parser_wf (p\<lparr>parts_raw := xs, pos := i\<rparr>)"
  by (simp_all add: parser_wf_def)

lemma parse_parts_header:
  assumes wf: "parser_wf p" and u: "unread p = ''$'' @ nat_to_string n @ CRLF @ body"
    and n: "n \<le> MAX_BULK_BYTES"
  defines "i \<equiv> pos p + length (''$'' @ nat_to_string n @ CRLF)"
  shows "parse_parts p sp (Suc m) =
     (if length body < n + 2 then Some (p\<lparr>pos := sp\<rparr>, Incomplete)
      else parse_parts (p\<lparr>parts_raw := parts_raw p @ [(i, n)], pos := i + (n + 2)\<rparr>) sp m)"
proof -
  have u1: "unread p = CHR ''$'' # nat_to_string n @ CRLF @ body" using u by simp
  have u2: "unread p = (''$'' @ nat_to_string n @ CRLF) @ body" using u by simp
  note h = header_line [OF wf u1]
  have body: "length body = filled p - i"
    using length_unread [OF wf] unread_advance(2) [OF wf u2] u2 by (simp add: i_def)
  show ?thesis
    using h parse_usize_nat_to_string [OF parser_limits(1) n] body
    by (simp add: i_def)
qed

lemma parse_parts_bulks:
  assumes "parser_wf p" "unread p = concat (map (write_bulk []) items) @ rest"
    and "\<forall>s \<in> set items. length s \<le> MAX_BULK_BYTES"
  shows "\<exists>offs. parse_parts p sp (length items) =
        Some (p\<lparr>parts_raw := parts_raw p @ offs,
                pos := pos p + length (concat (map (write_bulk []) items))\<rparr>, Complete) \<and>
      map (\<lambda>(i, l). slice (rbuf p) i (i + l)) offs = items \<and>
      (items \<noteq> [] \<longrightarrow> fst (last offs) + snd (last offs) + 2 =
         pos p + length (concat (map (write_bulk []) items)))"
  using assms
proof (induction items arbitrary: p)
  case Nil
  then show ?case by simp
next
  case (Cons s items)
  let ?h = "''$'' @ nat_to_string (length s) @ CRLF"
  let ?rest = "concat (map (write_bulk []) items) @ rest"
  let ?i = "pos p + length ?h"
  let ?p1 = "p\<lparr>pos := ?i\<rparr>"
  let ?p2 = "p\<lparr>parts_raw := parts_raw p @ [(?i, length s)], pos := ?i + (length s + 2)\<rparr>"
  have b: "write_bulk [] s = ?h @ s @ CRLF"
    by (simp add: write_bulk_def write_bulk_bytes_eq)
  have u: "unread p = ?h @ (s @ CRLF @ ?rest)"
    using Cons.prems(2) b by simp
  note a1 = unread_advance [OF Cons.prems(1) u]
  have wf1: "parser_wf ?p1" using Cons.prems(1) a1(2) by simp
  have u1: "unread ?p1 = (s @ CRLF) @ ?rest" using a1(1) by simp
  note a2 = unread_advance [OF wf1 u1]
  have wf2: "parser_wf ?p2" using Cons.prems(1) a2(2) by simp
  have u2: "unread ?p2 = ?rest" using a2(1) by (simp add: add.assoc)
  have sl: "slice (rbuf p) ?i (?i + length s) = s"
    using unread_advance(3) [OF wf1, of s "CRLF @ ?rest"] u1 by simp
  have u': "unread p = ''$'' @ nat_to_string (length s) @ CRLF @ (s @ CRLF @ ?rest)"
    using u by simp
  have "parse_parts p sp (length (s # items)) = parse_parts ?p2 sp (length items)"
    using parse_parts_header [OF Cons.prems(1) u', of sp "length items"] Cons.prems(3) by simp
  moreover obtain offs where
    "parse_parts ?p2 sp (length items) =
        Some (?p2\<lparr>parts_raw := parts_raw ?p2 @ offs,
                pos := pos ?p2 + length (concat (map (write_bulk []) items))\<rparr>, Complete)"
    "map (\<lambda>(i, l). slice (rbuf p) i (i + l)) offs = items"
    "items \<noteq> [] \<longrightarrow> fst (last offs) + snd (last offs) + 2 =
         pos ?p2 + length (concat (map (write_bulk []) items))"
    using Cons.IH [OF wf2 u2] Cons.prems(3) by auto
  moreover from this(2) have "offs = [] \<longleftrightarrow> items = []" by auto
  ultimately show ?case
    using sl
    by (intro exI [of _ "(?i, length s) # offs"]) (auto simp: b)
qed

lemma parse_one_header:
  assumes wf: "parser_wf p" and u: "unread p = ''*'' @ nat_to_string n @ CRLF @ body"
    and n: "n \<le> MAX_ARRAY_ELEMENTS"
  defines "p1 \<equiv> p\<lparr>parts_raw := [], pos := pos p + length (''*'' @ nat_to_string n @ CRLF)\<rparr>"
  shows "parse_one p =
      (case parse_parts p1 (pos p) n of
         None \<Rightarrow> None
       | Some (p2, Complete) \<Rightarrow> Some (shrink_after_drain p2, Complete)
       | Some (p2, r) \<Rightarrow> Some (p2, r))"
    and "parser_wf p1" "unread p1 = body"
proof -
  let ?p = "p\<lparr>parts_raw := []\<rparr>"
  have wf': "parser_wf ?p" using wf by simp
  have u1: "unread ?p = CHR ''*'' # nat_to_string n @ CRLF @ body" using u by simp
  have u2: "unread ?p = (''*'' @ nat_to_string n @ CRLF) @ body" using u by simp
  note h = header_line [OF wf' u1]
  show "parse_one p =
      (case parse_parts p1 (pos p) n of
         None \<Rightarrow> None
       | Some (p2, Complete) \<Rightarrow> Some (shrink_after_drain p2, Complete)
       | Some (p2, r) \<Rightarrow> Some (p2, r))"
    using h parse_usize_nat_to_string [OF parser_limits(2) n]
    by (simp add: parse_one_def p1_def split: option.splits prod.splits parse_result.splits)
  show "parser_wf p1" "unread p1 = body"
    using unread_advance [OF wf' u2] wf by (simp_all add: p1_def)
qed

lemma parse_one_bulks:
  assumes wf: "parser_wf p" and u: "unread p = write_array [] items @ rest"
    and n: "length items \<le> MAX_ARRAY_ELEMENTS"
    and b: "\<forall>s \<in> set items. length s \<le> MAX_BULK_BYTES"
  shows "\<exists>offs. parse_one p =
        Some (shrink_after_drain (p\<lparr>parts_raw := offs, pos := pos p + length (write_array [] items)\<rparr>),
              Complete) \<and>
      map (part_bytes p) offs = items \<and>
      (items \<noteq> [] \<longrightarrow> fst (last offs) + snd (last offs) + 2 = pos p + length (write_array [] items))"
proof -
  let ?h = "''*'' @ nat_to_string (length items) @ CRLF"
  let ?b = "concat (map (write_bulk []) items)"
  have e: "write_array [] items = ?h @ ?b" by (simp add: write_array_eq)
  have u': "unread p = ''*'' @ nat_to_string (length items) @ CRLF @ (?b @ rest)"
    using u e by simp
  let ?p1 = "p\<lparr>parts_raw := [], pos := pos p + length ?h\<rparr>"
  note h = parse_one_header [OF wf u' n]
  obtain offs where o:
    "parse_parts ?p1 (pos p) (length items) =
       Some (?p1\<lparr>parts_raw := parts_raw ?p1 @ offs, pos := pos ?p1 + length ?b\<rparr>, Complete)"
    "map (\<lambda>(i, l). slice (rbuf ?p1) i (i + l)) offs = items"
    "items \<noteq> [] \<longrightarrow> fst (last offs) + snd (last offs) + 2 = pos ?p1 + length ?b"
    using parse_parts_bulks [OF h(2) h(3) b] by blast
  have "map (part_bytes p) offs = items"
    using o(2) by (simp add: part_bytes_def [abs_def] case_prod_unfold)
  moreover have "parse_one p =
      Some (shrink_after_drain (p\<lparr>parts_raw := offs, pos := pos p + length (write_array [] items)\<rparr>),
            Complete)"
    using h(1) o(1) by (simp add: e add.assoc)
  ultimately show ?thesis
    using o(3) by (intro exI [of _ offs]) (simp add: e)
qed

lemma short_header_no_LF:
  assumes "q @ r = c # nat_to_string n @ CRLF @ t" "length q < length (c # nat_to_string n @ CRLF)" "c \<noteq> LF"
  shows "LF \<notin> set q"
proof -
  have "q = take (length q) (c # nat_to_string n @ CRLF @ t)"
    using assms(1) by (metis append_eq_conv_conj)
  also have "\<dots> = take (length q) ((c # nat_to_string n @ [CR]) @ (LF # t))" by simp
  also have "\<dots> = take (length q) (c # nat_to_string n @ [CR])"
    using assms(2) by (subst take_append) simp
  finally have "set q \<subseteq> set (c # nat_to_string n @ [CR])"
    by (metis set_take_subset)
  then show ?thesis using assms(3) by auto
qed

lemma append_eq_split_short:
  assumes "xs @ ys = q @ r" "length xs \<le> length q"
  obtains q' where "q = xs @ q'" "ys = q' @ r"
  using assms by (auto simp: append_eq_append_conv2)

lemma parse_parts_prefix:
  assumes "parser_wf p" "concat (map (write_bulk []) items) = unread p @ r" "r \<noteq> []"
    and "\<forall>s \<in> set items. length s \<le> MAX_BULK_BYTES"
  shows "\<exists>ps. parse_parts p sp (length items) = Some (p\<lparr>parts_raw := ps, pos := sp\<rparr>, Incomplete)"
  using assms
proof (induction items arbitrary: p)
  case Nil
  then show ?case by simp
next
  case (Cons s items)
  let ?h = "''$'' @ nat_to_string (length s) @ CRLF"
  let ?rest = "concat (map (write_bulk []) items)"
  let ?i = "pos p + length ?h"
  let ?p2 = "p\<lparr>parts_raw := parts_raw p @ [(?i, length s)], pos := ?i + (length s + 2)\<rparr>"
  have "write_bulk [] s = ?h @ s @ CRLF"
    by (simp add: write_bulk_def write_bulk_bytes_eq)
  then have eq: "?h @ (s @ CRLF @ ?rest) = unread p @ r"
    using Cons.prems(2) by simp
  show ?case
  proof (cases "length (unread p) < length ?h")
    case True
    then have "LF \<notin> set (unread p)"
      using short_header_no_LF [of "unread p" r "CHR ''$''" "length s" "s @ CRLF @ ?rest"] eq by simp
    then have "scan_line p = None" by (rule scan_line_miss)
    then show ?thesis by (intro exI [of _ "parts_raw p"]) simp
  next
    case False
    then obtain body where ub: "unread p = ?h @ body" and eb: "s @ CRLF @ ?rest = body @ r"
      using append_eq_split_short [OF eq] by auto
    have u': "unread p = ''$'' @ nat_to_string (length s) @ CRLF @ body" using ub by simp
    note step = parse_parts_header [OF Cons.prems(1) u', of sp "length items"]
    show ?thesis
    proof (cases "length body < length s + 2")
      case True
      then show ?thesis using step Cons.prems(4)
        by (intro exI [of _ "parts_raw p"]) simp
    next
      case lb: False
      then obtain q where bq: "body = (s @ CRLF) @ q" and eq2: "?rest = q @ r"
        using append_eq_split_short [of "s @ CRLF" ?rest body r] eb by auto
      have u2: "unread p = (?h @ s @ CRLF) @ q" using ub bq by simp
      note a = unread_advance [OF Cons.prems(1) u2]
      have wf2: "parser_wf ?p2" using Cons.prems(1) a(2) by simp
      have "unread ?p2 = q" using a(1) by (simp add: add.assoc add.commute add.left_commute)
      then obtain ps where "parse_parts ?p2 sp (length items) =
          Some (?p2\<lparr>parts_raw := ps, pos := sp\<rparr>, Incomplete)"
        using Cons.IH [OF wf2, of] eq2 Cons.prems(3,4) by auto
      then show ?thesis using step lb Cons.prems(4)
        by (intro exI [of _ ps]) simp
    qed
  qed
qed

subsection \<open>Where the parser panics\<close>

definition bare_newline :: "resp_parser \<Rightarrow> bool" where
  "bare_newline p \<longleftrightarrow>
     (\<exists>i. pos p \<le> i \<and> Suc i < filled p \<and> rbuf p ! i \<in> {CHR ''*'', CHR ''$''} \<and> rbuf p ! Suc i = LF)"

lemma scan_line_Some:
  assumes "parser_wf p" "scan_line p = Some (p1, s, e)"
  obtains nl where "p1 = p\<lparr>pos := Suc nl\<rparr>" "s = pos p" "pos p \<le> nl" "nl < filled p"
    "rbuf p ! nl = LF" "e = (if pos p < nl then nl - 1 else nl)"
proof (cases "position (\<lambda>c. c = LF) (slice (rbuf p) (pos p) (filled p))")
  case None
  with assms(2) show ?thesis by (simp only: scan_line_def option.case) simp
next
  case (Some rel)
  then have p1: "p1 = p\<lparr>pos := Suc (pos p + rel)\<rparr>" "s = pos p"
      "e = (if pos p < pos p + rel then pos p + rel - 1 else pos p + rel)"
    using assms(2) by (auto simp: scan_line_def Let_def)
  have "rel < filled p - pos p"
    using position_lt [OF Some] by (simp add: slice_def)
  moreover have "rbuf p ! (pos p + rel) = LF"
    using position_sat [OF Some] calculation assms(1) by (simp add: slice_def parser_wf_def)
  ultimately show ?thesis using p1 by (intro that [of "pos p + rel"]) simp_all
qed

lemma line_body_None:
  assumes "parser_wf p" "scan_line p = Some (p1, s, e)"
    and "byte_at (rbuf p1) s c" "c \<in> {CHR ''*'', CHR ''$''}" "line_body (rbuf p1) s e = None"
  shows "bare_newline p"
proof -
  obtain nl where nl: "p1 = p\<lparr>pos := Suc nl\<rparr>" "s = pos p" "pos p \<le> nl" "nl < filled p"
    "rbuf p ! nl = LF" "e = (if pos p < nl then nl - 1 else nl)"
    by (rule scan_line_Some [OF assms(1,2)])
  have c: "rbuf p ! pos p = c" using assms(3) nl(1,2) by (simp add: byte_at_def)
  then have "nl \<noteq> pos p" using assms(4) nl(5) by auto
  moreover have "e \<le> length (rbuf p)" using nl assms(1) by (auto simp: parser_wf_def)
  ultimately have "nl = Suc (pos p)"
    using assms(5) nl by (auto simp: line_body_def split: if_splits)
  then show ?thesis using nl c assms(4) by (auto simp: bare_newline_def)
qed

lemma bare_newline_mono:
  "bare_newline (p\<lparr>pos := i\<rparr>) \<Longrightarrow> pos p \<le> i \<Longrightarrow> bare_newline p"
  "bare_newline (p\<lparr>parts_raw := xs, pos := i\<rparr>) \<Longrightarrow> pos p \<le> i \<Longrightarrow> bare_newline p"
  by (auto simp: bare_newline_def intro: order_trans)

lemma parse_parts_None: "parser_wf p \<Longrightarrow> parse_parts p sp n = None \<Longrightarrow> bare_newline p"
proof (induction n arbitrary: p)
  case 0
  then show ?case by simp
next
  case (Suc n)
  from Suc.prems(2) obtain p1 s e where sl: "scan_line p = Some (p1, s, e)"
    and at: "byte_at (rbuf p1) s (CHR ''$'')"
    by (auto split: option.splits if_splits)
  obtain nl where nl: "p1 = p\<lparr>pos := Suc nl\<rparr>" "s = pos p" "pos p \<le> nl" "nl < filled p"
    by (rule scan_line_Some [OF Suc.prems(1) sl])
  show ?case
  proof (cases "line_body (rbuf p1) s e")
    case None
    then show ?thesis using line_body_None [OF Suc.prems(1) sl at] by simp
  next
    case (Some digits)
    with Suc.prems(2) sl at obtain len where
      len: "\<not> filled p1 - pos p1 < len + 2"
        "parse_parts (p1\<lparr>parts_raw := parts_raw p1 @ [(pos p1, len)], pos := pos p1 + (len + 2)\<rparr>) sp n = None"
      by (auto split: option.splits if_splits)
    have "parser_wf (p1\<lparr>parts_raw := parts_raw p1 @ [(pos p1, len)], pos := pos p1 + (len + 2)\<rparr>)"
      using len(1) nl Suc.prems(1) by (auto simp: parser_wf_def)
    then have "bare_newline (p1\<lparr>parts_raw := parts_raw p1 @ [(pos p1, len)], pos := pos p1 + (len + 2)\<rparr>)"
      using len(2) by (rule Suc.IH)
    then have "bare_newline p1" by (rule bare_newline_mono) simp
    then show ?thesis using nl by (auto intro: bare_newline_mono(1))
  qed
qed

section \<open>Properties\<close>







text \<open>C34: a command that drains a read buffer of more than 16 KB is completed with stale pointers.
  The buffer is cut to 2 KB before the handler runs, but the recorded parts keep their
  places in the old buffer: when the command ends behind the cut, its last part reaches past
  the end of the buffer that is left.\<close>

theorem parse_one_drain_dangling:
  assumes "parser_wf p" "unread p = write_array [] items" "items \<noteq> []"
    and "length items \<le> MAX_ARRAY_ELEMENTS" "\<forall>s \<in> set items. length s \<le> MAX_BULK_BYTES"
    and "16 * 1024 < length (rbuf p)" "2050 < filled p"
  shows "\<exists>p'. parse_one p = Some (p', Complete) \<and> length (rbuf p') = 2048 \<and>
     length (rbuf p') < fst (last (parts_raw p')) + snd (last (parts_raw p'))"
proof -
  let ?enc = "write_array [] items"
  have u: "unread p = ?enc @ []" using assms(2) by simp
  obtain offs where o: "parse_one p =
        Some (shrink_after_drain (p\<lparr>parts_raw := offs, pos := pos p + length ?enc\<rparr>), Complete)"
      "fst (last offs) + snd (last offs) + 2 = pos p + length ?enc"
    using parse_one_bulks [OF assms(1) u assms(4,5)] assms(3) by blast
  have "pos p + length ?enc = filled p"
    using length_unread [OF assms(1)] unread_advance(2) [OF assms(1) u] assms(2) by simp
  with o assms(6,7) show ?thesis by (simp add: shrink_after_drain_def)
qed

theorem parse_one_drain_dangling_witness:
  defines "items \<equiv> [replicate 20000 (CHR ''x'')]"
  defines "p \<equiv> \<lparr>rbuf = write_array [] items, filled = length (write_array [] items), pos = 0,
       wbuf = [], parts_raw = []\<rparr>"
  shows "\<exists>p'. parse_one p = Some (p', Complete) \<and> length (rbuf p') = 2048 \<and>
     length (rbuf p') < fst (last (parts_raw p')) + snd (last (parts_raw p'))"
proof -
  have len: "20000 < length (write_array [] items)"
    by (simp add: items_def write_array_eq write_bulk_def write_bulk_bytes_eq)
  show ?thesis
  proof (rule parse_one_drain_dangling [of p items])
    show "parser_wf p" using len by (simp add: p_def parser_wf_def)
    show "unread p = write_array [] items" by (simp add: p_def unread_def slice_def)
    show "16 * 1024 < length (rbuf p)" "2050 < filled p" using len by (simp_all add: p_def)
  qed (simp_all add: items_def MAX_ARRAY_ELEMENTS_def MAX_BULK_BYTES_def)
qed

lemma compact_unread:
  assumes "parser_wf p"
  defines "q \<equiv> p\<lparr>rbuf := slice (rbuf p) (pos p) (filled p) @ drop (filled p - pos p) (rbuf p),
      filled := filled p - pos p, pos := 0\<rparr>"
  shows "parser_wf q" "unread q = unread p" "length (rbuf q) = length (rbuf p)"
proof -
  have l: "length (slice (rbuf p) (pos p) (filled p)) = filled p - pos p"
    using length_unread [OF assms(1)] by (simp add: unread_def)
  then show "length (rbuf q) = length (rbuf p)"
    using assms(1) by (simp add: q_def parser_wf_def)
  then show "parser_wf q" using assms(1) by (auto simp: parser_wf_def q_def)
  show "unread q = unread p" using l by (simp add: q_def unread_def slice_def)
qed

lemma enlarge_unread:
  assumes "parser_wf p"
  shows "parser_wf (p\<lparr>rbuf := rbuf p @ zs\<rparr>)" "unread (p\<lparr>rbuf := rbuf p @ zs\<rparr>) = unread p"
  using assms by (simp_all add: parser_wf_def unread_def slice_def)

lemma read_buf_unread:
  assumes "parser_wf p"
  shows "parser_wf (read_buf p)" "unread (read_buf p) = unread p"
    "1024 \<le> length (rbuf (read_buf p)) - filled (read_buf p)"
proof -
  define q where "q = (if 0 < pos p then
      p\<lparr>rbuf := slice (rbuf p) (pos p) (filled p) @ drop (filled p - pos p) (rbuf p),
        filled := filled p - pos p, pos := 0\<rparr> else p)"
  have q: "parser_wf q" "unread q = unread p"
    using compact_unread [OF assms] assms by (simp_all add: q_def)
  have r: "read_buf p =
      (if length (rbuf p) - filled p < 1024 then
         if length (rbuf q) - filled q < 1024
         then q\<lparr>rbuf := rbuf q @ replicate (length (rbuf q)) (CHR 0x00)\<rparr> else q
       else p)"
    by (simp add: read_buf_def q_def Let_def)
  show "parser_wf (read_buf p)" "unread (read_buf p) = unread p"
    using q enlarge_unread [OF q(1)] assms by (simp_all add: r)
  show "1024 \<le> length (rbuf (read_buf p)) - filled (read_buf p)"
    using q(1) by (auto simp: r parser_wf_def)
qed

lemma receive_unread:
  assumes "parser_wf p" "length bs \<le> length (rbuf p) - filled p"
  shows "parser_wf (receive p bs)" "unread (receive p bs) = unread p @ bs"
proof -
  show "parser_wf (receive p bs)" using assms by (auto simp: receive_def parser_wf_def)
  have "drop (pos p) (take (filled p) (rbuf p)) = unread p"
    by (simp add: unread_def slice_def drop_take)
  moreover have "length (unread p) = filled p - pos p" by (rule length_unread [OF assms(1)])
  moreover have "unread (receive p bs) =
      slice (take (filled p) (rbuf p) @ bs @ drop (filled p + length bs) (rbuf p)) (pos p)
        (filled p + length bs)"
    by (simp add: unread_def receive_def)
  ultimately show "unread (receive p bs) = unread p @ bs"
    using assms(1) by (simp add: slice_def parser_wf_def)
qed

text \<open>Receiving bytes never disturbs what is already unread.  \<open>read_buf\<close> moves the unread
  bytes to the front or doubles the buffer when less than 1 KB of room is left; after it there
  is at least 1 KB of room, and the bytes then received appear directly behind the unread
  ones.\<close>

theorem receive_after_read_buf:
  assumes "parser_wf p" "length bs \<le> length (rbuf (read_buf p)) - filled (read_buf p)"
  shows "1024 \<le> length (rbuf (read_buf p)) - filled (read_buf p) \<and>
     unread (receive (read_buf p) bs) = unread p @ bs \<and> parser_wf (receive (read_buf p) bs)"
  using read_buf_unread [OF assms(1)] receive_unread [OF read_buf_unread(1) [OF assms(1)] assms(2)]
  by simp

theorem receive_after_read_buf_witness:
  "1024 \<le> length (rbuf (read_buf new_parser)) - filled (read_buf new_parser) \<and>
   unread (receive (read_buf new_parser) ''PING'') = unread new_parser @ ''PING'' \<and>
   parser_wf (receive (read_buf new_parser) ''PING'')"
  by (rule receive_after_read_buf) (simp_all add: new_parser_def parser_wf_def read_buf_def)

end
