(* ===== verification/Store_String.thy ===== *)
theory Store_String
  imports Keyspace F64_Text Lcs Resp
begin

text \<open>
  The commands on strings (\<open>src/src/storage/string.rs\<close>): setting and getting with expiry, appending,
  ranges, integer and floating-point increments, and the longest common subsequence.
\<close>

section \<open>Setting and getting\<close>

definition MAX_STRING_BYTES :: nat where "MAX_STRING_BYTES = 512 * 1024 * 1024"

definition store_set :: "store \<Rightarrow> string \<Rightarrow> store_value \<Rightarrow> store" where
  "store_set st k sv = put_key (if expires_ms sv \<noteq> 0 then add_ttl st else st) k sv"

definition try_set_value :: "store \<Rightarrow> string \<Rightarrow> store_value \<Rightarrow> store \<times> (full + unit)" where
  "try_set_value st k sv = (let st1 = (if expires_ms sv \<noteq> 0 then add_ttl st else st) in
     case cm_try_insert (sdata st1) k sv of
       (m, Inl e) \<Rightarrow> (st1\<lparr>sdata := m\<rparr>, Inl e)
     | (m, Inr _) \<Rightarrow> (st1\<lparr>sdata := m\<rparr>, Inr ()))"

definition set_string :: "store \<Rightarrow> string \<Rightarrow> string \<Rightarrow> u64 \<Rightarrow> store" where
  "set_string st k s t = (let st1 = st\<lparr>sdata := fst (cm_set (sdata st) k \<lparr>val = FString s, expires_ms = t\<rparr>)\<rparr>
     in if t \<noteq> 0 then add_ttl st1 else st1)"

definition try_set_string :: "store \<Rightarrow> string \<Rightarrow> string \<Rightarrow> u64 \<Rightarrow> store \<times> (full + unit)" where
  "try_set_string st k s t = (case cm_try_set (sdata st) k \<lparr>val = FString s, expires_ms = t\<rparr> of
       (m, Inl e) \<Rightarrow> (st\<lparr>sdata := m\<rparr>, Inl e)
     | (m, Inr _) \<Rightarrow> (if t \<noteq> 0 then add_ttl (st\<lparr>sdata := m\<rparr>) else st\<lparr>sdata := m\<rparr>, Inr ()))"

definition store_get :: "clock \<Rightarrow> store \<Rightarrow> string \<Rightarrow> store \<times> string option" where
  "store_get c st k = (let (h, idx) = locate (sdata st) k in
     case cm_with_entry (sdata st) k h idx (\<lambda>e. if is_expired c e then Inl () else Inr (as_string (val e))) of
       None \<Rightarrow> (st, None)
     | Some (Inl _) \<Rightarrow> (st\<lparr>sdata := fst (cm_remove (sdata st) k)\<rparr>, None)
     | Some (Inr v) \<Rightarrow> (st, v))"

text \<open>The closure writes the reply into the buffer, which is returned with the answer.\<close>

definition get_to_buf :: "clock \<Rightarrow> store \<Rightarrow> string \<Rightarrow> string \<Rightarrow> (store \<times> string) \<times> bool" where
  "get_to_buf c st k out = (let (h, idx) = locate (sdata st) k in
     case cm_with_entry (sdata st) k h idx (\<lambda>e. if is_expired c e then Inl ()
         else case as_string (val e) of Some s \<Rightarrow> Inr (write_bulk out s, True) | None \<Rightarrow> Inr (out, False)) of
       Some (Inr (out', True)) \<Rightarrow> ((st, out'), True)
     | Some (Inl _) \<Rightarrow> ((st\<lparr>sdata := fst (cm_remove (sdata st) k)\<rparr>, out), False)
     | _ \<Rightarrow> ((st, out), False))"

definition store_getdel :: "clock \<Rightarrow> store \<Rightarrow> string \<Rightarrow> store \<times> string option" where
  "store_getdel c st k = (case cm_remove (sdata st) k of
       (m, None) \<Rightarrow> (st\<lparr>sdata := m\<rparr>, None)
     | (m, Some e) \<Rightarrow> (st\<lparr>sdata := m\<rparr>, if is_expired c e then None else as_string (val e)))"

definition store_getset :: "clock \<Rightarrow> store \<Rightarrow> string \<Rightarrow> string \<Rightarrow> store \<times> string option" where
  "store_getset c st k new_value = (case cm_try_update (sdata st) k (\<lambda>e. Some (sv_string new_value,
         if is_expired c e then None else as_string (val e))) of
       (m, Some old) \<Rightarrow> (st\<lparr>sdata := m\<rparr>, old)
     | (m, None) \<Rightarrow> (put_key (st\<lparr>sdata := m\<rparr>) k (sv_string new_value), None))"

definition store_getex_ms :: "clock \<Rightarrow> store \<Rightarrow> string \<Rightarrow> u64 \<Rightarrow> store \<times> string option" where
  "store_getex_ms c st k t = (case cm_update_with (sdata st) k (\<lambda>e.
         if is_expired c e then (e, None, 0)
         else case as_string (val e) of None \<Rightarrow> (e, None, 0)
           | Some s \<Rightarrow> (e\<lparr>expires_ms := t\<rparr>, Some s,
               if expires_ms e = 0 \<and> t \<noteq> 0 then 1 else if expires_ms e \<noteq> 0 \<and> t = 0 then - 1 else (0 :: int))) of
       (m, None) \<Rightarrow> (st\<lparr>sdata := m\<rparr>, None)
     | (m, Some (r, ttl_change)) \<Rightarrow> (let st1 = st\<lparr>sdata := m\<rparr> in
         (if ttl_change = 1 then add_ttl st1 else if ttl_change = - 1 then sub_ttl st1 else st1, r)))"

definition store_setnx :: "clock \<Rightarrow> store \<Rightarrow> string \<Rightarrow> string \<Rightarrow> store \<times> bool" where
  "store_setnx c st k v = (case cm_try_update (sdata st) k
         (\<lambda>e. if is_expired c e then Some (sv_string v, True) else Some (e, False)) of
       (m, Some replaced) \<Rightarrow> (st\<lparr>sdata := m\<rparr>, replaced)
     | (m, None) \<Rightarrow> (let (m', ok) = cm_insert_if_absent m k (sv_string v) in (st\<lparr>sdata := m'\<rparr>, ok)))"

definition store_append :: "clock \<Rightarrow> store \<Rightarrow> string \<Rightarrow> string \<Rightarrow> store \<times> nat res" where
  "store_append c st k tail = upsert st k
     (on_value c as_string FString (renew (FString tail) (Ok (length tail)))
       (\<lambda>s. (s @ tail, Ok (length (s @ tail)))))
     (sv_string tail) (Ok (length tail))"

definition store_strlen :: "clock \<Rightarrow> store \<Rightarrow> string \<Rightarrow> nat res" where
  "store_strlen c st k = read_value c as_string st k (Ok 0) (\<lambda>s. Ok (length s))"

section \<open>Ranges\<close>

definition is_char_boundary :: "string \<Rightarrow> nat \<Rightarrow> bool" where
  "is_char_boundary s i \<longleftrightarrow> i = 0 \<or> (if i < length s then \<not> byte_in 128 191 (s ! i) else i = length s)"

fun boundary_down :: "string \<Rightarrow> nat \<Rightarrow> nat" where
  "boundary_down s i = (if i > 0 \<and> \<not> is_char_boundary s i then boundary_down s (i - 1) else i)"

function boundary_up :: "string \<Rightarrow> nat \<Rightarrow> nat" where
  "boundary_up s i = (if i < length s \<and> \<not> is_char_boundary s i then boundary_up s (i + 1) else i)"
  by pat_completeness auto

termination
  by (relation "measure (\<lambda>(s, i). length s - i)") auto

declare boundary_down.simps [simp del] boundary_up.simps [simp del]

text \<open>The start and the stop of a range of \<open>n\<close> elements, negative positions counting from the end.\<close>

definition range_start :: "nat \<Rightarrow> int \<Rightarrow> nat" where
  "range_start n start = nat (if start < 0 then max (int n + start) 0 else min start (int n))"

definition range_stop :: "nat \<Rightarrow> int \<Rightarrow> nat" where
  "range_stop n stop = nat (if stop < 0 then max (int n + stop) 0 else min stop (int n - 1))"

definition string_range :: "string \<Rightarrow> int \<Rightarrow> int \<Rightarrow> string" where
  "string_range s start stop = (let n = length s in
     if n = 0 then []
     else let i = range_start n start; j = range_stop n stop in
       if i > j then []
       else let i' = boundary_down s i; j' = boundary_up s (j + 1) in take (j' - i') (drop i' s))"

definition store_getrange :: "clock \<Rightarrow> store \<Rightarrow> string \<Rightarrow> int \<Rightarrow> int \<Rightarrow> string" where
  "store_getrange c st k start stop = (case cm_get (sdata st) k of None \<Rightarrow> []
     | Some e \<Rightarrow> if is_expired c e then []
         else case as_string (val e) of None \<Rightarrow> [] | Some s \<Rightarrow> string_range s start stop)"

definition overwrite :: "string \<Rightarrow> nat \<Rightarrow> string \<Rightarrow> string" where
  "overwrite bs offset v = (let bs' = (if length bs < offset + length v
         then bs @ replicate (offset + length v - length bs) (char_of (0 :: nat)) else bs)
     in take offset bs' @ v @ drop (offset + length v) bs')"

text \<open>An entry is overwritten whatever its expiry, and also when the result is refused.\<close>

definition setrange_closure :: "nat \<Rightarrow> string \<Rightarrow> store_value \<Rightarrow> store_value \<times> nat res" where
  "setrange_closure offset v e = (case as_string (val e) of
      Some s \<Rightarrow> (let bs = overwrite s offset v in
        (e\<lparr>val := FString bs\<rparr>, if valid_utf8 bs then Ok (length bs) else Err ''result would not be valid UTF-8''))
    | None \<Rightarrow> (e, Err WRONGTYPE))"

partial_function (option) store_setrange ::
  "store \<Rightarrow> string \<Rightarrow> nat \<Rightarrow> string \<Rightarrow> (store \<times> nat res) option" where
  "store_setrange st k offset v =
     (if offset + length v \<ge> 2 ^ 64 then Some (st, Err ''offset is out of range'')
      else if offset + length v > MAX_STRING_BYTES then Some (st, Err ''string exceeds maximum allowed size'')
      else case cm_update_with (sdata st) k (setrange_closure offset v) of
          (m, Some r) \<Rightarrow> Some (st\<lparr>sdata := m\<rparr>, r)
        | (m, None) \<Rightarrow>
            (let bs = overwrite [] offset v in
             if \<not> valid_utf8 bs then Some (st\<lparr>sdata := m\<rparr>, Err ''result would not be valid UTF-8'')
             else let (m', ok) = cm_insert_if_absent m k (sv_string bs) in
               if ok then Some (st\<lparr>sdata := m'\<rparr>, Ok (length bs))
               else store_setrange (st\<lparr>sdata := m'\<rparr>) k offset v))"

section \<open>Numbers\<close>

definition int_closure :: "int \<Rightarrow> int option \<Rightarrow> store_value \<Rightarrow> store_value \<times> int res" where
  "int_closure delta fallback e = (case as_string (val e) of
      Some s \<Rightarrow> (case (case parse_i64 s of Some n \<Rightarrow> Some n | None \<Rightarrow> fallback) of
          None \<Rightarrow> (e, Err ''value is not an integer or out of range'')
        | Some n \<Rightarrow> (case checked_add_i64 n delta of
            None \<Rightarrow> (e, Err ''increment or decrement would overflow'')
          | Some new \<Rightarrow> (e\<lparr>val := FString (int_to_string new)\<rparr>, Ok new)))
    | None \<Rightarrow> (e, Err WRONGTYPE))"

text \<open>A missing entry is looked for once more under the creation lock, where text that is no
  number counts as zero.\<close>

definition int_op :: "store \<Rightarrow> string \<Rightarrow> int \<Rightarrow> store \<times> int res" where
  "int_op st k delta = (case cm_update_with (sdata st) k (int_closure delta None) of
       (m, Some r) \<Rightarrow> (st\<lparr>sdata := m\<rparr>, r)
     | (m, None) \<Rightarrow> upsert (st\<lparr>sdata := m\<rparr>) k (int_closure delta (Some 0)) (sv_string (int_to_string delta)) (Ok delta))"

definition store_incr :: "store \<Rightarrow> string \<Rightarrow> store \<times> int res" where
  "store_incr st k = int_op st k 1"

definition store_decr :: "store \<Rightarrow> string \<Rightarrow> store \<times> int res" where
  "store_decr st k = int_op st k (- 1)"

definition store_incrby :: "store \<Rightarrow> string \<Rightarrow> int \<Rightarrow> store \<times> int res" where
  "store_incrby st k by_n = int_op st k by_n"

definition store_decrby :: "store \<Rightarrow> string \<Rightarrow> int \<Rightarrow> store \<times> int res" where
  "store_decrby st k by_n = (case checked_neg_i64 by_n of
      None \<Rightarrow> (st, Err ''increment or decrement would overflow'') | Some delta \<Rightarrow> int_op st k delta)"

definition store_incrbyfloat :: "store \<Rightarrow> string \<Rightarrow> f64 \<Rightarrow> store \<times> f64 res" where
  "store_incrbyfloat st k by_f = upsert st k (\<lambda>e. case as_string (val e) of
       Some s \<Rightarrow> (case parse_f64 s of None \<Rightarrow> (e, Err ''value is not a valid float'')
         | Some n \<Rightarrow> (let new = f_add n by_f in (e\<lparr>val := FString (format_float new)\<rparr>, Ok new)))
     | None \<Rightarrow> (e, Err WRONGTYPE))
     (sv_string (format_float by_f)) (Ok by_f)"

section \<open>The longest common subsequence\<close>

definition string_or_empty :: "clock \<Rightarrow> store \<Rightarrow> string \<Rightarrow> string res" where
  "string_or_empty c st k = read_value c as_string st k (Ok []) Ok"

definition store_lcs :: "clock \<Rightarrow> store \<Rightarrow> string \<Rightarrow> string \<Rightarrow> string res" where
  "store_lcs c st k1 k2 = (case string_or_empty c st k1 of Err e \<Rightarrow> Err e
     | Ok s1 \<Rightarrow> (case string_or_empty c st k2 of Err e \<Rightarrow> Err e
        | Ok s2 \<Rightarrow> (let r = lcs_bytes s1 s2 in Ok (if valid_utf8 r then r else []))))"

definition store_lcs_len :: "clock \<Rightarrow> store \<Rightarrow> string \<Rightarrow> string \<Rightarrow> nat res" where
  "store_lcs_len c st k1 k2 = (case store_lcs c st k1 k2 of Err e \<Rightarrow> Err e | Ok s \<Rightarrow> Ok (length s))"

section \<open>What the commands do\<close>

lemma set_string_laws [store_simps]:
  assumes ok: "store_ok st"
  shows "db (set_string st k s t) = (db st)(k \<mapsto> \<lparr>val = FString s, expires_ms = t\<rparr>)" "store_ok (set_string st k s t)"
proof -
  let ?st = "st\<lparr>sdata := fst (cm_set (sdata st) k \<lparr>val = FString s, expires_ms = t\<rparr>)\<rparr>"
  have "db ?st = (db st)(k \<mapsto> \<lparr>val = FString s, expires_ms = t\<rparr>)" "store_ok ?st"
    using ok by (simp_all add: db_def store_ok_def map_laws)
  then show "db (set_string st k s t) = (db st)(k \<mapsto> \<lparr>val = FString s, expires_ms = t\<rparr>)" "store_ok (set_string st k s t)"
    by (cases "t = 0"; simp add: set_string_def Let_def)+
qed

lemma with_entry_live:
  assumes "store_ok st" "locate (sdata st) k = (h, idx)"
  shows "cm_with_entry (sdata st) k h idx f = map_option f (db st k)"
  using cm_with_entry_lookup [of "sdata st" k f] assms
  by (auto simp: store_ok_def db_def shard_of_def locate_def Let_def)

lemma store_get_laws:
  assumes ok: "store_ok st"
  shows "snd (store_get c st k) = Option.bind (live c st k) as_string"
    and "db (fst (store_get c st k)) = (case db st k of
      Some sv \<Rightarrow> if is_expired c sv then (db st)(k := None) else db st | None \<Rightarrow> db st)"
    and "store_ok (fst (store_get c st k))"
proof -
  obtain h idx where l: "locate (sdata st) k = (h, idx)" by (metis surj_pair)
  note we = with_entry_live [OF ok l]
  show "snd (store_get c st k) = Option.bind (live c st k) as_string"
    by (auto simp: store_get_def l we live_def split: option.splits)
  show "db (fst (store_get c st k)) = (case db st k of
      Some sv \<Rightarrow> if is_expired c sv then (db st)(k := None) else db st | None \<Rightarrow> db st)"
    using ok by (auto simp: store_get_def l we store_ok_def map_laws db_def [of "st\<lparr>sdata := _\<rparr>"] split: option.splits)
      (simp add: db_def)
  show "store_ok (fst (store_get c st k))"
    using ok by (auto simp: store_get_def l we store_ok_def map_laws split: option.splits)
qed



subsection \<open>Integers\<close>

lemma int_op_laws:
  assumes ok: "store_ok st"
  shows "db (fst (int_op st k delta)) = (db st)(k \<mapsto> (case db st k of None \<Rightarrow> sv_string (int_to_string delta)
      | Some sv \<Rightarrow> fst (int_closure delta None sv)))"
    and "snd (int_op st k delta) = (case db st k of None \<Rightarrow> Ok delta | Some sv \<Rightarrow> snd (int_closure delta None sv))"
    and "store_ok (fst (int_op st k delta))"
proof -
  note laws = store_update_with [OF ok, of k "int_closure delta None"]
  define m where "m = fst (cm_update_with (sdata st) k (int_closure delta None))"
  have st: "store_ok (st\<lparr>sdata := m\<rparr>)" "db (st\<lparr>sdata := m\<rparr>) = (case db st k of None \<Rightarrow> db st
      | Some sv \<Rightarrow> (db st)(k \<mapsto> fst (int_closure delta None sv)))"
    using laws by (simp_all add: m_def)
  have up: "cm_update_with (sdata st) k (int_closure delta None) = (m, map_option (snd \<circ> int_closure delta None) (db st k))"
    using laws(1) by (metis m_def prod.collapse)
  show "db (fst (int_op st k delta)) = (db st)(k \<mapsto> (case db st k of None \<Rightarrow> sv_string (int_to_string delta)
      | Some sv \<Rightarrow> fst (int_closure delta None sv)))"
    "snd (int_op st k delta) = (case db st k of None \<Rightarrow> Ok delta | Some sv \<Rightarrow> snd (int_closure delta None sv))"
    "store_ok (fst (int_op st k delta))"
    using st by (auto simp: int_op_def up upsert_laws [OF st(1)] split: option.split)
qed

text \<open>C21: Incrementing a string that holds the decimal form of an integer stores and returns the exact
  sum, and refuses without any change when the sum leaves the 64-bit range; a missing key starts
  from zero.
\<close>

theorem int_op_exact:
  assumes "store_ok st" "in_i64 n" "db st k = Some sv" "val sv = FString (int_to_string n)"
  shows "snd (int_op st k delta) = (if in_i64 (n + delta) then Ok (n + delta) else Err ''increment or decrement would overflow'')
    \<and> db (fst (int_op st k delta)) = (if in_i64 (n + delta)
        then (db st)(k \<mapsto> sv\<lparr>val := FString (int_to_string (n + delta))\<rparr>) else db st)"
proof -
  have "parse_i64 (int_to_string n) = Some n" by (rule parse_i64_int_to_string [OF assms(2)])
  moreover have "(db st)(k \<mapsto> sv) = db st" using assms(3) by auto
  ultimately show ?thesis using assms
    by (simp add: int_op_laws int_closure_def strings.get_put checked_add_i64_def)
qed

theorem int_op_exact_witness:
  "snd (int_op (set_string (store_with_config (\<lambda>_. 3) 2 10) ''a'' (int_to_string 41) 0) ''a'' 1) = Ok 42"
proof -
  let ?st = "set_string (store_with_config (\<lambda>_. 3) 2 10) ''a'' (int_to_string 41) 0"
  have "store_ok ?st" "db ?st ''a'' = Some \<lparr>val = FString (int_to_string 41), expires_ms = 0\<rparr>" by (simp_all add: store_simps)
  moreover have "in_i64 41" "in_i64 (41 + 1)" by (simp_all add: in_i64_bounds)
  ultimately show ?thesis using int_op_exact [of ?st 41 "''a''" _ 1] by simp
qed

text \<open>The increment does not look at the expiry: on a key that has expired and not yet been
  reclaimed it continues from the expired value and leaves the key expired, so that the value it
  returned cannot be read.
\<close>

theorem incr_of_expired_key:
  assumes "store_ok st" "in_i64 n" "in_i64 (n + 1)" "db st k = Some \<lparr>val = FString (int_to_string n), expires_ms = t\<rparr>"
    and "t \<noteq> 0" "t \<le> approx_now_ms c"
  shows "snd (store_incr st k) = Ok (n + 1) \<and> snd (store_get c (fst (store_incr st k)) k) = None"
proof -
  have "parse_i64 (int_to_string n) = Some n" by (rule parse_i64_int_to_string [OF assms(2)])
  then have "db (fst (store_incr st k)) k = Some \<lparr>val = FString (int_to_string (n + 1)), expires_ms = t\<rparr>"
    "snd (store_incr st k) = Ok (n + 1)" "store_ok (fst (store_incr st k))"
    using assms by (simp_all add: store_incr_def int_op_laws int_closure_def strings.get_put checked_add_i64_def)
  then show ?thesis using assms(5,6) by (simp add: store_get_laws live_def is_expired_def)
qed

theorem incr_of_expired_key_witness:
  "snd (store_incr (set_string (store_with_config (\<lambda>_. 3) 2 10) ''a'' (int_to_string 41) 2) ''a'') = Ok 42"
proof -
  let ?st = "set_string (store_with_config (\<lambda>_. 3) 2 10) ''a'' (int_to_string 41) 2"
  let ?c = "\<lparr>unix_ms_cache = 0, system_ms = 5, instant_ns = 0\<rparr>"
  have "store_ok ?st" "db ?st ''a'' = Some \<lparr>val = FString (int_to_string 41), expires_ms = 2\<rparr>" by (simp_all add: store_simps)
  moreover have "in_i64 41" "in_i64 (41 + 1)" by (simp_all add: in_i64_bounds)
  moreover have "2 \<le> approx_now_ms ?c" by (simp add: approx_now_ms_def now_ms_def)
  ultimately show ?thesis using incr_of_expired_key [of ?st 41 "''a''" 2 ?c] by simp
qed

subsection \<open>Ranges\<close>

lemma boundary_down_le: "boundary_down s i \<le> i"
proof (induction s i rule: boundary_down.induct)
  case (1 s i)
  then show ?case by (subst boundary_down.simps) (auto intro: le_trans)
qed

definition setrange_fresh :: "nat \<Rightarrow> string \<Rightarrow> nat res" where
  "setrange_fresh offset v = (let bs = overwrite [] offset v in
     if valid_utf8 bs then Ok (length bs) else Err ''result would not be valid UTF-8'')"

lemma setrange_step:
  assumes ok: "store_ok st" and small: "offset + length v \<le> MAX_STRING_BYTES"
  obtains st' where "store_setrange st k offset v = Some (st', (case db st k of
        Some sv \<Rightarrow> snd (setrange_closure offset v sv) | None \<Rightarrow> setrange_fresh offset v))"
    and "store_ok st'" and "db st' = (case db st k of
        Some sv \<Rightarrow> (db st)(k \<mapsto> fst (setrange_closure offset v sv))
      | None \<Rightarrow> if valid_utf8 (overwrite [] offset v) then (db st)(k \<mapsto> sv_string (overwrite [] offset v)) else db st)"
proof -
  have b: "(offset + length v \<ge> 2 ^ 64) = False" "(offset + length v > MAX_STRING_BYTES) = False"
    using small by (simp_all add: MAX_STRING_BYTES_def)
  note laws = store_update_with [OF ok, of k "setrange_closure offset v"]
  define m where "m = fst (cm_update_with (sdata st) k (setrange_closure offset v))"
  have up: "cm_update_with (sdata st) k (setrange_closure offset v) = (m, map_option (snd \<circ> setrange_closure offset v) (db st k))"
    using laws(1) by (metis m_def prod.collapse)
  have m: "cm_wf m" "cm_lookup m = (case db st k of None \<Rightarrow> db st | Some sv \<Rightarrow> (db st)(k \<mapsto> fst (setrange_closure offset v sv)))"
    using laws by (simp_all add: m_def)
  show ?thesis
  proof (cases "db st k")
    case None
    let ?bs = "overwrite [] offset v"
    obtain m' ok' where ins: "cm_insert_if_absent m k (sv_string ?bs) = (m', ok')" by (metis surj_pair)
    have m': "ok' = True" "cm_wf m'" "cm_lookup m' = (db st)(k \<mapsto> sv_string ?bs)"
      using cm_insert_if_absent_ok [OF m(1), of k "sv_string ?bs"] m(2) None by (simp_all add: ins)
    have r: "store_setrange st k offset v = (if valid_utf8 ?bs then Some (st\<lparr>sdata := m'\<rparr>, Ok (length ?bs))
        else Some (st\<lparr>sdata := m\<rparr>, Err ''result would not be valid UTF-8''))"
      unfolding store_setrange.simps [of st] b up None Let_def by (simp add: ins m'(1))
    show ?thesis
    proof (cases "valid_utf8 ?bs")
      case True
      then show ?thesis using that [of "st\<lparr>sdata := m'\<rparr>"] r m' by (simp add: None setrange_fresh_def)
    next
      case False
      then show ?thesis using that [of "st\<lparr>sdata := m\<rparr>"] r m by (simp add: None setrange_fresh_def)
    qed
  next
    case (Some sv)
    have "store_setrange st k offset v = Some (st\<lparr>sdata := m\<rparr>, snd (setrange_closure offset v sv))"
      unfolding store_setrange.simps [of st] b up Some by simp
    then show ?thesis using that [of "st\<lparr>sdata := m\<rparr>"] m by (simp add: Some)
  qed
qed

text \<open>Overwriting part of a string always returns; when the result is not valid UTF-8 it answers
  with an error and has stored the invalid text all the same.
\<close>

theorem setrange_stores_refused:
  assumes "store_ok st" "offset + length v \<le> MAX_STRING_BYTES" "db st k = Some sv" "val sv = FString s"
    and "\<not> valid_utf8 (overwrite s offset v)"
  shows "\<exists>st'. store_setrange st k offset v = Some (st', Err ''result would not be valid UTF-8'')
    \<and> db st' k = Some (sv\<lparr>val := FString (overwrite s offset v)\<rparr>)"
proof -
  obtain st' where r: "store_setrange st k offset v = Some (st', (case db st k of
        Some sv \<Rightarrow> snd (setrange_closure offset v sv) | None \<Rightarrow> setrange_fresh offset v))"
    and st': "db st' = (case db st k of
        Some sv \<Rightarrow> (db st)(k \<mapsto> fst (setrange_closure offset v sv))
      | None \<Rightarrow> if valid_utf8 (overwrite [] offset v) then (db st)(k \<mapsto> sv_string (overwrite [] offset v)) else db st)"
    by (rule setrange_step [OF assms(1,2)])
  have cl: "setrange_closure offset v sv
      = (sv\<lparr>val := FString (overwrite s offset v)\<rparr>, Err ''result would not be valid UTF-8'')"
    using assms(4,5) by (simp add: setrange_closure_def Let_def)
  show ?thesis using r st' by (simp add: assms(3) cl)
qed

theorem setrange_stores_refused_witness:
  "\<exists>st'. store_setrange (set_string (store_with_config (\<lambda>_. 3) 2 10) ''a'' [char_of (195 :: nat), char_of (169 :: nat)] 0) ''a'' 1 ''z''
      = Some (st', Err ''result would not be valid UTF-8'')"
proof -
  let ?s = "[char_of (195 :: nat), char_of (169 :: nat)]"
  let ?st = "set_string (store_with_config (\<lambda>_. 3) 2 10) ''a'' ?s 0"
  have "overwrite ?s 1 ''z'' = [char_of (195 :: nat), CHR ''z'']" by (simp add: overwrite_def Let_def)
  moreover have "\<not> valid_utf8 [char_of (195 :: nat), CHR ''z'']"
    by (subst valid_utf8.simps) (simp add: utf8_step_def utf8_char_width_def byte_in_def)
  moreover have "store_ok ?st" "db ?st ''a'' = Some \<lparr>val = FString ?s, expires_ms = 0\<rparr>" by (simp_all add: store_simps)
  moreover have "1 + length ''z'' \<le> MAX_STRING_BYTES" by (simp add: MAX_STRING_BYTES_def)
  ultimately show ?thesis using setrange_stores_refused [of ?st 1 "''z''" "''a''"] by fastforce
qed

end
