(* ===== verification/Store_List.thy ===== *)
theory Store_List
  imports Typed_Store Store_String
begin

text \<open>
  The commands on lists (\<open>src/src/storage/list.rs\<close>).  A list is the deque behind its
  representation; the commands work on the deque in place, so they keep the representation.
\<close>

section \<open>Pushing and popping\<close>

definition on_deque :: "(string list \<Rightarrow> string list \<times> 'r) \<Rightarrow> list_inner \<Rightarrow> list_inner \<times> 'r" where
  "on_deque f l = (let (v, r) = f (deque l) in (set_deque l v, r))"

definition store_lpush :: "clock \<Rightarrow> store \<Rightarrow> string \<Rightarrow> string list \<Rightarrow> store \<times> nat res" where
  "store_lpush c st k vs = (let fresh = foldl (\<lambda>l v. v # l) [] vs; renewed = foldl (\<lambda>l v. v # l) [] (rev vs) in
     upsert st k (on_value c as_list FList (renew (FList (LCompact renewed)) (Ok (length renewed)))
       (on_deque (\<lambda>l. let l' = foldl (\<lambda>l v. v # l) l vs in (l', Ok (length l')))))
     (sv_plain (FList (LCompact fresh))) (Ok (length fresh)))"

definition store_rpush :: "clock \<Rightarrow> store \<Rightarrow> string \<Rightarrow> string list \<Rightarrow> store \<times> nat res" where
  "store_rpush c st k vs = (let fresh = foldl (\<lambda>l v. l @ [v]) [] vs in
     upsert st k (on_value c as_list FList (renew (FList (LCompact fresh)) (Ok (length fresh)))
       (on_deque (\<lambda>l. let l' = foldl (\<lambda>l v. l @ [v]) l vs in (l', Ok (length l')))))
     (sv_list fresh) (Ok (length fresh)))"

primrec pop_fronts :: "nat \<Rightarrow> 'a list \<Rightarrow> 'a list \<Rightarrow> 'a list \<times> 'a list" where
  "pop_fronts 0 l out = (l, out)"
| "pop_fronts (Suc n) l out = (case l of [] \<Rightarrow> pop_fronts n l out | v # l' \<Rightarrow> pop_fronts n l' (out @ [v]))"

primrec pop_backs :: "nat \<Rightarrow> 'a list \<Rightarrow> 'a list \<Rightarrow> 'a list \<times> 'a list" where
  "pop_backs 0 l out = (l, out)"
| "pop_backs (Suc n) l out = (if l = [] then pop_backs n l out else pop_backs n (butlast l) (out @ [last l]))"

definition store_lpop :: "clock \<Rightarrow> store \<Rightarrow> string \<Rightarrow> nat \<Rightarrow> store \<times> string list res" where
  "store_lpop c st k n = update_or st k (on_value c as_list FList (leave (Ok []))
     (on_deque (\<lambda>l. let (l', out) = pop_fronts (min n (length l)) l [] in (l', Ok out)))) (Ok [])"

definition store_rpop :: "clock \<Rightarrow> store \<Rightarrow> string \<Rightarrow> nat \<Rightarrow> store \<times> string list res" where
  "store_rpop c st k n = update_or st k (on_value c as_list FList (leave (Ok []))
     (on_deque (\<lambda>l. let (l', out) = pop_backs (min n (length l)) l [] in (l', Ok out)))) (Ok [])"

section \<open>Elements and ranges\<close>

definition normalize_index :: "int \<Rightarrow> nat \<Rightarrow> nat option" where
  "normalize_index index n =
     (if index < 0 then
        (let adjusted = int n + index in
         if adjusted < 0 then None else if nat adjusted < n then Some (nat adjusted) else None)
      else if nat index < n then Some (nat index) else None)"

definition store_llen :: "clock \<Rightarrow> store \<Rightarrow> string \<Rightarrow> nat res" where
  "store_llen c st k = read_value c as_list st k (Ok 0) (\<lambda>l. Ok (length (deque l)))"

definition store_lindex :: "clock \<Rightarrow> store \<Rightarrow> string \<Rightarrow> int \<Rightarrow> string option res" where
  "store_lindex c st k index = read_value c as_list st k (Ok None)
     (\<lambda>l. Ok (map_option ((!) (deque l)) (normalize_index index (length (deque l)))))"

definition store_lset :: "clock \<Rightarrow> store \<Rightarrow> string \<Rightarrow> int \<Rightarrow> string \<Rightarrow> store \<times> bool res" where
  "store_lset c st k index v = update_or st k (on_value c as_list FList (leave (Err ''no such key''))
     (on_deque (\<lambda>l. case normalize_index index (length l) of
         Some i \<Rightarrow> (l[i := v], Ok True) | None \<Rightarrow> (l, Err ''index out of range'')))) (Err ''no such key'')"

definition list_range :: "'a list \<Rightarrow> int \<Rightarrow> int \<Rightarrow> 'a list" where
  "list_range l start stop = (let s = range_start (length l) start; e = range_stop (length l) stop in
     if s > e then [] else take (e - s + 1) (drop s l))"

definition store_lrange :: "clock \<Rightarrow> store \<Rightarrow> string \<Rightarrow> int \<Rightarrow> int \<Rightarrow> string list res" where
  "store_lrange c st k start stop = read_locked c as_list st k (Ok []) (\<lambda>l. Ok (list_range (deque l) start stop))"

definition list_trim :: "'a list \<Rightarrow> int \<Rightarrow> int \<Rightarrow> 'a list" where
  "list_trim l start stop = (let s = range_start (length l) start; e = range_stop (length l) stop in
     if s > e \<or> s \<ge> length l then []
     else let l' = drop s l; keep = min (e - s + 1) (length l') in take keep l')"

definition store_ltrim :: "clock \<Rightarrow> store \<Rightarrow> string \<Rightarrow> int \<Rightarrow> int \<Rightarrow> store \<times> unit res" where
  "store_ltrim c st k start stop = update_or st k (on_value c as_list FList (leave (Ok ()))
     (on_deque (\<lambda>l. (list_trim l start stop, Ok ())))) (Ok ())"

section \<open>Removing, inserting, finding\<close>

text \<open>The three loops of \<open>lrem\<close>: from the front, from the back, and all of them.\<close>

function rem_front :: "nat \<Rightarrow> string \<Rightarrow> string list \<Rightarrow> nat \<Rightarrow> nat \<Rightarrow> string list \<times> nat" where
  "rem_front limit v l i removed =
     (if i < length l \<and> removed < limit then
        if l ! i = v then rem_front limit v (remove_at i l) i (removed + 1) else rem_front limit v l (i + 1) removed
      else (l, removed))"
  by pat_completeness auto

termination
  by (relation "measure (\<lambda>(limit, v, l, i, removed). length l - i)") auto

fun rem_back :: "nat \<Rightarrow> string \<Rightarrow> string list \<Rightarrow> nat \<Rightarrow> nat \<Rightarrow> string list \<times> nat" where
  "rem_back limit v l 0 removed = (l, removed)"
| "rem_back limit v l (Suc i) removed =
     (if removed < limit then
        if l ! i = v then rem_back limit v (remove_at i l) i (removed + 1) else rem_back limit v l i removed
      else (l, removed))"

declare rem_front.simps [simp del]

text \<open>The negation of the smallest 64-bit integer wraps around to itself, which as an unsigned
  number is two to the sixty-third: the same as the unbounded negation.\<close>

definition list_rem :: "int \<Rightarrow> string \<Rightarrow> string list \<Rightarrow> string list \<times> nat" where
  "list_rem n v l =
     (if n > 0 then rem_front (nat n) v l 0 0
      else if n < 0 then rem_back (nat (- n)) v l (length l) 0
      else (filter (\<lambda>x. x \<noteq> v) l, length (filter (\<lambda>x. x = v) l)))"

definition store_lrem :: "clock \<Rightarrow> store \<Rightarrow> string \<Rightarrow> int \<Rightarrow> string \<Rightarrow> store \<times> nat res" where
  "store_lrem c st k n v = update_or st k (on_value c as_list FList (leave (Ok 0))
     (on_deque (\<lambda>l. let (l', removed) = list_rem n v l in (l', Ok removed)))) (Ok 0)"

definition store_linsert :: "clock \<Rightarrow> store \<Rightarrow> string \<Rightarrow> bool \<Rightarrow> string \<Rightarrow> string \<Rightarrow> store \<times> int res" where
  "store_linsert c st k before pivot v = update_or st k (on_value c as_list FList (leave (Ok (- 1)))
     (on_deque (\<lambda>l. case position (\<lambda>x. x = pivot) l of
         Some idx \<Rightarrow> (let l' = insert_at (if before then idx else idx + 1) v l in (l', Ok (int (length l'))))
       | None \<Rightarrow> (l, Ok (- 1))))) (Ok 0)"

text \<open>The loop over the candidate positions, with the count of matches seen so far.\<close>

fun lpos_scan :: "nat \<Rightarrow> nat \<Rightarrow> string \<Rightarrow> string list \<Rightarrow> nat list \<Rightarrow> nat \<Rightarrow> nat list \<Rightarrow> nat list" where
  "lpos_scan skip cnt v l [] found results = results"
| "lpos_scan skip cnt v l (i # is) found results =
     (if l ! i = v then
        if found \<ge> skip then
          (let results' = results @ [i] in
           if cnt > 0 \<and> length results' \<ge> cnt then results' else lpos_scan skip cnt v l is (found + 1) results')
        else lpos_scan skip cnt v l is (found + 1) results
      else lpos_scan skip cnt v l is found results)"

definition list_pos :: "string \<Rightarrow> int \<Rightarrow> nat \<Rightarrow> nat \<Rightarrow> string list \<Rightarrow> nat list" where
  "list_pos v rank cnt maxlen l = (let mx = (if maxlen = 0 then length l else min maxlen (length l)) in
     if rank \<ge> 0 then lpos_scan (if rank = 0 then 0 else nat (rank - 1)) cnt v l [0..<mx] 0 []
     else lpos_scan (nat (- rank - 1)) cnt v l (rev [(if mx < length l then length l - mx else 0)..<length l]) 0 [])"

definition store_lpos :: "clock \<Rightarrow> store \<Rightarrow> string \<Rightarrow> string \<Rightarrow> int \<Rightarrow> nat \<Rightarrow> nat \<Rightarrow> nat list res" where
  "store_lpos c st k v rank cnt maxlen = read_value c as_list st k (Ok []) (\<lambda>l. Ok (list_pos v rank cnt maxlen (deque l)))"

section \<open>Moving between lists\<close>

definition pop_end :: "bool \<Rightarrow> 'a list \<Rightarrow> 'a list \<times> 'a option" where
  "pop_end left l = (if l = [] then (l, None) else if left then (tl l, Some (hd l)) else (butlast l, Some (last l)))"

definition push_end :: "bool \<Rightarrow> 'a \<Rightarrow> 'a list \<Rightarrow> 'a list" where
  "push_end left v l = (if left then v # l else l @ [v])"

definition store_lmove :: "clock \<Rightarrow> store \<Rightarrow> string \<Rightarrow> string \<Rightarrow> bool \<Rightarrow> bool \<Rightarrow> store \<times> string option res" where
  "store_lmove c st src dst left_src left_dst =
     (case update_or st src (on_value c as_list FList (leave (Ok None))
         (on_deque (\<lambda>l. let (l', v) = pop_end left_src l in (l', Ok v)))) (Ok None) of
        (st1, Err e) \<Rightarrow> (st1, Err e)
      | (st1, Ok None) \<Rightarrow> (st1, Ok None)
      | (st1, Ok (Some v)) \<Rightarrow>
          (case (if src = dst then
              upsert st1 dst (\<lambda>e. case as_list (val e) of
                  Some l \<Rightarrow> (e\<lparr>val := FList (set_deque l (push_end left_dst v (deque l)))\<rparr>, Ok ())
                | None \<Rightarrow> (e, Err WRONGTYPE)) (sv_plain (FList (LCompact [v]))) (Ok ())
            else
              upsert st1 dst (on_value c as_list FList (renew (FList (LCompact (push_end left_dst v []))) (Ok ()))
                (on_deque (\<lambda>l. (push_end left_dst v l, Ok ())))) (sv_plain (FList (LCompact (push_end left_dst v [])))) (Ok ())) of
             (st2, Err e) \<Rightarrow> (st2, Err e)
           | (st2, Ok _) \<Rightarrow> (st2, Ok (Some v))))"

section \<open>The loops as functions on lists\<close>

lemma foldl_push: "foldl (\<lambda>l v. v # l) l vs = rev vs @ l" "foldl (\<lambda>l v. l @ [v]) l vs = l @ vs"
  by (induction vs arbitrary: l) simp_all

lemma pop_fronts_take: "n \<le> length l \<Longrightarrow> pop_fronts n l out = (drop n l, out @ take n l)"
proof (induction n arbitrary: l out)
  case (Suc n)
  then show ?case by (cases l) simp_all
qed simp

lemma pop_backs_take: "n \<le> length l \<Longrightarrow> pop_backs n l out = (take (length l - n) l, out @ take n (rev l))"
proof (induction n arbitrary: l out)
  case (Suc n)
  show ?case
  proof (cases l rule: rev_cases)
    case (snoc ys y)
    then show ?thesis using Suc by (simp add: butlast_append)
  qed (use Suc.prems in simp)
qed simp

lemma list_trim_range: "list_trim l start stop = list_range l start stop"
proof -
  have "range_stop (length l) stop < length l \<or> l = []" for l :: "'a list"
    by (cases l) (auto simp: range_stop_def nat_less_iff max_def min_def)
  moreover have "take (min n (length l - i)) (drop i l) = take n (drop i l)" for n i by (simp add: min_def)
  ultimately show ?thesis by (auto simp: list_trim_def list_range_def Let_def)
qed

text \<open>Removing the first \<open>n\<close> occurrences.\<close>

fun drop_occ :: "nat \<Rightarrow> 'a \<Rightarrow> 'a list \<Rightarrow> 'a list" where
  "drop_occ n v [] = []"
| "drop_occ n v (x # xs) = (if n = 0 then x # xs else if x = v then drop_occ (n - 1) v xs else x # drop_occ n v xs)"

lemma drop_occ_0 [simp]: "drop_occ 0 v xs = xs"
  by (cases xs) simp_all

lemma drop_occ_append:
  "v \<notin> set xs \<Longrightarrow> drop_occ n v (xs @ ys) = xs @ drop_occ n v ys"
  by (induction xs) auto

lemma length_drop_occ: "length (drop_occ n v xs) \<le> length xs"
proof (induction xs arbitrary: n)
  case (Cons x xs)
  then show ?case by (auto intro: le_SucI)
qed simp

lemma rem_front_spec:
  "i \<le> length l \<Longrightarrow> removed \<le> limit \<Longrightarrow>
    rem_front limit v l i removed = (take i l @ drop_occ (limit - removed) v (drop i l),
      removed + (length (drop i l) - length (drop_occ (limit - removed) v (drop i l))))"
proof (induction limit v l i removed rule: rem_front.induct)
  case (1 limit v l i removed)
  show ?case
  proof (cases "i < length l \<and> removed < limit")
    case True
    then have dr: "drop i l = l ! i # drop (Suc i) l" by (simp add: Cons_nth_drop_Suc)
    show ?thesis
    proof (cases "l ! i = v")
      case eq: True
      have "drop i (remove_at i l) = drop (Suc i) l" "take i (remove_at i l) = take i l"
        using True by (simp_all add: remove_at_def)
      then have "rem_front limit v (remove_at i l) i (removed + 1) = (take i l @ drop_occ (limit - (removed + 1)) v (drop (Suc i) l),
          removed + 1 + (length (drop (Suc i) l) - length (drop_occ (limit - (removed + 1)) v (drop (Suc i) l))))"
        using 1(1) [OF True eq] True Suc_leI [of i "length l"] by (simp add: le_diff_conv2)
      moreover have "limit - removed \<noteq> 0" "limit - removed - 1 = limit - (removed + 1)" using True by simp_all
      ultimately show ?thesis using True eq length_drop_occ [of "limit - (removed + 1)" v "drop (Suc i) l"]
        by (subst rem_front.simps) (simp add: dr, linarith)
    next
      case ne: False
      have "rem_front limit v l (i + 1) removed = (take (i + 1) l @ drop_occ (limit - removed) v (drop (i + 1) l),
          removed + (length (drop (i + 1) l) - length (drop_occ (limit - removed) v (drop (i + 1) l))))"
        using 1(2) [OF True ne] 1(4) True by simp
      moreover have "take (i + 1) l = take i l @ [l ! i]" using True by (simp add: take_Suc_conv_app_nth)
      ultimately show ?thesis using True ne by (subst rem_front.simps) (simp add: dr)
    qed
  next
    case False
    then have "i = length l \<or> limit = removed" using 1(3,4) by auto
    then show ?thesis using False by (subst rem_front.simps) auto
  qed
qed

lemma rem_back_spec:
  "i \<le> length l \<Longrightarrow> removed \<le> limit \<Longrightarrow>
    rem_back limit v l i removed = (rev (drop_occ (limit - removed) v (rev (take i l))) @ drop i l,
      removed + (i - length (drop_occ (limit - removed) v (rev (take i l)))))"
proof (induction limit v l i removed rule: rem_back.induct)
  case (2 limit v l i removed)
  then have i: "i < length l" by simp
  have tk: "take (Suc i) l = take i l @ [l ! i]" "drop i l = l ! i # drop (Suc i) l"
    using i by (simp_all add: take_Suc_conv_app_nth Cons_nth_drop_Suc)
  show ?case
  proof (cases "removed < limit")
    case lt: True
    show ?thesis
    proof (cases "l ! i = v")
      case eq: True
      have "take i (remove_at i l) = take i l" "drop i (remove_at i l) = drop (Suc i) l" using i by (simp_all add: remove_at_def)
      then have "rem_back limit v (remove_at i l) i (removed + 1) = (rev (drop_occ (limit - (removed + 1)) v (rev (take i l))) @ drop (Suc i) l,
          removed + 1 + (i - length (drop_occ (limit - (removed + 1)) v (rev (take i l)))))"
        using 2(1) [OF lt eq] lt i by simp
      moreover have "limit - removed \<noteq> 0" "limit - removed - 1 = limit - (removed + 1)" using lt by simp_all
      moreover have "length (drop_occ (limit - (removed + 1)) v (rev (take i l))) \<le> i"
        using length_drop_occ [of "limit - (removed + 1)" v "rev (take i l)"] i by simp
      ultimately show ?thesis using lt eq by (simp add: tk)
    next
      case ne: False
      then show ?thesis using 2(2) [OF lt ne] 2(4) lt i by (simp add: tk)
    qed
  next
    case False
    then show ?thesis using 2(3,4) by simp
  qed
qed simp

definition list_rem_spec :: "int \<Rightarrow> string \<Rightarrow> string list \<Rightarrow> string list" where
  "list_rem_spec n v l = (if n > 0 then drop_occ (nat n) v l
     else if n < 0 then rev (drop_occ (nat (- n)) v (rev l)) else removeAll v l)"

lemma list_rem_correct: "list_rem n v l = (list_rem_spec n v l, length l - length (list_rem_spec n v l))"
proof -
  have all: "filter (\<lambda>x. x \<noteq> v) l = removeAll v l" by (induction l) auto
  moreover have "length (filter (\<lambda>x. x = v) l) = length l - length (removeAll v l)"
    using sum_length_filter_compl [of "\<lambda>x. x = v" l] by (simp flip: all)
  ultimately show ?thesis by (simp add: list_rem_def list_rem_spec_def rem_front_spec rem_back_spec)
qed

lemma lpos_scan_spec:
  "lpos_scan skip cnt v l is found results = results @
    (let ms = drop (skip - found) (filter (\<lambda>i. l ! i = v) is) in if cnt = 0 then ms else take (cnt - length results) ms)"
  if "cnt = 0 \<or> length results < cnt"
  using that
proof (induction skip cnt v l "is" found results rule: lpos_scan.induct)
  case (2 skip cnt v l i "is" found results)
  show ?case
  proof (cases "l ! i = v \<and> skip \<le> found")
    case True
    show ?thesis
    proof (cases "cnt > 0 \<and> length (results @ [i]) \<ge> cnt")
      case stop: True
      then have "cnt - length results = 1" using 2(4) by simp
      then show ?thesis using True stop by simp
    next
      case go: False
      then have "cnt = 0 \<or> cnt - length results = Suc (cnt - Suc (length results))" by auto
      then show ?thesis using True go 2(1) by (auto simp: Let_def)
    qed
  next
    case False
    have "found < skip \<Longrightarrow> skip - found = Suc (skip - Suc found)" by simp
    then show ?thesis using False 2(2-4) by (cases "l ! i = v") (simp_all add: Let_def not_le)
  qed
qed simp

section \<open>The list commands implement lists\<close>

datatype list_cmd =
    LPush "string list" | RPush "string list" | LPop nat | RPop nat | LLength | LIndex int
  | LSet int string | LRange int int | LTrim int int | LRem int string | LInsert bool string string
  | LPos string int nat nat

datatype list_reply =
    RCount "nat res" | RInt "int res" | RStrings "string list res" | RElement "string option res" | RFlag "bool res"
  | RDone "unit res" | RPositions "nat list res"

fun list_cmd_exec :: "clock \<Rightarrow> string \<times> list_cmd \<Rightarrow> store \<Rightarrow> store \<times> list_reply" where
  "list_cmd_exec c (k, LPush vs) st = map_prod id RCount (store_lpush c st k vs)"
| "list_cmd_exec c (k, RPush vs) st = map_prod id RCount (store_rpush c st k vs)"
| "list_cmd_exec c (k, LPop n) st = map_prod id RStrings (store_lpop c st k n)"
| "list_cmd_exec c (k, RPop n) st = map_prod id RStrings (store_rpop c st k n)"
| "list_cmd_exec c (k, LLength) st = (st, RCount (store_llen c st k))"
| "list_cmd_exec c (k, LIndex i) st = (st, RElement (store_lindex c st k i))"
| "list_cmd_exec c (k, LSet i v) st = map_prod id RFlag (store_lset c st k i v)"
| "list_cmd_exec c (k, LRange i j) st = (st, RStrings (store_lrange c st k i j))"
| "list_cmd_exec c (k, LTrim i j) st = map_prod id RDone (store_ltrim c st k i j)"
| "list_cmd_exec c (k, LRem n v) st = map_prod id RCount (store_lrem c st k n v)"
| "list_cmd_exec c (k, LInsert b p v) st = map_prod id RInt (store_linsert c st k b p v)"
| "list_cmd_exec c (k, LPos v r n m) st = (st, RPositions (store_lpos c st k v r n m))"

definition pick :: "nat \<Rightarrow> nat \<Rightarrow> 'a list \<Rightarrow> 'a list" where
  "pick skip cnt xs = (let ms = drop skip xs in if cnt = 0 then ms else take cnt ms)"

text \<open>The reply on a list, and the list after it.\<close>

fun list_action :: "list_cmd \<Rightarrow> string list \<Rightarrow> string list \<times> list_reply" where
  "list_action (LPush vs) l = (rev vs @ l, RCount (Ok (length l + length vs)))"
| "list_action (RPush vs) l = (l @ vs, RCount (Ok (length l + length vs)))"
| "list_action (LPop n) l = (drop n l, RStrings (Ok (take n l)))"
| "list_action (RPop n) l = (take (length l - n) l, RStrings (Ok (take n (rev l))))"
| "list_action LLength l = (l, RCount (Ok (length l)))"
| "list_action (LIndex i) l = (l, RElement (Ok (map_option ((!) l) (normalize_index i (length l)))))"
| "list_action (LSet i v) l = (case normalize_index i (length l) of
      Some j \<Rightarrow> (l[j := v], RFlag (Ok True)) | None \<Rightarrow> (l, RFlag (Err ''index out of range'')))"
| "list_action (LRange i j) l = (l, RStrings (Ok (list_range l i j)))"
| "list_action (LTrim i j) l = (list_range l i j, RDone (Ok ()))"
| "list_action (LRem n v) l = (list_rem_spec n v l, RCount (Ok (length l - length (list_rem_spec n v l))))"
| "list_action (LInsert b p v) l = (case position (\<lambda>x. x = p) l of
      Some i \<Rightarrow> (insert_at (if b then i else i + 1) v l, RInt (Ok (int (length l) + 1))) | None \<Rightarrow> (l, RInt (Ok (- 1))))"
| "list_action (LPos v r n m) l = (l, let mx = (if m = 0 then length l else min m (length l)) in
      RPositions (Ok (if r \<ge> 0 then pick (if r = 0 then 0 else nat (r - 1)) n (filter (\<lambda>i. l ! i = v) [0..<mx])
        else pick (nat (- r - 1)) n (filter (\<lambda>i. l ! i = v) (rev [length l - mx..<length l])))))"

fun list_absent :: "list_cmd \<Rightarrow> string list option \<times> list_reply" where
  "list_absent (LPush vs) = (Some (rev vs), RCount (Ok (length vs)))"
| "list_absent (RPush vs) = (Some vs, RCount (Ok (length vs)))"
| "list_absent (LPop n) = (None, RStrings (Ok []))"
| "list_absent (RPop n) = (None, RStrings (Ok []))"
| "list_absent LLength = (None, RCount (Ok 0))"
| "list_absent (LIndex i) = (None, RElement (Ok None))"
| "list_absent (LSet i v) = (None, RFlag (Err ''no such key''))"
| "list_absent (LRange i j) = (None, RStrings (Ok []))"
| "list_absent (LTrim i j) = (None, RDone (Ok ()))"
| "list_absent (LRem n v) = (None, RCount (Ok 0))"
| "list_absent (LInsert b p v) = (None, RInt (Ok 0))"
| "list_absent (LPos v r n m) = (None, RPositions (Ok []))"

fun list_other :: "list_cmd \<Rightarrow> list_reply" where
  "list_other (LPop n) = RStrings (Err WRONGTYPE)" | "list_other (RPop n) = RStrings (Err WRONGTYPE)"
| "list_other (LRange i j) = RStrings (Err WRONGTYPE)" | "list_other (LIndex i) = RElement (Err WRONGTYPE)"
| "list_other (LSet i v) = RFlag (Err WRONGTYPE)" | "list_other (LTrim i j) = RDone (Err WRONGTYPE)"
| "list_other (LInsert b p v) = RInt (Err WRONGTYPE)" | "list_other (LPos v r n m) = RPositions (Err WRONGTYPE)"
| "list_other _ = RCount (Err WRONGTYPE)"

definition list_cmd_spec :: "string \<times> list_cmd \<Rightarrow> (string \<Rightarrow> string list cell) \<Rightarrow> (string \<Rightarrow> string list cell) \<times> list_reply" where
  "list_cmd_spec = cell_spec (list_absent, list_action, list_other)"

definition list_cells :: "clock \<Rightarrow> store \<Rightarrow> string \<Rightarrow> string list cell" where
  "list_cells c = cells as_list deque c"

lemma on_deque_simps [simp]: "deque (fst (on_deque f l)) = fst (f (deque l))" "snd (on_deque f l) = snd (f (deque l))"
  by (simp_all add: on_deque_def case_prod_beta)

interpretation list_view: typed_view as_list FList deque "\<lambda>_. True" ..

text \<open>One command is simulated, given how its closure acts on the deque.\<close>

definition list_step_ok :: "clock \<Rightarrow> store \<Rightarrow> string \<Rightarrow> list_cmd \<Rightarrow> bool" where
  "list_step_ok c st k cmd = cell_step as_list deque (\<lambda>_. True) c st k (list_absent cmd) (list_action cmd) (list_other cmd)
     (list_cmd_exec c (k, cmd) st)"

abbreviation list_inv :: "clock \<Rightarrow> store \<Rightarrow> bool" where
  "list_inv \<equiv> kind_inv as_list (\<lambda>_. True)"

lemma step_update:
  assumes inv: "list_inv c st"
    and ex: "list_cmd_exec c (k, cmd) st = map_prod id R (update_or st k (on_value c as_list FList ex (on_deque f)) d)"
    and spec: "\<And>l. list_action cmd l = (fst (f l), R (snd (f l)))" "list_absent cmd = (None, R d)"
      "list_other cmd = R (Err WRONGTYPE)"
  shows "list_step_ok c st k cmd"
  unfolding list_step_ok_def ex
  by (rule cell_step_reply [where here = f, OF list_view.update_step [OF inv]]) (simp_all add: spec)

lemma step_upsert:
  assumes inv: "list_inv c st"
    and ex: "list_cmd_exec c (k, cmd) st =
      map_prod id R (upsert st k (on_value c as_list FList ex (on_deque f)) (sv_plain (FList w)) d)"
    and spec: "\<And>l. list_action cmd l = (fst (f l), R (snd (f l)))" "list_absent cmd = (Some (deque w), R d)"
      "list_other cmd = R (Err WRONGTYPE)"
  shows "list_step_ok c st k cmd"
  unfolding list_step_ok_def ex
  by (rule cell_step_reply [where here = f, OF list_view.upsert_step [OF inv TrueI refl]]) (simp_all add: spec)

lemma step_read:
  assumes inv: "list_inv c st" and ex: "list_cmd_exec c (k, cmd) st = (st, R r)"
    and r: "r = read_value c as_list st k d (\<lambda>l. f (deque l)) \<or> r = read_locked c as_list st k d (\<lambda>l. f (deque l))"
    and spec: "\<And>l. list_action cmd l = (l, R (f l))" "list_absent cmd = (None, R d)" "list_other cmd = R (Err WRONGTYPE)"
  shows "list_step_ok c st k cmd"
proof -
  have "cell_step as_list deque (\<lambda>_. True) c st k (None, d) (\<lambda>l. (l, f l)) (Err WRONGTYPE) (st, r)"
    using r list_view.read_step [OF inv, of "\<lambda>l. f (deque l)" f k d] by auto
  from cell_step_reply [OF this, of "list_absent cmd" R "list_action cmd" "list_other cmd"] show ?thesis
    unfolding list_step_ok_def ex by (simp add: spec)
qed

lemma list_pos_pick: "list_pos v r n m l = (let mx = (if m = 0 then length l else min m (length l)) in
      if r \<ge> 0 then pick (if r = 0 then 0 else nat (r - 1)) n (filter (\<lambda>i. l ! i = v) [0..<mx])
        else pick (nat (- r - 1)) n (filter (\<lambda>i. l ! i = v) (rev [length l - mx..<length l])))"
proof -
  have "(if x < y then y - x else 0) = y - x" for x y :: nat by simp
  moreover have "lpos_scan skip n v l ixs 0 [] = pick skip n (filter (\<lambda>i. l ! i = v) ixs)" for skip ixs
    using lpos_scan_spec [of n "[]" skip v l ixs 0] by (cases n) (simp_all add: pick_def Let_def)
  ultimately show ?thesis by (simp only: list_pos_def)
qed

lemma list_step_push:
  assumes inv: "list_inv c st"
  shows "list_step_ok c st k (LPush vs)" "list_step_ok c st k (RPush vs)"
proof -
  show "list_step_ok c st k (LPush vs)"
    by (rule step_upsert [OF inv], rule list_cmd_exec.simps(1) [unfolded store_lpush_def Let_def foldl_push])
      (simp_all add: deque_def add.commute)
  show "list_step_ok c st k (RPush vs)"
    by (rule step_upsert [OF inv], rule list_cmd_exec.simps(2) [unfolded store_rpush_def sv_list_def Let_def foldl_push])
      (simp_all add: deque_def add.commute)
qed

lemma list_step_pop:
  assumes inv: "list_inv c st"
  shows "list_step_ok c st k (LPop n)" "list_step_ok c st k (RPop n)"
  by (rule step_update [OF inv], rule list_cmd_exec.simps(3) [unfolded store_lpop_def],
      simp_all add: pop_fronts_take min_def)
    (rule step_update [OF inv], rule list_cmd_exec.simps(4) [unfolded store_rpop_def],
      simp_all add: pop_backs_take min_def)

lemma list_step_edit:
  assumes inv: "list_inv c st"
  shows "list_step_ok c st k (LSet i v)" "list_step_ok c st k (LTrim i j)" "list_step_ok c st k (LRem n v)"
    "list_step_ok c st k (LInsert b p v)"
proof -
  show "list_step_ok c st k (LSet i v)"
    by (rule step_update [OF inv], rule list_cmd_exec.simps(7) [unfolded store_lset_def]) (simp_all split: option.split)
  show "list_step_ok c st k (LTrim i j)"
    by (rule step_update [OF inv], rule list_cmd_exec.simps(9) [unfolded store_ltrim_def]) (simp_all add: list_trim_range)
  show "list_step_ok c st k (LRem n v)"
    by (rule step_update [OF inv], rule list_cmd_exec.simps(10) [unfolded store_lrem_def]) (simp_all add: list_rem_correct)
  have pos: "position (\<lambda>x. x = p) l = Some j \<Longrightarrow> j < length l \<and> p \<in> set l" for l j by (auto simp: position_Some)
  show "list_step_ok c st k (LInsert b p v)"
    by (rule step_update [OF inv], rule list_cmd_exec.simps(11) [unfolded store_linsert_def])
      (auto simp: Let_def dest: pos split: option.split)
qed

lemma list_step_read:
  assumes inv: "list_inv c st"
  shows "list_step_ok c st k LLength" "list_step_ok c st k (LIndex i)" "list_step_ok c st k (LRange i j)"
    "list_step_ok c st k (LPos v r n m)"
proof -
  show "list_step_ok c st k LLength"
    by (rule step_read [where R = RCount, OF inv list_cmd_exec.simps(5)], unfold store_llen_def, rule disjI1 [OF refl]) simp_all
  show "list_step_ok c st k (LIndex i)"
    by (rule step_read [where R = RElement, OF inv list_cmd_exec.simps(6)], unfold store_lindex_def, rule disjI1 [OF refl]) simp_all
  show "list_step_ok c st k (LRange i j)"
    by (rule step_read [where R = RStrings, OF inv list_cmd_exec.simps(8)], unfold store_lrange_def, rule disjI2 [OF refl]) simp_all
  show "list_step_ok c st k (LPos v r n m)"
    by (rule step_read [where R = RPositions, OF inv list_cmd_exec.simps(12)], unfold store_lpos_def, rule disjI1 [OF refl])
      (simp_all add: list_pos_pick Let_def)
qed

lemma list_step: "list_inv c st \<Longrightarrow> list_step_ok c st k cmd"
  by (cases cmd) (simp_all only: list_step_push list_step_pop list_step_edit list_step_read)

interpretation list_sim: simulation "list_inv c" "list_cells c" "list_cmd_exec c" list_cmd_spec for c
  unfolding list_cells_def list_cmd_spec_def
  by (rule list_view.simulation_of_steps) (rule list_step [unfolded list_step_ok_def])

text \<open>C7: any sequence of list commands, on any keys, replies exactly as the specification on plain
  lists does: pushes at both ends, pops, reads by index and range, trims, removals of occurrences,
  insertions beside a pivot and searches, with the error replies of missing keys, bad indices and
  keys of another kind.\<close>

theorem list_commands_refine:
  assumes "store_ok st" and "fresh c st"
  shows "snd (run (list_cmd_exec c) ops st) = snd (run list_cmd_spec ops (list_cells c st))"
  using list_sim.run_results [of c st ops] assms by (simp add: kind_inv_def)

theorem list_commands_refine_witness:
  "snd (run (list_cmd_exec \<lparr>unix_ms_cache = 0, system_ms = 2, instant_ns = 0\<rparr>)
      [(''k'', RPush [''a'', ''b'', ''a'']), (''k'', LPush [''c'', ''d'']), (''k'', LRem (- 1) ''a''),
       (''k'', LInsert False ''c'' ''e''), (''k'', LRange 0 (- 1)), (''j'', LPop 1), (''k'', RPop 2)]
      (store_with_config (\<lambda>_. 3) 2 10))
    = [RCount (Ok 3), RCount (Ok 5), RCount (Ok 1), RInt (Ok 5), RStrings (Ok [''d'', ''c'', ''e'', ''a'', ''b'']),
       RStrings (Ok []), RStrings (Ok [''b'', ''a''])]"
  unfolding list_commands_refine [OF store_with_config_ok(1) fresh_new]
  by (simp add: list_cmd_spec_def cell_spec_def list_cells_def list_rem_spec_def insert_at_def list_range_def range_start_def
      range_stop_def Let_def)

text \<open>\<open>LPUSH\<close> on a list whose expiry has passed, but which has not been reclaimed yet, stores the
  values in the order they were given, whereas on a missing key and on a live list they end up
  reversed in front.\<close>

theorem lpush_expired_order:
  assumes "store_ok st" and "db st k = Some sv" and "is_expired c sv"
  shows "live c (fst (store_lpush c st k vs)) k = Some (FList (LCompact vs))"
  using assms by (simp add: store_lpush_def Let_def foldl_push live_def upsert_laws on_value_def renew_def)

theorem lpush_expired_order_witness:
  "live \<lparr>unix_ms_cache = 9, system_ms = 9, instant_ns = 0\<rparr> (fst (store_lpush \<lparr>unix_ms_cache = 9, system_ms = 9, instant_ns = 0\<rparr>
      (put_key (store_with_config (\<lambda>_. 3) 2 10) ''k'' \<lparr>val = FList (LCompact [''old'']), expires_ms = 5\<rparr>) ''k'' [''a'', ''b''])) ''k''
    = Some (FList (LCompact [''a'', ''b'']))"
  by (rule lpush_expired_order [where sv = "\<lparr>val = FList (LCompact [''old'']), expires_ms = 5\<rparr>"])
    (simp_all add: put_key_laws is_expired_def approx_now_ms_def)

text \<open>When the destination of \<open>LMOVE\<close> holds another kind of value, the command replies
  \<open>WRONGTYPE\<close> after it has taken the element off the source: the element is lost.\<close>

theorem lmove_loses_element:
  assumes ok: "store_ok st" and fr: "fresh c st" and src: "live c st src = Some (FList l)" "deque l \<noteq> []"
    and dst: "live c st dst = Some v" "as_list v = None" and r: "store_lmove c st src dst ls ld = (st', r)"
  shows "r = Err WRONGTYPE" and "live c st' = (live c st)(src \<mapsto> FList (set_deque l (fst (pop_end ls (deque l)))))"
proof -
  have ne: "src \<noteq> dst" using src dst by auto
  let ?f = "on_value c as_list FList (leave (Ok None)) (on_deque (\<lambda>l. let (l', v) = pop_end ls l in (l', Ok v)))"
  obtain st1 r1 where r1: "update_or st src ?f (Ok None) = (st1, r1)" by fastforce
  obtain x where x: "snd (pop_end ls (deque l)) = Some x" using src(2) by (cases ls) (auto simp: pop_end_def)
  note up = lists.update_fresh [OF ok fr, of src "leave (Ok None)" "on_deque (\<lambda>l. let (l', v) = pop_end ls l in (l', Ok v))" "Ok None",
      unfolded r1 fst_conv snd_conv]
  have r1v: "r1 = Ok (Some x)" using up(1) src(1) x by (simp add: on_deque_def case_prod_beta)
  have l1: "live c st1 = (live c st)(src \<mapsto> FList (set_deque l (fst (pop_end ls (deque l)))))"
    using up(2) src(1) by (simp add: on_deque_def case_prod_beta)
  have ok1: "store_ok st1" using update_or_laws(3) [OF ok, of src ?f "Ok None"] r1 by simp
  have d1: "live c st1 dst = Some v" using l1 ne dst(1) by simp
  let ?g = "on_value c as_list FList (renew (FList (LCompact (push_end ld x []))) (Ok ())) (on_deque (\<lambda>l. (push_end ld x l, Ok ())))"
  obtain st2 r2 where r2: "upsert st1 dst ?g (sv_plain (FList (LCompact (push_end ld x [])))) (Ok ()) = (st2, r2)" by fastforce
  note wk = lists.wrong_kind(3,4) [OF ok1 d1 dst(2), of "renew (FList (LCompact (push_end ld x []))) (Ok ())"
      "on_deque (\<lambda>l. (push_end ld x l, Ok ()))" "sv_plain (FList (LCompact (push_end ld x [])))" "Ok ()", unfolded r2 fst_conv snd_conv]
  have "store_lmove c st src dst ls ld = (st2, Err WRONGTYPE)" using ne r1 r1v r2 wk(1) by (simp add: store_lmove_def)
  then show "r = Err WRONGTYPE" "live c st' = (live c st)(src \<mapsto> FList (set_deque l (fst (pop_end ls (deque l)))))"
    using r l1 live_congD [OF wk(2), of c] by simp_all
qed

theorem lmove_loses_element_witness:
  "\<exists>st'. store_lmove \<lparr>unix_ms_cache = 0, system_ms = 2, instant_ns = 0\<rparr>
      (put_key (put_key (store_with_config (\<lambda>_. 3) 2 10) ''s'' (sv_plain (FList (LCompact [''a'', ''b''])))) ''d'' (sv_plain (FString ''x'')))
      ''s'' ''d'' True True = (st', Err WRONGTYPE) \<and> live \<lparr>unix_ms_cache = 0, system_ms = 2, instant_ns = 0\<rparr> st' ''s'' = Some (FList (LCompact [''b'']))"
proof -
  let ?c = "\<lparr>unix_ms_cache = 0, system_ms = 2, instant_ns = 0\<rparr>"
  define st where "st = put_key (put_key (store_with_config (\<lambda>_. 3) 2 10) ''s'' (sv_plain (FList (LCompact [''a'', ''b''])))) ''d'' (sv_plain (FString ''x''))"
  have ok: "store_ok st" "fresh ?c st" "live ?c st ''s'' = Some (FList (LCompact [''a'', ''b'']))" "live ?c st ''d'' = Some (FString ''x'')"
    by (auto simp: st_def put_key_laws fresh_def live_def split: if_splits)
  obtain st' r where r: "store_lmove ?c st ''s'' ''d'' True True = (st', r)" by fastforce
  note lm = lmove_loses_element [OF ok(1-3) _ ok(4) _ r]
  show ?thesis using r lm by (auto simp: st_def deque_def set_deque_def pop_end_def as_list_def)
qed

end
