(* ===== verification/Store_Hash.thy ===== *)
theory Store_Hash
  imports Typed_Store F64_Text
begin

text \<open>
  The commands on hashes (\<open>src/src/storage/hash.rs\<close>), and a simulation of any sequence of them by
  partial functions from fields to values.  The argument \<open>ord\<close> is the iteration order of the
  standard library's hash map.
\<close>

type_synonym pair_order = "(string \<times> string) list \<Rightarrow> (string \<times> string) list"

section \<open>The commands\<close>

text \<open>The loop of \<open>hset\<close> on a live hash.\<close>

definition hset_loop :: "(string \<times> string) list \<Rightarrow> hash_inner \<Rightarrow> hash_inner \<times> nat" where
  "hset_loop fs h = foldl (\<lambda>(h, added) (f, v).
     (fst (hash_insert h f v), if hash_contains_key h f then added else added + 1)) (h, 0) fs"

definition store_hset :: "clock \<Rightarrow> store \<Rightarrow> string \<Rightarrow> (string \<times> string) list \<Rightarrow> store \<times> nat res" where
  "store_hset c st k fs = (let h = FHash (HCompact (flat fs)) in
     upsert st k (on_value c as_hash FHash (renew h (Ok (length fs))) (\<lambda>h. map_prod id Ok (hset_loop fs h)))
       (sv_plain h) (Ok (length fs)))"

definition store_hsetnx :: "clock \<Rightarrow> store \<Rightarrow> string \<Rightarrow> string \<Rightarrow> string \<Rightarrow> store \<times> bool res" where
  "store_hsetnx c st k f v =
     upsert st k (on_value c as_hash FHash (renew (FHash (HCompact (flat [(f, v)]))) (Ok True))
       (\<lambda>h. if hash_contains_key h f then (h, Ok False) else (fst (hash_insert h f v), Ok True)))
       (sv_hash [(f, v)]) (Ok True)"

definition store_hget :: "clock \<Rightarrow> store \<Rightarrow> string \<Rightarrow> string \<Rightarrow> string option res" where
  "store_hget c st k f = read_value c as_hash st k (Ok None) (\<lambda>h. Ok (hash_get h f))"

definition store_hmget :: "clock \<Rightarrow> store \<Rightarrow> string \<Rightarrow> string list \<Rightarrow> string option list res" where
  "store_hmget c st k fs = read_value c as_hash st k (Ok (replicate (length fs) None)) (\<lambda>h. Ok (map (hash_get h) fs))"

definition store_hgetall :: "pair_order \<Rightarrow> clock \<Rightarrow> store \<Rightarrow> string \<Rightarrow> (string \<times> string) list res" where
  "store_hgetall ord c st k = read_locked c as_hash st k (Ok []) (\<lambda>h. Ok (hash_iter ord h))"

text \<open>The filter of \<open>hdel\<close>, which removes while it counts.\<close>

definition hdel_loop :: "pair_order \<Rightarrow> string list \<Rightarrow> hash_inner \<Rightarrow> hash_inner \<times> nat" where
  "hdel_loop ord fs h = foldl (\<lambda>(h, n) f. (fst (hash_remove ord h f), if snd (hash_remove ord h f) \<noteq> None then n + 1 else n)) (h, 0) fs"

definition store_hdel :: "pair_order \<Rightarrow> clock \<Rightarrow> store \<Rightarrow> string \<Rightarrow> string list \<Rightarrow> store \<times> nat res" where
  "store_hdel ord c st k fs =
     update_or st k (on_value c as_hash FHash (leave (Ok 0)) (\<lambda>h. map_prod id Ok (hdel_loop ord fs h))) (Ok 0)"

definition store_hexists :: "clock \<Rightarrow> store \<Rightarrow> string \<Rightarrow> string \<Rightarrow> bool res" where
  "store_hexists c st k f = read_value c as_hash st k (Ok False) (\<lambda>h. Ok (hash_contains_key h f))"

definition store_hlen :: "clock \<Rightarrow> store \<Rightarrow> string \<Rightarrow> nat res" where
  "store_hlen c st k = read_value c as_hash st k (Ok 0) (\<lambda>h. Ok (hash_len h))"

definition store_hkeys :: "pair_order \<Rightarrow> clock \<Rightarrow> store \<Rightarrow> string \<Rightarrow> string list res" where
  "store_hkeys ord c st k = read_locked c as_hash st k (Ok []) (\<lambda>h. Ok (hash_keys ord h))"

definition store_hvals :: "pair_order \<Rightarrow> clock \<Rightarrow> store \<Rightarrow> string \<Rightarrow> string list res" where
  "store_hvals ord c st k = read_locked c as_hash st k (Ok []) (\<lambda>h. Ok (hash_values ord h))"

text \<open>The closures of the increments: an absent field counts as zero.\<close>

definition hincr_field :: "string \<Rightarrow> int \<Rightarrow> hash_inner \<Rightarrow> hash_inner \<times> int res" where
  "hincr_field f by_n h =
     (case parse_i64 (case hash_get h f of Some v \<Rightarrow> v | None \<Rightarrow> ''0'') of
        Some n \<Rightarrow> (case checked_add_i64 n by_n of
            Some new \<Rightarrow> (fst (hash_insert h f (int_to_string new)), Ok new)
          | None \<Rightarrow> (h, Err ''increment or decrement would overflow''))
      | None \<Rightarrow> (h, Err ''value is not an integer or out of range''))"

definition store_hincrby :: "clock \<Rightarrow> store \<Rightarrow> string \<Rightarrow> string \<Rightarrow> int \<Rightarrow> (store \<times> int res) option" where
  "store_hincrby c st k f by_n =
     upsert_retry st k (on_value c as_hash FHash (renew (FHash (HCompact (flat [(f, int_to_string by_n)]))) (Ok by_n)) (hincr_field f by_n))
       (sv_hash [(f, int_to_string by_n)]) (Ok by_n)"

definition hincr_float_field :: "string \<Rightarrow> f64 \<Rightarrow> hash_inner \<Rightarrow> hash_inner \<times> f64 res" where
  "hincr_float_field f by_f h =
     (case parse_f64 (case hash_get h f of Some v \<Rightarrow> v | None \<Rightarrow> ''0'') of
        Some n \<Rightarrow> (let new = f_add n by_f in (fst (hash_insert h f (format_float new)), Ok new))
      | None \<Rightarrow> (h, Err ''value is not a valid float''))"

definition store_hincrbyfloat :: "clock \<Rightarrow> store \<Rightarrow> string \<Rightarrow> string \<Rightarrow> f64 \<Rightarrow> store \<times> f64 res" where
  "store_hincrbyfloat c st k f by_f =
     upsert st k (on_value c as_hash FHash (renew (FHash (HCompact (flat [(f, format_float by_f)]))) (Ok by_f)) (hincr_float_field f by_f))
       (sv_hash [(f, format_float by_f)]) (Ok by_f)"

section \<open>The hash commands implement partial functions\<close>

datatype hash_cmd =
    HashSet "(string \<times> string) list" | HashSetNx string string | HashGet string | HashMGet "string list" | HashGetAll
  | HashDel "string list" | HashExists string | HashLen | HashKeys | HashVals | HashIncrBy string int | HashIncrByFloat string f64

text \<open>Replies whose order depends on the hash map are compared as a map, a set and a multiset.\<close>

datatype hash_reply =
    HRCount "nat res" | HRFlag "bool res" | HRValue "string option res" | HRValues "string option list res"
  | HRMap "(string \<Rightarrow> string option) res" | HRSet "string set res" | HRBag "string multiset res" | HRInt "int res" | HRFloat "f64 res"
  | HRDiverges

fun hash_cmd_exec :: "pair_order \<Rightarrow> clock \<Rightarrow> string \<times> hash_cmd \<Rightarrow> store \<Rightarrow> store \<times> hash_reply" where
  "hash_cmd_exec ord c (k, HashSet fs) st = map_prod id HRCount (store_hset c st k fs)"
| "hash_cmd_exec ord c (k, HashSetNx f v) st = map_prod id HRFlag (store_hsetnx c st k f v)"
| "hash_cmd_exec ord c (k, HashGet f) st = map_prod id HRValue (st, store_hget c st k f)"
| "hash_cmd_exec ord c (k, HashMGet fs) st = map_prod id HRValues (st, store_hmget c st k fs)"
| "hash_cmd_exec ord c (k, HashGetAll) st = map_prod id (\<lambda>r. HRMap (map_sum id map_of r)) (st, store_hgetall ord c st k)"
| "hash_cmd_exec ord c (k, HashDel fs) st = map_prod id HRCount (store_hdel ord c st k fs)"
| "hash_cmd_exec ord c (k, HashExists f) st = map_prod id HRFlag (st, store_hexists c st k f)"
| "hash_cmd_exec ord c (k, HashLen) st = map_prod id HRCount (st, store_hlen c st k)"
| "hash_cmd_exec ord c (k, HashKeys) st = map_prod id (\<lambda>r. HRSet (map_sum id set r)) (st, store_hkeys ord c st k)"
| "hash_cmd_exec ord c (k, HashVals) st = map_prod id (\<lambda>r. HRBag (map_sum id mset r)) (st, store_hvals ord c st k)"
| "hash_cmd_exec ord c (k, HashIncrBy f n) st =
     (case store_hincrby c st k f n of Some r \<Rightarrow> map_prod id HRInt r | None \<Rightarrow> (st, HRDiverges))"
| "hash_cmd_exec ord c (k, HashIncrByFloat f x) st = map_prod id HRFloat (store_hincrbyfloat c st k f x)"

text \<open>On a hash, which is a finite partial function.\<close>

fun hash_here :: "hash_cmd \<Rightarrow> (string \<Rightarrow> string option) \<Rightarrow> (string \<Rightarrow> string option) \<times> hash_reply" where
  "hash_here (HashSet fs) m = (m ++ map_of (rev fs), HRCount (Ok (card (fst ` set fs - dom m))))"
| "hash_here (HashSetNx f v) m = (if m f = None then m(f \<mapsto> v) else m, HRFlag (Ok (m f = None)))"
| "hash_here (HashGet f) m = (m, HRValue (Ok (m f)))"
| "hash_here (HashMGet fs) m = (m, HRValues (Ok (map m fs)))"
| "hash_here HashGetAll m = (m, HRMap (Ok m))"
| "hash_here (HashDel fs) m = (m |` (- set fs), HRCount (Ok (card (dom m \<inter> set fs))))"
| "hash_here (HashExists f) m = (m, HRFlag (Ok (m f \<noteq> None)))"
| "hash_here HashLen m = (m, HRCount (Ok (card (dom m))))"
| "hash_here HashKeys m = (m, HRSet (Ok (dom m)))"
| "hash_here HashVals m = (m, HRBag (Ok (image_mset (the \<circ> m) (mset_set (dom m)))))"
| "hash_here (HashIncrBy f n) m =
     (case parse_i64 (case m f of Some v \<Rightarrow> v | None \<Rightarrow> ''0'') of
        None \<Rightarrow> (m, HRInt (Err ''value is not an integer or out of range''))
      | Some x \<Rightarrow> if in_i64 (x + n) then (m(f \<mapsto> int_to_string (x + n)), HRInt (Ok (x + n)))
          else (m, HRInt (Err ''increment or decrement would overflow'')))"
| "hash_here (HashIncrByFloat f y) m =
     (case parse_f64 (case m f of Some v \<Rightarrow> v | None \<Rightarrow> ''0'') of
        None \<Rightarrow> (m, HRFloat (Err ''value is not a valid float''))
      | Some x \<Rightarrow> (m(f \<mapsto> format_float (f_add x y)), HRFloat (Ok (f_add x y))))"

fun hash_absent :: "hash_cmd \<Rightarrow> (string \<Rightarrow> string option) option \<times> hash_reply" where
  "hash_absent (HashSet fs) = (Some (map_of fs), HRCount (Ok (length fs)))"
| "hash_absent (HashSetNx f v) = (Some [f \<mapsto> v], HRFlag (Ok True))"
| "hash_absent (HashGet f) = (None, HRValue (Ok None))"
| "hash_absent (HashMGet fs) = (None, HRValues (Ok (map (\<lambda>_. None) fs)))"
| "hash_absent HashGetAll = (None, HRMap (Ok Map.empty))"
| "hash_absent (HashDel fs) = (None, HRCount (Ok 0))"
| "hash_absent (HashExists f) = (None, HRFlag (Ok False))"
| "hash_absent HashLen = (None, HRCount (Ok 0))"
| "hash_absent HashKeys = (None, HRSet (Ok {}))"
| "hash_absent HashVals = (None, HRBag (Ok {#}))"
| "hash_absent (HashIncrBy f n) = (Some [f \<mapsto> int_to_string n], HRInt (Ok n))"
| "hash_absent (HashIncrByFloat f x) = (Some [f \<mapsto> format_float x], HRFloat (Ok x))"

fun hash_other :: "hash_cmd \<Rightarrow> hash_reply" where
  "hash_other (HashSetNx f v) = HRFlag (Err WRONGTYPE)" | "hash_other (HashGet f) = HRValue (Err WRONGTYPE)"
| "hash_other (HashMGet fs) = HRValues (Err WRONGTYPE)" | "hash_other HashGetAll = HRMap (Err WRONGTYPE)"
| "hash_other (HashExists f) = HRFlag (Err WRONGTYPE)" | "hash_other HashKeys = HRSet (Err WRONGTYPE)"
| "hash_other HashVals = HRBag (Err WRONGTYPE)" | "hash_other (HashIncrBy f n) = HRInt (Err WRONGTYPE)"
| "hash_other (HashIncrByFloat f x) = HRFloat (Err WRONGTYPE)" | "hash_other _ = HRCount (Err WRONGTYPE)"

definition hash_cmd_spec ::
  "string \<times> hash_cmd \<Rightarrow> (string \<Rightarrow> (string \<Rightarrow> string option) cell) \<Rightarrow> (string \<Rightarrow> (string \<Rightarrow> string option) cell) \<times> hash_reply" where
  "hash_cmd_spec = cell_spec (hash_absent, hash_here, hash_other)"

definition hash_cells :: "clock \<Rightarrow> store \<Rightarrow> string \<Rightarrow> (string \<Rightarrow> string option) cell" where
  "hash_cells c = cells as_hash hash_map c"

text \<open>\<open>HSET\<close> is given each field once.\<close>

definition hash_cmd_pre :: "string \<times> hash_cmd \<Rightarrow> bool" where
  "hash_cmd_pre = (\<lambda>(k, cmd). case cmd of HashSet fs \<Rightarrow> distinct (map fst fs) | _ \<Rightarrow> True)"

interpretation hash_view: typed_view as_hash FHash hash_map hash_wf ..

subsection \<open>The loops\<close>

lemma hset_loop_ok:
  assumes "hash_wf h"
  shows "hash_wf (fst (hset_loop fs h)) \<and> hash_map (fst (hset_loop fs h)) = hash_map h ++ map_of (rev fs)
    \<and> snd (hset_loop fs h) = card (fst ` set fs - dom (hash_map h))"
proof (induction fs rule: rev_induct)
  case Nil
  then show ?case using assms by (simp add: hset_loop_def)
next
  case (snoc p fs)
  obtain f v where p: "p = (f, v)" by fastforce
  let ?h = "fst (hset_loop fs h)"
  have step: "hset_loop (fs @ [p]) h = (fst (hash_insert ?h f v), if hash_contains_key ?h f then snd (hset_loop fs h) else snd (hset_loop fs h) + 1)"
    by (simp add: hset_loop_def p case_prod_beta)
  have wf: "hash_wf ?h" and m: "hash_map ?h = hash_map h ++ map_of (rev fs)" using snoc by simp_all
  have dm: "hash_contains_key ?h f \<longleftrightarrow> f \<in> dom (hash_map h) \<or> f \<in> fst ` set fs"
    using arg_cong [OF m, of dom] by (auto simp: hash_contains_key_def hash_get_map [OF wf] dom_map_of_conv_image_fst)
  have "fst ` set (fs @ [p]) - dom (hash_map h) = (if hash_contains_key ?h f then fst ` set fs - dom (hash_map h)
      else insert f (fst ` set fs - dom (hash_map h)))"
    unfolding dm by (auto simp: p)
  moreover have "\<not> hash_contains_key ?h f \<Longrightarrow> f \<notin> fst ` set fs - dom (hash_map h)" using dm by blast
  ultimately have added: "snd (hset_loop (fs @ [p]) h) = card (fst ` set (fs @ [p]) - dom (hash_map h))"
    using snoc unfolding step by simp
  have "hash_wf (fst (hset_loop (fs @ [p]) h))" "hash_map (fst (hset_loop (fs @ [p]) h)) = hash_map h ++ map_of (rev (fs @ [p]))"
    using hash_insert_ok [OF wf, of f v] unfolding step by (simp_all add: m p)
  with added show ?case by blast
qed

lemma hdel_loop_ok:
  assumes "hash_wf h" and ord: "iteration_order ord"
  shows "hash_wf (fst (hdel_loop ord fs h)) \<and> hash_map (fst (hdel_loop ord fs h)) = hash_map h |` (- set fs)
    \<and> snd (hdel_loop ord fs h) = card (dom (hash_map h) \<inter> set fs)"
proof (induction fs rule: rev_induct)
  case Nil
  then show ?case using assms by (simp add: hdel_loop_def)
next
  case (snoc f fs)
  let ?h = "fst (hdel_loop ord fs h)"
  have step: "hdel_loop ord (fs @ [f]) h = (fst (hash_remove ord ?h f), if snd (hash_remove ord ?h f) \<noteq> None then snd (hdel_loop ord fs h) + 1 else snd (hdel_loop ord fs h))"
    by (simp add: hdel_loop_def case_prod_beta)
  have wf: "hash_wf ?h" and m: "hash_map ?h = hash_map h |` (- set fs)" using snoc by simp_all
  note rm = hash_remove_ok [OF wf ord, of f]
  have "snd (hash_remove ord ?h f) = None \<longleftrightarrow> f \<notin> dom (hash_map h) \<or> f \<in> set fs"
    using rm m by (auto simp: restrict_map_def)
  moreover have "dom (hash_map h) \<inter> set (fs @ [f]) = (if f \<notin> dom (hash_map h) \<or> f \<in> set fs then dom (hash_map h) \<inter> set fs
      else insert f (dom (hash_map h) \<inter> set fs))" by auto
  moreover have "(hash_map h |` (- set fs))(f := None) = hash_map h |` (- set (fs @ [f]))" by (auto simp: restrict_map_def fun_eq_iff)
  ultimately show ?case using snoc rm by (simp add: step m)
qed


subsection \<open>Each command\<close>

definition hash_step_ok :: "pair_order \<Rightarrow> clock \<Rightarrow> store \<Rightarrow> string \<Rightarrow> hash_cmd \<Rightarrow> bool" where
  "hash_step_ok ord c st k cmd = cell_step as_hash hash_map hash_wf c st k (hash_absent cmd) (hash_here cmd) (hash_other cmd)
     (hash_cmd_exec ord c (k, cmd) st)"

abbreviation hash_inv :: "clock \<Rightarrow> store \<Rightarrow> bool" where
  "hash_inv \<equiv> kind_inv as_hash hash_wf"

lemma hash_step_set:
  assumes inv: "hash_inv c st"
  shows "distinct (map fst fs) \<Longrightarrow> hash_step_ok ord c st k (HashSet fs)" "hash_step_ok ord c st k (HashSetNx f v)"
proof -
  show "hash_step_ok ord c st k (HashSet fs)" if "distinct (map fst fs)"
    unfolding hash_step_ok_def hash_cmd_exec.simps store_hset_def Let_def
    by (rule cell_step_reply [where here = "\<lambda>m. (m ++ map_of (rev fs), Ok (card (fst ` set fs - dom m)))", OF hash_view.upsert_step [OF inv]])
      (simp_all add: that hset_loop_ok)
  show "hash_step_ok ord c st k (HashSetNx f v)"
    unfolding hash_step_ok_def hash_cmd_exec.simps store_hsetnx_def sv_hash_def
    by (rule cell_step_reply [where here = "\<lambda>m. (if m f = None then m(f \<mapsto> v) else m, Ok (m f = None))", OF hash_view.upsert_step [OF inv]])
      (simp_all add: hash_contains_key_def hash_get_map hash_insert_ok)
qed

lemma hash_step_del:
  assumes inv: "hash_inv c st" and ord: "iteration_order ord"
  shows "hash_step_ok ord c st k (HashDel fs)"
  unfolding hash_step_ok_def hash_cmd_exec.simps store_hdel_def
  by (rule cell_step_reply [where here = "\<lambda>m. (m |` (- set fs), Ok (card (dom m \<inter> set fs)))", OF hash_view.update_step [OF inv]])
    (simp_all add: hdel_loop_ok ord)

lemma hash_values_bag:
  assumes "hash_wf h" "iteration_order ord"
  shows "mset (hash_values ord h) = image_mset (the \<circ> hash_map h) (mset_set (dom (hash_map h)))"
proof -
  note it = hash_iter_ok [OF assms]
  have "image_mset (the \<circ> map_of ps) (mset_set (fst ` set ps)) = mset (map snd ps)" if "distinct (map fst ps)" for ps :: "(string \<times> string) list"
  proof -
    have "mset_set (fst ` set ps) = mset (map fst ps)" using that mset_set_set [of "map fst ps"] by simp
    moreover have "image_mset (the \<circ> map_of ps) (mset (map fst ps)) = mset (map snd ps)"
      using that by (auto intro!: arg_cong [where f = mset] simp flip: mset_map)
    ultimately show ?thesis by simp
  qed
  then show ?thesis using it by (simp add: dom_map_of_conv_image_fst flip: it(2))
qed

lemma hash_step_read:
  assumes inv: "hash_inv c st" and ord: "iteration_order ord"
  shows "hash_step_ok ord c st k (HashGet f)" "hash_step_ok ord c st k (HashMGet fs)" "hash_step_ok ord c st k HashGetAll"
    "hash_step_ok ord c st k (HashExists f)" "hash_step_ok ord c st k HashLen" "hash_step_ok ord c st k HashKeys"
    "hash_step_ok ord c st k HashVals"
proof -
  note rd = hash_view.read_step [OF inv]
  note laws = hash_get_map hash_len_card hash_contains_key_def
  show "hash_step_ok ord c st k (HashGet f)" unfolding hash_step_ok_def hash_cmd_exec.simps store_hget_def
    by (rule cell_step_reply [OF rd(1) [where g = "\<lambda>m. Ok (m f)"]]) (simp_all add: laws)
  show "hash_step_ok ord c st k (HashMGet fs)" unfolding hash_step_ok_def hash_cmd_exec.simps store_hmget_def
    by (rule cell_step_reply [OF rd(1) [where g = "\<lambda>m. Ok (map m fs)"]]) (simp_all add: laws map_replicate_const)
  show "hash_step_ok ord c st k (HashExists f)" unfolding hash_step_ok_def hash_cmd_exec.simps store_hexists_def
    by (rule cell_step_reply [OF rd(1) [where g = "\<lambda>m. Ok (m f \<noteq> None)"]]) (simp_all add: laws)
  show "hash_step_ok ord c st k HashLen" unfolding hash_step_ok_def hash_cmd_exec.simps store_hlen_def
    by (rule cell_step_reply [OF rd(1) [where g = "\<lambda>m. Ok (card (dom m))"]]) (simp_all add: laws)
  have ok: "store_ok st" using inv by (simp add: kind_inv_def)
  have reply: "map_prod id (\<lambda>r. R (map_sum id F r)) (st, r) = map_prod id R (st, map_sum id F r)" for R F r by simp
  note it = hash_iter_ok [OF _ ord]
  have keys: "hash_wf h \<Longrightarrow> set (hash_keys ord h) = dom (hash_map h)" for h
    using it(1-3) [of h] by (simp flip: it(2) add: dom_map_of_conv_image_fst)
  show "hash_step_ok ord c st k HashGetAll"
    unfolding hash_step_ok_def hash_cmd_exec.simps store_hgetall_def reply read_map(2) [OF ok]
    by (rule cell_step_reply [OF rd(2) [where g = Ok]]) (simp_all add: it)
  show "hash_step_ok ord c st k HashKeys"
    unfolding hash_step_ok_def hash_cmd_exec.simps store_hkeys_def reply read_map(2) [OF ok]
    by (rule cell_step_reply [OF rd(2) [where g = "\<lambda>m. Ok (dom m)"]]) (simp_all add: keys)
  show "hash_step_ok ord c st k HashVals"
    unfolding hash_step_ok_def hash_cmd_exec.simps store_hvals_def reply read_map(2) [OF ok]
    by (rule cell_step_reply [OF rd(2) [where g = "\<lambda>m. Ok (image_mset (the \<circ> m) (mset_set (dom m)))"]])
      (simp_all add: hash_values_bag ord)
qed

definition incr_here :: "string \<Rightarrow> int \<Rightarrow> (string \<Rightarrow> string option) \<Rightarrow> (string \<Rightarrow> string option) \<times> int res" where
  "incr_here f n m = (case parse_i64 (case m f of Some v \<Rightarrow> v | None \<Rightarrow> ''0'') of
        None \<Rightarrow> (m, Err ''value is not an integer or out of range'')
      | Some x \<Rightarrow> if in_i64 (x + n) then (m(f \<mapsto> int_to_string (x + n)), Ok (x + n))
          else (m, Err ''increment or decrement would overflow''))"

lemma hincr_field_ok:
  "hash_wf h \<Longrightarrow> hash_wf (fst (hincr_field f n h)) \<and> hash_map (fst (hincr_field f n h)) = fst (incr_here f n (hash_map h))
     \<and> snd (hincr_field f n h) = snd (incr_here f n (hash_map h))"
  by (auto simp: hincr_field_def incr_here_def hash_get_map hash_insert_ok checked_add_i64_def split: option.split)

lemma hash_step_incr:
  assumes inv: "hash_inv c st"
  shows "hash_step_ok ord c st k (HashIncrBy f n)" "hash_step_ok ord c st k (HashIncrByFloat f x)"
proof -
  obtain st' r where r: "store_hincrby c st k f n = Some (st', r)"
    and step: "cell_step as_hash hash_map hash_wf c st k (Some [f \<mapsto> int_to_string n], Ok n) (incr_here f n) (Err WRONGTYPE) (st', r)"
    unfolding store_hincrby_def sv_hash_def
    by (rule hash_view.retry_step [OF inv, of "HFull [(f, int_to_string n)]" "[f \<mapsto> int_to_string n]" "hincr_field f n" "incr_here f n"])
      (simp_all add: hincr_field_ok)
  have ex: "hash_cmd_exec ord c (k, HashIncrBy f n) st = map_prod id HRInt (st', r)" by (simp add: r)
  show "hash_step_ok ord c st k (HashIncrBy f n)"
    unfolding hash_step_ok_def ex
    by (rule cell_step_reply [OF step]) (simp_all add: incr_here_def split: option.split)
  show "hash_step_ok ord c st k (HashIncrByFloat f x)"
    unfolding hash_step_ok_def hash_cmd_exec.simps store_hincrbyfloat_def sv_hash_def
    by (rule cell_step_reply [where here = "\<lambda>m. case parse_f64 (case m f of Some v \<Rightarrow> v | None \<Rightarrow> ''0'') of
          None \<Rightarrow> (m, Err ''value is not a valid float'')
        | Some y \<Rightarrow> (m(f \<mapsto> format_float (f_add y x)), Ok (f_add y x))", OF hash_view.upsert_step [OF inv]])
      (auto simp: hincr_float_field_def hash_get_map hash_insert_ok Let_def split: option.split)
qed

lemma hash_step:
  "case cmd of HashSet fs \<Rightarrow> distinct (map fst fs) | _ \<Rightarrow> True \<Longrightarrow> hash_inv c st \<Longrightarrow> iteration_order ord \<Longrightarrow> hash_step_ok ord c st k cmd"
  by (cases cmd) (simp_all only: hash_cmd.case hash_step_set hash_step_del hash_step_read hash_step_incr)

lemma hash_sim:
  assumes "iteration_order ord"
  shows "guarded_simulation hash_cmd_pre (hash_inv c) (hash_cells c) (hash_cmd_exec ord c) hash_cmd_spec"
  unfolding hash_cells_def hash_cmd_spec_def hash_cmd_pre_def
  by (rule hash_view.guarded_of_steps) (rule hash_step [unfolded hash_step_ok_def], simp_all add: assms)

interpretation hash_fifo: guarded_simulation hash_cmd_pre "hash_inv c" "hash_cells c" "hash_cmd_exec (\<lambda>ps. ps) c" hash_cmd_spec for c
  by (rule hash_sim) (simp add: iteration_order_def)

section \<open>Properties\<close>

text \<open>C4: Any sequence of hash commands, on any keys, replies what the specification on partial
  functions from fields to values replies, whatever the iteration order of the hash map: the
  number of new and of removed fields, reads, increments with their overflow and syntax errors,
  and the errors of keys of another kind.  The fields of one \<open>HSET\<close> must be distinct.  The retry
  loop of \<open>HINCRBY\<close> always returns.\<close>

theorem hash_commands_refine:
  assumes "store_ok st" and "fresh c st" and "\<And>k h. live c st k = Some (FHash h) \<Longrightarrow> hash_wf h"
    and "iteration_order ord" and "list_all hash_cmd_pre ops"
  shows "snd (run (hash_cmd_exec ord c) ops st) = snd (run hash_cmd_spec ops (hash_cells c st))"
proof -
  have "hash_inv c st" using assms(1-3) by (auto simp: kind_inv_def hashes.get_Some)
  then show ?thesis using guarded_simulation.guarded_run [OF hash_sim [OF assms(4)] assms(5)] by blast
qed

theorem hash_commands_refine_witness:
  "snd (run (hash_cmd_exec rev \<lparr>unix_ms_cache = 0, system_ms = 2, instant_ns = 0\<rparr>)
      [(''h'', HashSet [(''a'', ''1''), (''b'', ''x'')]), (''h'', HashIncrBy ''a'' 41), (''h'', HashIncrBy ''b'' 1),
       (''h'', HashDel [''b'', ''c'', ''b'']), (''h'', HashSetNx ''a'' ''9''), (''h'', HashGet ''a''), (''g'', HashIncrBy ''n'' 7)]
      (store_with_config (\<lambda>_. 3) 2 10))
    = [HRCount (Ok 2), HRInt (Ok 42), HRInt (Err ''value is not an integer or out of range''), HRCount (Ok 1), HRFlag (Ok False),
       HRValue (Ok (Some ''42'')), HRInt (Ok 7)]"
proof -
  let ?c = "\<lparr>unix_ms_cache = 0, system_ms = 2, instant_ns = 0\<rparr>"
  have "parse_i64 ''1'' = Some 1" "parse_i64 ''x'' = None" "int_to_string 42 = ''42''" "in_i64 42"
    by code_simp+
  then show ?thesis
    by (subst hash_commands_refine [OF store_with_config_ok(1) fresh_new])
      (simp_all add: live_def iteration_order_def hash_cmd_pre_def hash_cmd_spec_def cell_spec_def hash_cells_def)
qed

text \<open>\<open>HSET\<close> on a missing key does not merge the fields it is given: a field given twice is stored
  twice, is counted twice, and reads as the first of its values, where on an existing hash the
  last one would win.\<close>

theorem hset_duplicate_fields:
  assumes "store_ok st" and "db st k = None"
  shows "let (st', r) = store_hset c st k [(f, v), (f, w)] in
      r = Ok 2 \<and> store_hlen c st' k = Ok 2 \<and> store_hget c st' k f = Ok (Some v)"
proof -
  obtain st' r where r: "store_hset c st k [(f, v), (f, w)] = (st', r)" by fastforce
  have "db (fst (store_hset c st k [(f, v), (f, w)])) = (db st)(k \<mapsto> sv_plain (FHash (HCompact [f, v, f, w])))"
    "store_ok (fst (store_hset c st k [(f, v), (f, w)]))" "snd (store_hset c st k [(f, v), (f, w)]) = Ok 2"
    unfolding store_hset_def Let_def by (simp_all add: upsert_laws [OF assms(1)] assms(2))
  then show ?thesis
    by (simp add: r store_hlen_def store_hget_def read_value_live live_def hash_len_def hash_get_def)
qed

theorem hset_duplicate_fields_witness:
  "snd (store_hset \<lparr>unix_ms_cache = 0, system_ms = 2, instant_ns = 0\<rparr> (store_with_config (\<lambda>_. 3) 2 10) ''h'' [(''f'', ''1''), (''f'', ''2'')]) = Ok 2"
  using hset_duplicate_fields [of "store_with_config (\<lambda>_. 3) 2 10" "''h''" "\<lparr>unix_ms_cache = 0, system_ms = 2, instant_ns = 0\<rparr>" "''f''" "''1''" "''2''"]
  by (simp add: case_prod_beta)

end
