(* ===== verification/Store_Set.thy ===== *)
theory Store_Set
  imports Typed_Store
begin

text \<open>
  The commands on sets (\<open>src/src/storage/set.rs\<close>): a simulation of the commands on one key by sets
  of strings, and the set algebra of the commands on several keys.  The argument \<open>ord\<close> is the
  iteration order of the standard library's hash sets; a hash set is a list without duplicates.
\<close>

type_synonym member_order = "string list \<Rightarrow> string list"

section \<open>One key\<close>

text \<open>The loops that insert or remove while they count the changes.\<close>

definition sadd_loop :: "string list \<Rightarrow> set_inner \<Rightarrow> set_inner \<times> nat" where
  "sadd_loop mems s = foldl (\<lambda>(s, n) m. (fst (set_insert s m), if snd (set_insert s m) then n + 1 else n)) (s, 0) mems"

definition srem_loop :: "member_order \<Rightarrow> string list \<Rightarrow> set_inner \<Rightarrow> set_inner \<times> nat" where
  "srem_loop ord mems s = foldl (\<lambda>(s, n) m. (fst (set_remove ord s m), if snd (set_remove ord s m) then n + 1 else n)) (s, 0) mems"

definition store_sadd :: "clock \<Rightarrow> store \<Rightarrow> string \<Rightarrow> string list \<Rightarrow> store \<times> nat res" where
  "store_sadd c st k mems = (let (s, added) = sadd_loop mems set_new in
     upsert st k (on_value c as_set FSet (renew (FSet s) (Ok added)) (\<lambda>s. map_prod id Ok (sadd_loop mems s)))
       (sv_plain (FSet s)) (Ok added))"

definition store_srem :: "member_order \<Rightarrow> clock \<Rightarrow> store \<Rightarrow> string \<Rightarrow> string list \<Rightarrow> store \<times> nat res" where
  "store_srem ord c st k mems =
     update_or st k (on_value c as_set FSet (leave (Ok 0)) (\<lambda>s. map_prod id Ok (srem_loop ord mems s))) (Ok 0)"

definition store_sismember :: "clock \<Rightarrow> store \<Rightarrow> string \<Rightarrow> string \<Rightarrow> bool res" where
  "store_sismember c st k m = read_value c as_set st k (Ok False) (\<lambda>s. Ok (set_contains s m))"

definition store_smismember :: "clock \<Rightarrow> store \<Rightarrow> string \<Rightarrow> string list \<Rightarrow> bool list res" where
  "store_smismember c st k mems = read_value c as_set st k (Ok (replicate (length mems) False)) (\<lambda>s. Ok (map (set_contains s) mems))"

definition store_smembers :: "member_order \<Rightarrow> clock \<Rightarrow> store \<Rightarrow> string \<Rightarrow> string list res" where
  "store_smembers ord c st k = read_locked c as_set st k (Ok []) (\<lambda>s. Ok (set_iter ord s))"

definition store_scard :: "clock \<Rightarrow> store \<Rightarrow> string \<Rightarrow> nat res" where
  "store_scard c st k = read_value c as_set st k (Ok 0) (\<lambda>s. Ok (set_len s))"

text \<open>\<open>spop\<close> takes the first member of the iterator, once per round.\<close>

primrec spop_loop :: "member_order \<Rightarrow> nat \<Rightarrow> set_inner \<Rightarrow> string list \<Rightarrow> set_inner \<times> string list" where
  "spop_loop ord 0 s out = (s, out)"
| "spop_loop ord (Suc n) s out = (case set_iter ord s of
      [] \<Rightarrow> spop_loop ord n s out
    | m # _ \<Rightarrow> spop_loop ord n (fst (set_remove ord s m)) (out @ [m]))"

definition store_spop :: "member_order \<Rightarrow> clock \<Rightarrow> store \<Rightarrow> string \<Rightarrow> nat \<Rightarrow> store \<times> string list res" where
  "store_spop ord c st k n = update_or st k (on_value c as_set FSet (leave (Ok []))
     (\<lambda>s. map_prod id Ok (spop_loop ord (min n (set_len s)) s []))) (Ok [])"

text \<open>A negative count asks for that many draws.  \<open>Vec::with_capacity\<close> panics when the strings, of
  twenty-four bytes each, would take more than \<open>isize::MAX\<close> bytes.\<close>

definition vec_capacity_ok :: "nat \<Rightarrow> bool" where
  "vec_capacity_ok n \<longleftrightarrow> 24 * n < 2 ^ 63"

definition draw_member :: "u64 \<Rightarrow> string list \<Rightarrow> nat \<Rightarrow> string" where
  "draw_member seed members i = members ! (unat ((seed + of_nat i) * 0x9e3779b97f4a7c15) mod length members)"

definition set_random :: "u64 \<Rightarrow> int \<Rightarrow> string list \<Rightarrow> string list option" where
  "set_random seed n members =
     (if n \<ge> 0 then Some (take (min (nat n) (length members)) members)
      else if \<not> vec_capacity_ok (nat (- n)) then None
      else Some (map (draw_member seed members) [0..<nat (- n)]))"

definition store_srandmember :: "member_order \<Rightarrow> clock \<Rightarrow> store \<Rightarrow> string \<Rightarrow> int \<Rightarrow> string list res option" where
  "store_srandmember ord c st k n = (case read_value c as_set st k (Ok None) (\<lambda>s. Ok (Some s)) of
      Err e \<Rightarrow> Some (Err e)
    | Ok None \<Rightarrow> Some (Ok [])
    | Ok (Some s) \<Rightarrow> if set_is_empty s then Some (Ok []) else map_option Ok (set_random (now_ms c) n (set_iter ord s)))"

definition store_smove :: "member_order \<Rightarrow> clock \<Rightarrow> store \<Rightarrow> string \<Rightarrow> string \<Rightarrow> string \<Rightarrow> store \<times> bool res" where
  "store_smove ord c st src dst m =
     (case update_or st src (on_value c as_set FSet (leave (Ok False)) (\<lambda>s. map_prod id Ok (set_remove ord s m))) (Ok False) of
        (st1, Err e) \<Rightarrow> (st1, Err e)
      | (st1, Ok removed) \<Rightarrow> if \<not> removed then (st1, Ok False)
          else upsert st1 dst (on_value c as_set FSet (renew (FSet (fst (set_insert set_new m))) (Ok True))
              (\<lambda>s. (fst (set_insert s m), Ok True))) (sv_set [m]) (Ok True))"

section \<open>Several keys\<close>

definition hs_insert :: "string list \<Rightarrow> string \<Rightarrow> string list" where
  "hs_insert acc x = (if x \<in> set acc then acc else acc @ [x])"

definition hs_of :: "string list \<Rightarrow> string list" where
  "hs_of xs = foldl hs_insert [] xs"

text \<open>The set at a key, if there is one.\<close>

definition set_at :: "clock \<Rightarrow> store \<Rightarrow> string \<Rightarrow> set_inner option res" where
  "set_at c st k = read_value c as_set st k (Ok None) (\<lambda>s. Ok (Some s))"

fun sunion_loop :: "member_order \<Rightarrow> clock \<Rightarrow> store \<Rightarrow> string list \<Rightarrow> string list \<Rightarrow> string list res" where
  "sunion_loop ord c st [] acc = Ok (ord acc)"
| "sunion_loop ord c st (k # ks) acc = (case set_at c st k of
      Err e \<Rightarrow> Err e
    | Ok None \<Rightarrow> sunion_loop ord c st ks acc
    | Ok (Some s) \<Rightarrow> sunion_loop ord c st ks (foldl hs_insert acc (set_iter ord s)))"

definition store_sunion :: "member_order \<Rightarrow> clock \<Rightarrow> store \<Rightarrow> string list \<Rightarrow> string list res" where
  "store_sunion ord c st keys = sunion_loop ord c st keys []"

fun sinter_loop :: "member_order \<Rightarrow> clock \<Rightarrow> store \<Rightarrow> string list \<Rightarrow> string list \<Rightarrow> string list res" where
  "sinter_loop ord c st [] acc = Ok (ord acc)"
| "sinter_loop ord c st (k # ks) acc = (case set_at c st k of
      Err e \<Rightarrow> Err e
    | Ok None \<Rightarrow> Ok []
    | Ok (Some s) \<Rightarrow> (let acc' = filter (set_contains s) acc in
        if acc' = [] then Ok (ord acc') else sinter_loop ord c st ks acc'))"

fun store_sinter :: "member_order \<Rightarrow> clock \<Rightarrow> store \<Rightarrow> string list \<Rightarrow> string list res" where
  "store_sinter ord c st [] = Ok []"
| "store_sinter ord c st (k # ks) = (case set_at c st k of
      Err e \<Rightarrow> Err e | Ok None \<Rightarrow> Ok []
    | Ok (Some s) \<Rightarrow> sinter_loop ord c st ks (hs_of (set_iter ord s)))"

fun sdiff_loop :: "member_order \<Rightarrow> clock \<Rightarrow> store \<Rightarrow> string list \<Rightarrow> string list \<Rightarrow> string list res" where
  "sdiff_loop ord c st [] acc = Ok (ord acc)"
| "sdiff_loop ord c st (k # ks) acc = (case set_at c st k of
      Err e \<Rightarrow> Err e
    | Ok None \<Rightarrow> sdiff_loop ord c st ks acc
    | Ok (Some s) \<Rightarrow> sdiff_loop ord c st ks (filter (\<lambda>m. \<not> set_contains s m) acc))"

fun store_sdiff :: "member_order \<Rightarrow> clock \<Rightarrow> store \<Rightarrow> string list \<Rightarrow> string list res" where
  "store_sdiff ord c st [] = Ok []"
| "store_sdiff ord c st (k # ks) = (case set_at c st k of
      Err e \<Rightarrow> Err e | Ok None \<Rightarrow> Ok []
    | Ok (Some s) \<Rightarrow> sdiff_loop ord c st ks (hs_of (set_iter ord s)))"

text \<open>The storing variants collect the members into a hash set and store that.\<close>

definition store_members :: "member_order \<Rightarrow> store \<Rightarrow> string \<Rightarrow> string list res \<Rightarrow> store \<times> nat res" where
  "store_members ord st dst r = (case r of Err e \<Rightarrow> (st, Err e)
     | Ok members \<Rightarrow> (put_key st dst (sv_set (ord (hs_of members))), Ok (length members)))"

definition store_sunionstore :: "member_order \<Rightarrow> clock \<Rightarrow> store \<Rightarrow> string \<Rightarrow> string list \<Rightarrow> store \<times> nat res" where
  "store_sunionstore ord c st dst keys = store_members ord st dst (store_sunion ord c st keys)"

definition store_sinterstore :: "member_order \<Rightarrow> clock \<Rightarrow> store \<Rightarrow> string \<Rightarrow> string list \<Rightarrow> store \<times> nat res" where
  "store_sinterstore ord c st dst keys = store_members ord st dst (store_sinter ord c st keys)"

definition store_sdiffstore :: "member_order \<Rightarrow> clock \<Rightarrow> store \<Rightarrow> string \<Rightarrow> string list \<Rightarrow> store \<times> nat res" where
  "store_sdiffstore ord c st dst keys = store_members ord st dst (store_sdiff ord c st keys)"

definition store_sintercard :: "member_order \<Rightarrow> clock \<Rightarrow> store \<Rightarrow> string list \<Rightarrow> nat \<Rightarrow> nat res" where
  "store_sintercard ord c st keys limit = (case store_sinter ord c st keys of Err e \<Rightarrow> Err e
     | Ok members \<Rightarrow> Ok (if limit > 0 then min (length members) limit else length members))"

section \<open>The loops\<close>

lemma sadd_loop_ok:
  assumes "set_wf s"
  shows "set_wf (fst (sadd_loop mems s)) \<and> set_elems (fst (sadd_loop mems s)) = set_elems s \<union> set mems
    \<and> snd (sadd_loop mems s) = card (set mems - set_elems s)"
proof (induction mems rule: rev_induct)
  case (snoc m mems)
  let ?s = "fst (sadd_loop mems s)"
  have step: "sadd_loop (mems @ [m]) s = (fst (set_insert ?s m), if snd (set_insert ?s m) then snd (sadd_loop mems s) + 1 else snd (sadd_loop mems s))"
    by (simp add: sadd_loop_def case_prod_beta)
  have "set_wf ?s" "set_elems ?s = set_elems s \<union> set mems" using snoc by simp_all
  moreover have "set (mems @ [m]) - set_elems s = (if m \<in> set_elems s \<union> set mems then set mems - set_elems s else insert m (set mems - set_elems s))"
    by auto
  ultimately show ?case using snoc set_insert_ok [of ?s m] by (simp add: step)
qed (simp add: sadd_loop_def assms)

lemma srem_loop_ok:
  assumes "set_wf s" and ord: "iteration_order ord"
  shows "set_wf (fst (srem_loop ord mems s)) \<and> set_elems (fst (srem_loop ord mems s)) = set_elems s - set mems
    \<and> snd (srem_loop ord mems s) = card (set_elems s \<inter> set mems)"
proof (induction mems rule: rev_induct)
  case (snoc m mems)
  let ?s = "fst (srem_loop ord mems s)"
  have step: "srem_loop ord (mems @ [m]) s = (fst (set_remove ord ?s m), if snd (set_remove ord ?s m) then snd (srem_loop ord mems s) + 1 else snd (srem_loop ord mems s))"
    by (simp add: srem_loop_def case_prod_beta)
  have "set_wf ?s" "set_elems ?s = set_elems s - set mems" using snoc by simp_all
  moreover have "set_elems s \<inter> set (mems @ [m]) = (if m \<in> set_elems s - set mems then insert m (set_elems s \<inter> set mems) else set_elems s \<inter> set mems)"
    by auto
  ultimately show ?case using snoc set_remove_ok [of ?s ord m, OF _ ord] by (auto simp: step)
qed (simp add: srem_loop_def assms)

lemma spop_loop_ok:
  assumes "set_wf s" and ord: "iteration_order ord"
  shows "set_wf (fst (spop_loop ord n s out)) \<and> (\<exists>mems. snd (spop_loop ord n s out) = out @ mems \<and> distinct mems
    \<and> set mems \<subseteq> set_elems s \<and> length mems = min n (card (set_elems s)) \<and> set_elems (fst (spop_loop ord n s out)) = set_elems s - set mems)"
  using assms(1)
proof (induction n arbitrary: s out)
  case (Suc n)
  note it = set_iter_ok [OF Suc.prems ord]
  show ?case
  proof (cases "set_iter ord s")
    case Nil
    then show ?thesis using it Suc.IH [OF Suc.prems, of out] by simp
  next
    case (Cons m rest)
    have fin: "finite (set_elems s)" using it(1) by (metis List.finite_set)
    have m: "m \<in> set_elems s" using it(1) Cons by auto
    note rm = set_remove_ok [OF Suc.prems ord, of m]
    obtain mems where mems: "set_wf (fst (spop_loop ord n (fst (set_remove ord s m)) (out @ [m])))"
      "snd (spop_loop ord n (fst (set_remove ord s m)) (out @ [m])) = (out @ [m]) @ mems" "distinct mems" "set mems \<subseteq> set_elems s - {m}"
      "length mems = min n (card (set_elems s - {m}))"
      "set_elems (fst (spop_loop ord n (fst (set_remove ord s m)) (out @ [m]))) = set_elems s - {m} - set mems"
      using Suc.IH [of "fst (set_remove ord s m)" "out @ [m]"] rm by auto
    have "card (set_elems s) = Suc (card (set_elems s - {m}))" using fin m by (metis card_Suc_Diff1)
    then show ?thesis using mems Cons m by (auto intro!: exI [of _ "m # mems"])
  qed
qed (simp add: exI [of _ "[]"])

section \<open>The commands on one key implement sets\<close>

datatype set_cmd =
    SetAdd "string list" | SetRem "string list" | SetIsMember string | SetMIsMember "string list" | SetMembers | SetCard

datatype set_reply = SRCount "nat res" | SRFlag "bool res" | SRFlags "bool list res" | SRSet "string set res"

fun set_cmd_exec :: "member_order \<Rightarrow> clock \<Rightarrow> string \<times> set_cmd \<Rightarrow> store \<Rightarrow> store \<times> set_reply" where
  "set_cmd_exec ord c (k, SetAdd mems) st = map_prod id SRCount (store_sadd c st k mems)"
| "set_cmd_exec ord c (k, SetRem mems) st = map_prod id SRCount (store_srem ord c st k mems)"
| "set_cmd_exec ord c (k, SetIsMember m) st = map_prod id SRFlag (st, store_sismember c st k m)"
| "set_cmd_exec ord c (k, SetMIsMember mems) st = map_prod id SRFlags (st, store_smismember c st k mems)"
| "set_cmd_exec ord c (k, SetMembers) st = map_prod id SRSet (st, map_sum id set (store_smembers ord c st k))"
| "set_cmd_exec ord c (k, SetCard) st = map_prod id SRCount (st, store_scard c st k)"

fun set_here :: "set_cmd \<Rightarrow> string set \<Rightarrow> string set \<times> set_reply" where
  "set_here (SetAdd mems) a = (a \<union> set mems, SRCount (Ok (card (set mems - a))))"
| "set_here (SetRem mems) a = (a - set mems, SRCount (Ok (card (a \<inter> set mems))))"
| "set_here (SetIsMember m) a = (a, SRFlag (Ok (m \<in> a)))"
| "set_here (SetMIsMember mems) a = (a, SRFlags (Ok (map (\<lambda>m. m \<in> a) mems)))"
| "set_here SetMembers a = (a, SRSet (Ok a))"
| "set_here SetCard a = (a, SRCount (Ok (card a)))"

text \<open>An absent key is an empty set, except that reading it does not create it.\<close>

fun set_absent :: "set_cmd \<Rightarrow> string set option \<times> set_reply" where
  "set_absent (SetAdd mems) = (Some (set mems), SRCount (Ok (card (set mems))))"
| "set_absent cmd = (None, snd (set_here cmd {}))"

fun set_other :: "set_cmd \<Rightarrow> set_reply" where
  "set_other (SetIsMember m) = SRFlag (Err WRONGTYPE)" | "set_other (SetMIsMember mems) = SRFlags (Err WRONGTYPE)"
| "set_other SetMembers = SRSet (Err WRONGTYPE)" | "set_other _ = SRCount (Err WRONGTYPE)"

definition set_cmd_spec :: "string \<times> set_cmd \<Rightarrow> (string \<Rightarrow> string set cell) \<Rightarrow> (string \<Rightarrow> string set cell) \<times> set_reply" where
  "set_cmd_spec = cell_spec (set_absent, set_here, set_other)"

definition set_cells :: "clock \<Rightarrow> store \<Rightarrow> string \<Rightarrow> string set cell" where
  "set_cells c = cells as_set set_elems c"

interpretation set_view: typed_view as_set FSet set_elems set_wf ..

abbreviation set_inv :: "clock \<Rightarrow> store \<Rightarrow> bool" where
  "set_inv \<equiv> kind_inv as_set set_wf"

lemma set_new_views [simp]: "set_wf set_new" "set_elems set_new = {}"
  by (simp_all add: set_new_def)

lemma set_step:
  assumes inv: "set_inv c st" and ord: "iteration_order ord"
  shows "cell_step as_set set_elems set_wf c st k (set_absent cmd) (set_here cmd) (set_other cmd) (set_cmd_exec ord c (k, cmd) st)"
proof (cases cmd)
  note rd = set_view.read_step [OF inv]
  have ok: "store_ok st" using inv by (simp add: kind_inv_def)
  {
    case (SetAdd mems)
    have "store_sadd c st k mems = upsert st k (on_value c as_set FSet (renew (FSet (fst (sadd_loop mems set_new))) (Ok (snd (sadd_loop mems set_new))))
        (\<lambda>s. map_prod id Ok (sadd_loop mems s))) (sv_plain (FSet (fst (sadd_loop mems set_new)))) (Ok (snd (sadd_loop mems set_new)))"
      by (simp add: store_sadd_def case_prod_beta)
    then show ?thesis unfolding SetAdd set_cmd_exec.simps
      using cell_step_reply [where R = SRCount and here = "\<lambda>a. (a \<union> set mems, Ok (card (set mems - a)))", OF set_view.upsert_step [OF inv]]
      by (simp add: sadd_loop_ok)
  next
    case (SetRem mems)
    show ?thesis unfolding SetRem set_cmd_exec.simps store_srem_def
      by (rule cell_step_reply [where here = "\<lambda>a. (a - set mems, Ok (card (a \<inter> set mems)))", OF set_view.update_step [OF inv]])
        (simp_all add: srem_loop_ok ord)
  next
    case (SetIsMember m)
    show ?thesis unfolding SetIsMember set_cmd_exec.simps store_sismember_def
      by (rule cell_step_reply [OF rd(1) [where g = "\<lambda>a. Ok (m \<in> a)"]]) (simp_all add: set_contains_ok)
  next
    case (SetMIsMember mems)
    show ?thesis unfolding SetMIsMember set_cmd_exec.simps store_smismember_def
      by (rule cell_step_reply [OF rd(1) [where g = "\<lambda>a. Ok (map (\<lambda>m. m \<in> a) mems)"]])
        (simp_all add: set_contains_ok map_replicate_const)
  next
    case SetMembers
    show ?thesis unfolding SetMembers set_cmd_exec.simps store_smembers_def read_map(2) [OF ok]
      by (rule cell_step_reply [OF rd(2) [where g = Ok]]) (simp_all add: set_iter_ok ord)
  next
    case SetCard
    show ?thesis unfolding SetCard set_cmd_exec.simps store_scard_def
      by (rule cell_step_reply [OF rd(1) [where g = "\<lambda>a. Ok (card a)"]]) (simp_all add: set_len_card)
  }
qed

lemma set_sim:
  "iteration_order ord \<Longrightarrow> simulation (set_inv c) (set_cells c) (set_cmd_exec ord c) set_cmd_spec"
  unfolding set_cells_def set_cmd_spec_def by (rule set_view.simulation_of_steps) (rule set_step)

interpretation set_fifo: simulation "set_inv c" "set_cells c" "set_cmd_exec (\<lambda>xs. xs) c" set_cmd_spec for c
  by (rule set_sim) (simp add: iteration_order_def)

section \<open>The set algebra\<close>

text \<open>The members at a key.\<close>

definition members_at :: "clock \<Rightarrow> store \<Rightarrow> string \<Rightarrow> string set" where
  "members_at c st k = (case live c st k of Some (FSet s) \<Rightarrow> set_elems s | _ \<Rightarrow> {})"

text \<open>A key that holds nothing or a set.\<close>

definition set_or_absent :: "clock \<Rightarrow> store \<Rightarrow> string \<Rightarrow> bool" where
  "set_or_absent c st k = (case live c st k of Some v \<Rightarrow> as_set v \<noteq> None | None \<Rightarrow> True)"

lemma hs_insert_fold: "distinct acc \<Longrightarrow> distinct (foldl hs_insert acc xs) \<and> set (foldl hs_insert acc xs) = set acc \<union> set xs"
  by (induction xs arbitrary: acc) (auto simp: hs_insert_def)

lemma hs_of_ok [simp]: "distinct (hs_of xs)" "set (hs_of xs) = set xs"
  using hs_insert_fold [of "[]" xs] by (simp_all add: hs_of_def)

lemma ord_distinct: "iteration_order ord \<Longrightarrow> set (ord xs) = set xs \<and> (distinct xs \<longrightarrow> distinct (ord xs))"
  using iteration_order_mset [of ord xs] mset_eq_setD [of "ord xs" xs] mset_eq_imp_distinct_iff [of "ord xs" xs] by auto

definition sets_good :: "clock \<Rightarrow> store \<Rightarrow> bool" where
  "sets_good c st \<longleftrightarrow> store_ok st \<and> (\<forall>k s. live c st k = Some (FSet s) \<longrightarrow> set_wf s)"

lemma set_at_cases:
  assumes "sets_good c st" and "set_or_absent c st k"
  obtains (none) "set_at c st k = Ok None" "members_at c st k = {}"
  | (some) s where "set_at c st k = Ok (Some s)" "members_at c st k = set_elems s" "set_wf s"
proof (cases "live c st k")
  case None
  then show ?thesis using that(1) assms(1) by (simp add: sets_good_def set_at_def read_value_live members_at_def)
next
  case (Some v)
  then obtain s where "v = FSet s" using assms(2) by (auto simp: set_or_absent_def sets.get_Some)
  then show ?thesis using that(2) [of s] Some assms(1) by (simp add: sets_good_def set_at_def read_value_live members_at_def)
qed

text \<open>A result lists the members of a set once each.\<close>

definition lists_set :: "string list res \<Rightarrow> string set \<Rightarrow> bool" where
  "lists_set r a \<longleftrightarrow> (\<exists>xs. r = Ok xs \<and> distinct xs \<and> set xs = a)"

lemma lists_setI: "iteration_order ord \<Longrightarrow> distinct acc \<Longrightarrow> a = set acc \<Longrightarrow> lists_set (Ok (ord acc)) a"
  using ord_distinct [of ord acc] by (simp add: lists_set_def)

lemma sunion_loop_ok:
  assumes good: "sets_good c st" and ord: "iteration_order ord"
  shows "\<forall>k\<in>set ks. set_or_absent c st k \<Longrightarrow> distinct acc \<Longrightarrow>
    lists_set (sunion_loop ord c st ks acc) (set acc \<union> (\<Union>k\<in>set ks. members_at c st k))"
proof (induction ks arbitrary: acc)
  case (Cons k ks)
  have "set_or_absent c st k" using Cons.prems by simp
  with good show ?case
  proof (cases rule: set_at_cases)
    case (some s)
    note it = hs_insert_fold [OF Cons.prems(2), of "set_iter ord s"] set_iter_ok [OF some(3) ord]
    show ?thesis using Cons.IH [of "foldl hs_insert acc (set_iter ord s)"] Cons.prems some it by (simp add: Un_assoc)
  qed (use Cons in simp)
qed (simp add: lists_setI ord)

lemma sinter_loop_ok:
  assumes good: "sets_good c st" and ord: "iteration_order ord"
  shows "\<forall>k\<in>set ks. set_or_absent c st k \<Longrightarrow> distinct acc \<Longrightarrow>
    lists_set (sinter_loop ord c st ks acc) (set acc \<inter> (\<Inter>k\<in>set ks. members_at c st k))"
proof (induction ks arbitrary: acc)
  case (Cons k ks)
  have "set_or_absent c st k" using Cons.prems by simp
  with good show ?case
  proof (cases rule: set_at_cases)
    case (some s)
    have acc': "set (filter (set_contains s) acc) = set acc \<inter> members_at c st k" using some by (auto simp: set_contains_ok)
    show ?thesis
    proof (cases "filter (set_contains s) acc = []")
      case True
      then have "set acc \<inter> members_at c st k = {}" using acc' by (metis list.set(1))
      then show ?thesis using True some by (auto simp: Let_def intro!: lists_setI [OF ord])
    next
      case False
      have "lists_set (sinter_loop ord c st ks (filter (set_contains s) acc)) (set acc \<inter> members_at c st k \<inter> (\<Inter>k\<in>set ks. members_at c st k))"
        using Cons.IH [of "filter (set_contains s) acc"] Cons.prems by (simp only: acc') simp
      then show ?thesis using False some(1) by (simp add: Let_def Int_assoc)
    qed
  qed (auto simp: lists_set_def)
qed (simp add: lists_setI ord)

lemma sdiff_loop_ok:
  assumes good: "sets_good c st" and ord: "iteration_order ord"
  shows "\<forall>k\<in>set ks. set_or_absent c st k \<Longrightarrow> distinct acc \<Longrightarrow>
    lists_set (sdiff_loop ord c st ks acc) (set acc - (\<Union>k\<in>set ks. members_at c st k))"
proof (induction ks arbitrary: acc)
  case (Cons k ks)
  have "set_or_absent c st k" using Cons.prems by simp
  with good show ?case
  proof (cases rule: set_at_cases)
    case (some s)
    have "set (filter (\<lambda>m. \<not> set_contains s m) acc) = set acc - members_at c st k" using some by (auto simp: set_contains_ok)
    then show ?thesis using Cons.IH [of "filter (\<lambda>m. \<not> set_contains s m) acc"] Cons.prems some(1) by (simp add: Diff_eq Int_assoc)
  qed (use Cons in simp)
qed (simp add: lists_setI ord)

section \<open>Properties\<close>

text \<open>C8: Any sequence of commands on single sets replies what the specification on sets of strings
  replies, through the integer, vector and hash representations and whatever the iteration order:
  how many members were new or were removed, membership, the members and their number, and the
  errors of keys of another kind.\<close>

theorem set_commands_refine:
  assumes "store_ok st" and "fresh c st" and "\<And>k s. live c st k = Some (FSet s) \<Longrightarrow> set_wf s" and "iteration_order ord"
  shows "snd (run (set_cmd_exec ord c) ops st) = snd (run set_cmd_spec ops (set_cells c st))"
proof -
  have "set_inv c st" using assms(1-3) by (auto simp: kind_inv_def sets.get_Some)
  then show ?thesis by (rule simulation.run_results [OF set_sim [OF assms(4)]])
qed

theorem set_commands_refine_witness:
  "snd (run (set_cmd_exec rev \<lparr>unix_ms_cache = 0, system_ms = 2, instant_ns = 0\<rparr>)
      [(''s'', SetAdd [''7'', ''x'', ''7'']), (''s'', SetIsMember ''x''), (''s'', SetRem [''x'', ''y'']), (''s'', SetCard), (''t'', SetMembers)]
      (store_with_config (\<lambda>_. 3) 2 10))
    = [SRCount (Ok 2), SRFlag (Ok True), SRCount (Ok 1), SRCount (Ok 1), SRSet (Ok {})]"
  by (subst set_commands_refine [OF store_with_config_ok(1) fresh_new])
    (simp_all add: live_def iteration_order_def set_cmd_spec_def cell_spec_def set_cells_def card_insert_if insert_Diff_if Int_insert_left)

lemma set_algebra_laws:
  assumes "store_ok st" and "\<And>k s. live c st k = Some (FSet s) \<Longrightarrow> set_wf s" and ord: "iteration_order ord"
    and keys: "\<And>x. x \<in> set (k # ks) \<Longrightarrow> set_or_absent c st x"
  shows "lists_set (store_sunion ord c st (k # ks)) (\<Union>x\<in>set (k # ks). members_at c st x)"
    and "lists_set (store_sinter ord c st (k # ks)) (\<Inter>x\<in>set (k # ks). members_at c st x)"
    and "lists_set (store_sdiff ord c st (k # ks)) (members_at c st k - (\<Union>x\<in>set ks. members_at c st x))"
proof -
  have good: "sets_good c st" using assms(1,2) by (simp add: sets_good_def)
  have ks: "\<forall>x\<in>set ks. set_or_absent c st x" and k: "set_or_absent c st k" using keys by simp_all
  show "lists_set (store_sunion ord c st (k # ks)) (\<Union>x\<in>set (k # ks). members_at c st x)"
    using sunion_loop_ok [OF good ord, of "k # ks" "[]"] keys by (simp add: store_sunion_def del: sunion_loop.simps)
  from good k show "lists_set (store_sinter ord c st (k # ks)) (\<Inter>x\<in>set (k # ks). members_at c st x)"
  proof (cases rule: set_at_cases)
    case (some s)
    then show ?thesis using sinter_loop_ok [OF good ord ks, of "hs_of (set_iter ord s)"] set_iter_ok [OF some(3) ord] by simp
  qed (simp add: lists_set_def)
  from good k show "lists_set (store_sdiff ord c st (k # ks)) (members_at c st k - (\<Union>x\<in>set ks. members_at c st x))"
  proof (cases rule: set_at_cases)
    case (some s)
    then show ?thesis using sdiff_loop_ok [OF good ord ks, of "hs_of (set_iter ord s)"] set_iter_ok [OF some(3) ord] by simp
  qed (simp add: lists_set_def)
qed

text \<open>C24: Over keys that hold sets or nothing, \<open>SUNION\<close>, \<open>SINTER\<close> and \<open>SDIFF\<close> list exactly the union,
  the intersection and the difference of the sets, each member once.\<close>

theorem set_algebra:
  assumes "store_ok st" and "\<And>k s. live c st k = Some (FSet s) \<Longrightarrow> set_wf s" and ord: "iteration_order ord"
    and keys: "\<And>x. x \<in> set (k # ks) \<Longrightarrow> set_or_absent c st x"
  shows "lists_set (store_sunion ord c st (k # ks)) (\<Union>x\<in>set (k # ks). members_at c st x)
    \<and> lists_set (store_sinter ord c st (k # ks)) (\<Inter>x\<in>set (k # ks). members_at c st x)
    \<and> lists_set (store_sdiff ord c st (k # ks)) (members_at c st k - (\<Union>x\<in>set ks. members_at c st x))"
  by (intro conjI set_algebra_laws [OF assms])

theorem set_algebra_witness:
  "lists_set (store_sinter rev \<lparr>unix_ms_cache = 0, system_ms = 2, instant_ns = 0\<rparr>
     (put_key (put_key (store_with_config (\<lambda>_. 3) 2 10) ''a'' (sv_plain (FSet (SCompact [''x'', ''y''])))) ''b'' (sv_plain (FSet (SCompact [''y'', ''z'']))))
     [''a'', ''b'']) {''y''}"
proof -
  let ?c = "\<lparr>unix_ms_cache = 0, system_ms = 2, instant_ns = 0\<rparr>"
  define st where "st = put_key (put_key (store_with_config (\<lambda>_. 3) 2 10) ''a'' (sv_plain (FSet (SCompact [''x'', ''y'']))))
    ''b'' (sv_plain (FSet (SCompact [''y'', ''z''])))"
  have "store_ok st" "live ?c st ''a'' = Some (FSet (SCompact [''x'', ''y'']))" "live ?c st ''b'' = Some (FSet (SCompact [''y'', ''z'']))"
    by (simp_all add: st_def put_key_laws live_def)
  moreover have "set_wf s" if "live ?c st k = Some (FSet s)" for k s
    using that by (auto simp: st_def put_key_laws live_def split: if_splits)
  ultimately have "lists_set (store_sinter rev ?c st [''a'', ''b'']) (\<Inter>x\<in>set [''a'', ''b'']. members_at ?c st x)"
    by (intro set_algebra [THEN conjunct2, THEN conjunct1]) (auto simp: iteration_order_def set_or_absent_def as_set_def)
  moreover have "members_at ?c st ''a'' = {''x'', ''y''}" "members_at ?c st ''b'' = {''y'', ''z''}"
    by (simp_all add: st_def put_key_laws live_def members_at_def)
  ultimately show ?thesis by (simp add: st_def)
qed

text \<open>C39: \<open>SPOP\<close> returns the requested number of different members, or all of them, and removes exactly
  these.\<close>

theorem spop_takes:
  assumes ok: "store_ok st" and s: "live c st k = Some (FSet s)" "set_wf s" and ord: "iteration_order ord"
  shows "\<exists>st' mems s'. store_spop ord c st k n = (st', Ok mems) \<and> distinct mems \<and> length mems = min n (card (set_elems s))
    \<and> set mems \<subseteq> set_elems s \<and> live c st' = (live c st)(k \<mapsto> FSet s') \<and> set_wf s' \<and> set_elems s' = set_elems s - set mems"
proof -
  note up = sets.update_live [where k = k and c = c and d = "Ok []", OF ok, of "\<lambda>s. map_prod id Ok (spop_loop ord (min n (set_len s)) s [])"]
  obtain mems where "distinct mems" "set mems \<subseteq> set_elems s" "snd (spop_loop ord (min n (set_len s)) s []) = mems"
    "length mems = min n (card (set_elems s))" "set_wf (fst (spop_loop ord (min n (set_len s)) s []))"
    "set_elems (fst (spop_loop ord (min n (set_len s)) s [])) = set_elems s - set mems"
    using spop_loop_ok [OF s(2) ord, of "min n (set_len s)" "[]"] set_len_card [OF s(2)] by auto
  moreover obtain st' r where r: "store_spop ord c st k n = (st', r)" by fastforce
  ultimately show ?thesis using up s(1) unfolding store_spop_def [symmetric] r by (auto simp: prod_eq_iff)
qed

theorem spop_takes_witness:
  "\<exists>st' m. store_spop rev \<lparr>unix_ms_cache = 0, system_ms = 2, instant_ns = 0\<rparr>
      (put_key (store_with_config (\<lambda>_. 3) 2 10) ''a'' (sv_plain (FSet (SCompact [''x'', ''y''])))) ''a'' 1 = (st', Ok [m]) \<and> m \<in> {''x'', ''y''}"
proof -
  let ?c = "\<lparr>unix_ms_cache = 0, system_ms = 2, instant_ns = 0\<rparr>"
  have "store_ok (put_key (store_with_config (\<lambda>_. 3) 2 10) ''a'' (sv_plain (FSet (SCompact [''x'', ''y'']))))"
    "live ?c (put_key (store_with_config (\<lambda>_. 3) 2 10) ''a'' (sv_plain (FSet (SCompact [''x'', ''y''])))) ''a'' = Some (FSet (SCompact [''x'', ''y'']))"
    by (simp_all add: put_key_laws live_def)
  from spop_takes [OF this, of rev 1] obtain st' mems where
    "store_spop rev ?c (put_key (store_with_config (\<lambda>_. 3) 2 10) ''a'' (sv_plain (FSet (SCompact [''x'', ''y''])))) ''a'' 1 = (st', Ok mems)"
    "length mems = 1" "set mems \<subseteq> {''x'', ''y''}"
    by (auto simp: iteration_order_def)
  then show ?thesis by (cases mems) auto
qed

text \<open>A negative count of \<open>SRANDMEMBER\<close> below a sixth of the 64-bit range makes the allocation of the
  reply panic.\<close>

lemma srandmember_panics:
  assumes "store_ok st" and "live c st k = Some (FSet s)" and "\<not> set_is_empty s" and "n \<le> - (2 ^ 59)"
  shows "store_srandmember ord c st k n = None"
  using assms by (simp add: store_srandmember_def read_value_live set_random_def vec_capacity_ok_def nat_le_eq_zle)

end
