(* ===== verification/Store_ZSet.thy ===== *)
theory Store_ZSet
  imports Typed_Store F64_Text
begin

text \<open>
  The commands on sorted sets (\<open>src/src/storage/zset.rs\<close>): a simulation of the commands on one key by
  vectors of entries in the order of score and member, and the algebra of the commands on several
  keys.  A slice with its start past its end panics, which is \<^const>\<open>None\<close>.
\<close>

section \<open>One key\<close>

record zadd_flags =
  zadd_nx :: bool
  zadd_xx :: bool
  zadd_gt :: bool
  zadd_lt :: bool
  zadd_ch :: bool

definition should_update :: "zadd_flags \<Rightarrow> f64 \<Rightarrow> f64 \<Rightarrow> bool" where
  "should_update fl score old =
     (if zadd_gt fl \<and> zadd_lt fl then \<not> f_eq score old
      else if zadd_gt fl then f_lt old score
      else if zadd_lt fl then f_lt score old
      else True)"

text \<open>One round of the loop of \<open>zadd\<close> on a live sorted set.\<close>

fun zadd_step :: "zadd_flags \<Rightarrow> zset \<times> nat \<times> nat \<Rightarrow> f64 \<times> string \<Rightarrow> zset \<times> nat \<times> nat" where
  "zadd_step fl (z, added, changed) (score, m) =
     (if zadd_nx fl \<or> zadd_xx fl \<or> zadd_gt fl \<or> zadd_lt fl then
        (case zset_get_score z m of
           Some old \<Rightarrow>
             if zadd_nx fl then (z, added, changed)
             else if should_update fl score old then (fst (zset_insert z score m), added, changed + 1)
             else (z, added, changed)
         | None \<Rightarrow>
             if zadd_xx fl then (z, added, changed) else (fst (zset_insert z score m), added + 1, changed))
      else if snd (zset_insert z score m) then (fst (zset_insert z score m), added + 1, changed)
      else (fst (zset_insert z score m), added, changed + 1))"

definition zadd_loop :: "zadd_flags \<Rightarrow> (f64 \<times> string) list \<Rightarrow> zset \<Rightarrow> zset \<times> nat" where
  "zadd_loop fl mems z = (let (z', added, changed) = foldl (zadd_step fl) (z, 0, 0) mems
     in (z', if zadd_ch fl then added + changed else added))"

definition zinsert_all :: "zset \<Rightarrow> (f64 \<times> string) list \<Rightarrow> zset" where
  "zinsert_all z mems = foldl (\<lambda>z (s, m). fst (zset_insert z s m)) z mems"

definition store_zadd :: "clock \<Rightarrow> store \<Rightarrow> string \<Rightarrow> (f64 \<times> string) list \<Rightarrow> zadd_flags \<Rightarrow> store \<times> nat res" where
  "store_zadd c st k mems fl =
     (let renewed = (if zadd_xx fl then zset_new else zinsert_all zset_new mems);
          counted = (if zadd_xx fl then 0 else length mems);
          act = on_value c as_zset FZSet (renew (FZSet renewed) (Ok counted)) (\<lambda>z. map_prod id Ok (zadd_loop fl mems z))
      in if zadd_xx fl then update_or st k act (Ok 0)
         else upsert st k act (sv_zset (zinsert_all zset_new mems)) (Ok (length mems)))"

definition zrem_loop :: "string list \<Rightarrow> zset \<Rightarrow> zset \<times> nat" where
  "zrem_loop mems z = foldl (\<lambda>(z, n) m. (fst (zset_remove z m), if snd (zset_remove z m) \<noteq> None then n + 1 else n)) (z, 0) mems"

definition store_zrem :: "clock \<Rightarrow> store \<Rightarrow> string \<Rightarrow> string list \<Rightarrow> store \<times> nat res" where
  "store_zrem c st k mems =
     update_or st k (on_value c as_zset FZSet (leave (Ok 0)) (\<lambda>z. map_prod id Ok (zrem_loop mems z))) (Ok 0)"

definition store_zscore :: "clock \<Rightarrow> store \<Rightarrow> string \<Rightarrow> string \<Rightarrow> f64 option res" where
  "store_zscore c st k m = read_value c as_zset st k (Ok None) (\<lambda>z. Ok (zset_get_score z m))"

definition store_zmscore :: "clock \<Rightarrow> store \<Rightarrow> string \<Rightarrow> string list \<Rightarrow> f64 option list res" where
  "store_zmscore c st k mems = read_value c as_zset st k (Ok (replicate (length mems) None)) (\<lambda>z. Ok (map (zset_get_score z) mems))"

definition store_zrank :: "clock \<Rightarrow> store \<Rightarrow> string \<Rightarrow> string \<Rightarrow> nat option res" where
  "store_zrank c st k m = read_value c as_zset st k (Ok None) (\<lambda>z. Ok (zset_rank z m))"

definition store_zrevrank :: "clock \<Rightarrow> store \<Rightarrow> string \<Rightarrow> string \<Rightarrow> nat option res" where
  "store_zrevrank c st k m = read_value c as_zset st k (Ok None) (\<lambda>z. Ok (zset_rev_rank z m))"

definition store_zcard :: "clock \<Rightarrow> store \<Rightarrow> string \<Rightarrow> nat res" where
  "store_zcard c st k = read_value c as_zset st k (Ok 0) (\<lambda>z. Ok (zset_len z))"

definition store_zcount :: "clock \<Rightarrow> store \<Rightarrow> string \<Rightarrow> f64 \<Rightarrow> f64 \<Rightarrow> u64 res" where
  "store_zcount c st k mn mx = read_value c as_zset st k (Ok 0) (\<lambda>z. Ok (zset_count_in_score_range z mn mx))"

definition store_zincrby :: "clock \<Rightarrow> store \<Rightarrow> string \<Rightarrow> f64 \<Rightarrow> string \<Rightarrow> store \<times> f64 res" where
  "store_zincrby c st k increment m = (let z = fst (zset_insert zset_new increment m) in
     upsert st k (on_value c as_zset FZSet (renew (FZSet z) (Ok increment)) (\<lambda>z. map_prod id Ok (zset_incr z m increment)))
       (sv_zset z) (Ok increment))"

definition zpair :: "zentry \<Rightarrow> string \<times> f64" where
  "zpair e = (zmember e, zscore e)"

text \<open>The index is computed in signed arithmetic and then taken as unsigned: for an empty sorted set
  the last index is minus one, which becomes the largest unsigned number.  Adding one to it wraps to
  zero, but then there are no entries to take either way.\<close>

definition normalize_zset_index :: "int \<Rightarrow> nat \<Rightarrow> nat" where
  "normalize_zset_index index n =
     (if index < 0 then nat (max (int n + index) 0)
      else if n = 0 then 2 ^ 64 - 1 else nat (min index (int n - 1)))"

definition rank_window :: "int \<Rightarrow> int \<Rightarrow> zset \<Rightarrow> (nat \<times> nat) option" where
  "rank_window start stop z = (let s = normalize_zset_index start (zset_len z); e = normalize_zset_index stop (zset_len z)
     in if s > e then None else Some (s, e))"

definition store_zrange :: "clock \<Rightarrow> store \<Rightarrow> string \<Rightarrow> int \<Rightarrow> int \<Rightarrow> (string \<times> f64) list res" where
  "store_zrange c st k start stop = read_value c as_zset st k (Ok []) (\<lambda>z. Ok (case rank_window start stop z of
      None \<Rightarrow> [] | Some (s, e) \<Rightarrow> map zpair (zset_range_by_rank z s (e + 1))))"

definition store_zrevrange :: "clock \<Rightarrow> store \<Rightarrow> string \<Rightarrow> int \<Rightarrow> int \<Rightarrow> (string \<times> f64) list res" where
  "store_zrevrange c st k start stop = read_value c as_zset st k (Ok []) (\<lambda>z. Ok (case rank_window start stop z of
      None \<Rightarrow> [] | Some (s, e) \<Rightarrow> map zpair (take (e - s + 1) (drop s (zset_iter_rev z)))))"

text \<open>The sorted set at a key, if there is one; and a page of a range, where a count of zero means all.\<close>

definition zset_at :: "clock \<Rightarrow> store \<Rightarrow> string \<Rightarrow> zset option res" where
  "zset_at c st k = read_value c as_zset st k (Ok None) (\<lambda>z. Ok (Some z))"

definition page :: "nat \<Rightarrow> nat \<Rightarrow> 'a list \<Rightarrow> 'a list" where
  "page offset cnt xs = take (if cnt = 0 then 2 ^ 64 - 1 else cnt) (drop offset xs)"

definition store_zrangebyscore :: "clock \<Rightarrow> store \<Rightarrow> string \<Rightarrow> f64 \<Rightarrow> f64 \<Rightarrow> nat \<Rightarrow> nat \<Rightarrow> (string \<times> f64) list res option" where
  "store_zrangebyscore c st k mn mx offset cnt = (case zset_at c st k of
      Err e \<Rightarrow> Some (Err e) | Ok None \<Rightarrow> Some (Ok [])
    | Ok (Some z) \<Rightarrow> map_option (\<lambda>es. Ok (map zpair (page offset cnt es))) (zset_range_by_score z mn mx))"

definition store_zrevrangebyscore :: "clock \<Rightarrow> store \<Rightarrow> string \<Rightarrow> f64 \<Rightarrow> f64 \<Rightarrow> nat \<Rightarrow> nat \<Rightarrow> (string \<times> f64) list res option" where
  "store_zrevrangebyscore c st k mx mn offset cnt = (case zset_at c st k of
      Err e \<Rightarrow> Some (Err e) | Ok None \<Rightarrow> Some (Ok [])
    | Ok (Some z) \<Rightarrow> map_option (\<lambda>es. Ok (map zpair (page offset cnt es))) (zset_rev_range_by_score z mn mx))"

primrec zpop_loop :: "(zset \<Rightarrow> zset \<times> zentry option) \<Rightarrow> nat \<Rightarrow> zset \<Rightarrow> zentry list \<Rightarrow> zset \<times> zentry list" where
  "zpop_loop pop 0 z out = (z, out)"
| "zpop_loop pop (Suc n) z out = (case pop z of
      (z', Some e) \<Rightarrow> zpop_loop pop n z' (out @ [e]) | (z', None) \<Rightarrow> zpop_loop pop n z' out)"

definition store_zpop :: "(zset \<Rightarrow> zset \<times> zentry option) \<Rightarrow> clock \<Rightarrow> store \<Rightarrow> string \<Rightarrow> nat \<Rightarrow> store \<times> (string \<times> f64) list res" where
  "store_zpop pop c st k n = update_or st k (on_value c as_zset FZSet (leave (Ok []))
     (\<lambda>z. map_prod id (\<lambda>es. Ok (map zpair es)) (zpop_loop pop (min n (zset_len z)) z []))) (Ok [])"

definition store_zpopmin :: "clock \<Rightarrow> store \<Rightarrow> string \<Rightarrow> nat \<Rightarrow> store \<times> (string \<times> f64) list res" where
  "store_zpopmin = store_zpop zset_pop_min"

definition store_zpopmax :: "clock \<Rightarrow> store \<Rightarrow> string \<Rightarrow> nat \<Rightarrow> store \<times> (string \<times> f64) list res" where
  "store_zpopmax = store_zpop zset_pop_max"

definition store_zrandmember :: "clock \<Rightarrow> store \<Rightarrow> string \<Rightarrow> int \<Rightarrow> (string \<times> f64) list res option" where
  "store_zrandmember c st k n = (case zset_at c st k of
      Err e \<Rightarrow> Some (Err e) | Ok None \<Rightarrow> Some (Ok [])
    | Ok (Some z) \<Rightarrow> if zset_is_empty z then Some (Ok [])
        else map_option (\<lambda>es. Ok (map zpair es)) (if n \<ge> 0 then zset_random_members z (nat n) False else zset_random_members z (nat (- n)) True))"

definition strip_prefix :: "char \<Rightarrow> string \<Rightarrow> string option" where
  "strip_prefix c s = (case s of [] \<Rightarrow> None | x # xs \<Rightarrow> if x = c then Some xs else None)"

definition parse_lex_bound_min :: "string \<Rightarrow> string \<times> bool" where
  "parse_lex_bound_min s = (if s = ''-'' then ([], False)
     else case strip_prefix CHR ''('' s of Some m \<Rightarrow> (m, True)
       | None \<Rightarrow> (case strip_prefix CHR ''['' s of Some m \<Rightarrow> (m, False) | None \<Rightarrow> (s, False)))"

definition parse_lex_bound_max :: "string \<Rightarrow> string \<times> bool" where
  "parse_lex_bound_max s = (if s = ''+'' then (''+'', False)
     else case strip_prefix CHR ''('' s of Some m \<Rightarrow> (m, True)
       | None \<Rightarrow> (case strip_prefix CHR ''['' s of Some m \<Rightarrow> (m, False) | None \<Rightarrow> (s, False)))"

definition lex_window :: "string \<Rightarrow> string \<Rightarrow> zset \<Rightarrow> zentry list" where
  "lex_window mn mx z = (let (min_val, min_exc) = parse_lex_bound_min mn; (max_val, max_exc) = parse_lex_bound_max mx
     in zset_lex_range z min_val max_val min_exc max_exc)"

definition store_zlexcount :: "clock \<Rightarrow> store \<Rightarrow> string \<Rightarrow> string \<Rightarrow> string \<Rightarrow> nat res" where
  "store_zlexcount c st k mn mx = read_value c as_zset st k (Ok 0) (\<lambda>z. Ok (length (lex_window mn mx z)))"

definition store_zrangebylex :: "clock \<Rightarrow> store \<Rightarrow> string \<Rightarrow> string \<Rightarrow> string \<Rightarrow> nat \<Rightarrow> nat \<Rightarrow> string list res" where
  "store_zrangebylex c st k mn mx offset cnt =
     read_value c as_zset st k (Ok []) (\<lambda>z. Ok (map zmember (page offset cnt (lex_window mn mx z))))"

section \<open>Several keys\<close>

datatype zaggregate = ZSum | ZMin | ZMax

fun zagg_apply :: "zaggregate \<Rightarrow> f64 \<Rightarrow> f64 \<Rightarrow> f64" where
  "zagg_apply ZSum a b = f_add a b"
| "zagg_apply ZMin a b = f_min a b"
| "zagg_apply ZMax a b = f_max a b"

definition eq_ignore_ascii_case :: "string \<Rightarrow> string \<Rightarrow> bool" where
  "eq_ignore_ascii_case a b \<longleftrightarrow> map ascii_lower a = map ascii_lower b"

definition zagg_parse_str :: "string \<Rightarrow> zaggregate option" where
  "zagg_parse_str s = (if eq_ignore_ascii_case s ''SUM'' then Some ZSum
     else if eq_ignore_ascii_case s ''MIN'' then Some ZMin
     else if eq_ignore_ascii_case s ''MAX'' then Some ZMax else None)"

definition weight_at :: "f64 list \<Rightarrow> nat \<Rightarrow> f64" where
  "weight_at weights i = (if i < length weights then weights ! i else f_of_nat 1)"

text \<open>The loop over the entries of one operand of a union.\<close>

definition zunion_entry :: "zaggregate \<Rightarrow> f64 \<Rightarrow> zset \<Rightarrow> zentry \<Rightarrow> zset" where
  "zunion_entry agg weight z e = (let weighted = f_mul (zscore e) weight in
     fst (zset_insert z (case zset_get_score z (zmember e) of Some x \<Rightarrow> zagg_apply agg x weighted | None \<Rightarrow> weighted) (zmember e)))"

fun zunion_loop :: "clock \<Rightarrow> store \<Rightarrow> f64 list \<Rightarrow> zaggregate \<Rightarrow> nat \<Rightarrow> string list \<Rightarrow> zset \<Rightarrow> zset res" where
  "zunion_loop c st weights agg i [] acc = Ok acc"
| "zunion_loop c st weights agg i (k # ks) acc = (case zset_at c st k of
      Err e \<Rightarrow> Err e
    | Ok None \<Rightarrow> zunion_loop c st weights agg (i + 1) ks acc
    | Ok (Some z) \<Rightarrow> zunion_loop c st weights agg (i + 1) ks (foldl (zunion_entry agg (weight_at weights i)) acc (zset_iter z)))"

definition store_zunionstore :: "clock \<Rightarrow> store \<Rightarrow> string \<Rightarrow> string list \<Rightarrow> f64 list \<Rightarrow> zaggregate \<Rightarrow> store \<times> nat res" where
  "store_zunionstore c st dst keys weights agg = (case zunion_loop c st weights agg 0 keys zset_new of
      Err e \<Rightarrow> (st, Err e)
    | Ok z \<Rightarrow> (put_key st dst (sv_zset z), Ok (zset_len z)))"

definition store_zunion :: "clock \<Rightarrow> store \<Rightarrow> string list \<Rightarrow> f64 list \<Rightarrow> zaggregate \<Rightarrow> (string \<times> f64) list res" where
  "store_zunion c st keys weights agg = map_sum id (\<lambda>z. map zpair (zset_iter z)) (zunion_loop c st weights agg 0 keys zset_new)"

text \<open>One round of an intersection: the members that the other operand has too.\<close>

definition zinter_round :: "zaggregate \<Rightarrow> f64 \<Rightarrow> zset \<Rightarrow> zset \<Rightarrow> zset" where
  "zinter_round agg weight other acc = foldl (\<lambda>z e. case zset_get_score other (zmember e) of
      Some s \<Rightarrow> fst (zset_insert z (zagg_apply agg (zscore e) (f_mul s weight)) (zmember e)) | None \<Rightarrow> z) zset_new (zset_iter acc)"

text \<open>An absent operand ends the intersection, which is \<^term>\<open>Ok None\<close>.\<close>

fun zinter_loop :: "clock \<Rightarrow> store \<Rightarrow> f64 list \<Rightarrow> zaggregate \<Rightarrow> nat \<Rightarrow> string list \<Rightarrow> zset \<Rightarrow> zset option res" where
  "zinter_loop c st weights agg i [] acc = Ok (Some acc)"
| "zinter_loop c st weights agg i (k # ks) acc = (case zset_at c st k of
      Err e \<Rightarrow> Err e
    | Ok None \<Rightarrow> Ok None
    | Ok (Some z) \<Rightarrow> zinter_loop c st weights agg (i + 1) ks (zinter_round agg (weight_at weights i) z acc))"

fun zinter_sets :: "clock \<Rightarrow> store \<Rightarrow> string list \<Rightarrow> f64 list \<Rightarrow> zaggregate \<Rightarrow> zset option res" where
  "zinter_sets c st [] weights agg = Ok None"
| "zinter_sets c st (k # ks) weights agg = (case zset_at c st k of
      Err e \<Rightarrow> Err e
    | Ok None \<Rightarrow> Ok None
    | Ok (Some z) \<Rightarrow> zinter_loop c st weights agg 1 ks
        (foldl (\<lambda>acc e. fst (zset_insert acc (f_mul (zscore e) (weight_at weights 0)) (zmember e))) zset_new (zset_iter z)))"

definition store_zinterstore :: "clock \<Rightarrow> store \<Rightarrow> string \<Rightarrow> string list \<Rightarrow> f64 list \<Rightarrow> zaggregate \<Rightarrow> store \<times> nat res" where
  "store_zinterstore c st dst keys weights agg = (case zinter_sets c st keys weights agg of
      Err e \<Rightarrow> (st, Err e)
    | Ok None \<Rightarrow> (put_key st dst (sv_zset zset_new), Ok 0)
    | Ok (Some z) \<Rightarrow> (put_key st dst (sv_zset z), Ok (zset_len z)))"

definition store_zinter :: "clock \<Rightarrow> store \<Rightarrow> string list \<Rightarrow> f64 list \<Rightarrow> zaggregate \<Rightarrow> (string \<times> f64) list res" where
  "store_zinter c st keys weights agg = map_sum id (\<lambda>r. case r of None \<Rightarrow> [] | Some z \<Rightarrow> map zpair (zset_iter z)) (zinter_sets c st keys weights agg)"

definition zdiff_round :: "zset \<Rightarrow> zset \<Rightarrow> zset" where
  "zdiff_round other acc = foldl (\<lambda>z m. fst (zset_remove z m)) acc (filter (zset_contains other) (zset_members acc))"

fun zdiff_loop :: "clock \<Rightarrow> store \<Rightarrow> string list \<Rightarrow> zset \<Rightarrow> zset res" where
  "zdiff_loop c st [] acc = Ok acc"
| "zdiff_loop c st (k # ks) acc = (case zset_at c st k of
      Err e \<Rightarrow> Err e
    | Ok None \<Rightarrow> zdiff_loop c st ks acc
    | Ok (Some z) \<Rightarrow> zdiff_loop c st ks (zdiff_round z acc))"

fun store_zdiff :: "clock \<Rightarrow> store \<Rightarrow> string list \<Rightarrow> (string \<times> f64) list res" where
  "store_zdiff c st [] = Ok []"
| "store_zdiff c st (k # ks) = (case zset_at c st k of
      Err e \<Rightarrow> Err e
    | Ok None \<Rightarrow> Ok []
    | Ok (Some z) \<Rightarrow> map_sum id (\<lambda>z. map zpair (zset_iter z)) (zdiff_loop c st ks z))"

definition store_zdiffstore :: "clock \<Rightarrow> store \<Rightarrow> string \<Rightarrow> string list \<Rightarrow> store \<times> nat res" where
  "store_zdiffstore c st dst keys = (case store_zdiff c st keys of
      Err e \<Rightarrow> (st, Err e)
    | Ok items \<Rightarrow> (let z = zinsert_all zset_new (map (\<lambda>(m, s). (s, m)) items) in (put_key st dst (sv_zset z), Ok (zset_len z))))"

section \<open>Sorted vectors of entries\<close>

lemma sorted_wrt_unique:
  assumes "\<And>x y. R x y \<Longrightarrow> \<not> R y x" "sorted_wrt R xs" "sorted_wrt R ys" "set xs = set ys"
  shows "xs = ys"
  using assms(2-4)
proof (induction xs arbitrary: ys)
  case (Cons x xs)
  have irr: "\<not> R z z" for z using assms(1) [of z z] by blast
  obtain y ys' where ys: "ys = y # ys'" using Cons.prems(3) by (cases ys) auto
  have "x = y"
  proof (rule ccontr)
    assume "x \<noteq> y"
    then have "x \<in> set ys'" "y \<in> set xs" using Cons.prems(3) by (auto simp: ys)
    then show False using Cons.prems(1,2) assms(1) by (auto simp: ys)
  qed
  moreover have "x \<notin> set xs" "y \<notin> set ys'" using Cons.prems(1,2) irr by (auto simp: ys)
  moreover have "set xs = set ys'"
    using Cons.prems(3) calculation by (simp add: ys insert_ident)
  ultimately show ?case using Cons.IH [of ys'] Cons.prems(1,2) by (simp add: ys)
qed simp

lemma zless_asym: "zless e f \<Longrightarrow> \<not> zless f e"
  using zless_trans zless_irrefl by blast

lemma entries_unique:
  assumes "entries_ok es" "entries_ok es'" "scores es = scores es'"
  shows "es = es'"
proof (rule sorted_wrt_unique [OF zless_asym])
  show "sorted_wrt zless es" "sorted_wrt zless es'" using assms by (simp_all add: entries_ok_def)
  have "e \<in> set es \<longleftrightarrow> scores es (zmember e) = Some (zscore e)" if "entries_ok es" for e es
    using that scores_Some [of es "zmember e" "zscore e"] by (simp add: entries_ok_def)
  then show "set es = set es'" using assms by auto
qed

text \<open>Removing a member, and giving it a score.\<close>

definition zdrop :: "string \<Rightarrow> zentry list \<Rightarrow> zentry list" where
  "zdrop m es = filter (\<lambda>e. zmember e \<noteq> m) es"

definition zmove :: "f64 \<Rightarrow> string \<Rightarrow> zentry list \<Rightarrow> zentry list" where
  "zmove s m es = zplace s m (zdrop m es)"

definition zput :: "f64 \<Rightarrow> string \<Rightarrow> zentry list \<Rightarrow> zentry list" where
  "zput s m es = (case scores es m of Some old \<Rightarrow> if differs old s then zmove s m es else es | None \<Rightarrow> zmove s m es)"

lemma scores_zdrop: "scores (zdrop m es) = (scores es)(m := None)"
  by (induction es) (auto simp: zdrop_def scores_def fun_eq_iff)

lemma zdrop_ok: "entries_ok es \<Longrightarrow> entries_ok (zdrop m es)"
  by (simp add: zdrop_def entries_ok_filter)

lemma zmove_ok:
  assumes "entries_ok es" "\<not> f_is_nan s"
  shows "entries_ok (zmove s m es)" "scores (zmove s m es) = (scores es)(m \<mapsto> s)"
proof -
  have fresh: "m \<notin> zmember ` set (zdrop m es)" by (auto simp: zdrop_def)
  show "entries_ok (zmove s m es)" using zplace_ok [OF zdrop_ok [OF assms(1)] assms(2) fresh] by (simp add: zmove_def)
  show "scores (zmove s m es) = (scores es)(m \<mapsto> s)"
    using scores_zplace [OF zdrop_ok [OF assms(1)] assms(2) fresh] by (simp add: zmove_def scores_zdrop)
qed

lemma zput_ok:
  assumes "entries_ok es" "\<not> f_is_nan s"
  shows "entries_ok (zput s m es)" "scores (zput s m es) = update_score (scores es) m s"
  using zmove_ok [OF assms] assms(1) by (auto simp: zput_def update_score_def split: option.split)

lemma zset_insert_entries:
  assumes "zset_wf z" "\<not> f_is_nan s"
  shows "zset_wf (fst (zset_insert z s m))" "entries (fst (zset_insert z s m)) = zput s m (entries z)"
    "snd (zset_insert z s m) = (scores (entries z) m = None)"
proof -
  have ok: "entries_ok (entries z)" using assms(1) by (simp add: zset_wf_def)
  note ins = zset_insert_updates [OF assms, of m]
  then show "zset_wf (fst (zset_insert z s m))" "snd (zset_insert z s m) = (scores (entries z) m = None)" by simp_all
  with ins zput_ok [OF ok assms(2)] show "entries (fst (zset_insert z s m)) = zput s m (entries z)"
    by (intro entries_unique) (simp_all add: zset_wf_def)
qed

lemma zset_remove_entries:
  assumes "zset_wf z"
  shows "entries (fst (zset_remove z m)) = zdrop m (entries z)"
  using zset_remove_ok [OF assms, of m] zdrop_ok [of "entries z" m] assms
  by (intro entries_unique) (simp_all add: zset_wf_def scores_zdrop)

lemma zset_incr_entries:
  assumes "zset_wf z" and new: "new = (case scores (entries z) m of Some old \<Rightarrow> f_add old inc | None \<Rightarrow> inc)" "\<not> f_is_nan new"
  shows "zset_wf (fst (zset_incr z m inc))" "entries (fst (zset_incr z m inc)) = zmove new m (entries z)" "snd (zset_incr z m inc) = new"
proof -
  have ok: "entries_ok (entries z)" using assms(1) by (simp add: zset_wf_def)
  note inc = zset_incr_adds [OF assms]
  then show "zset_wf (fst (zset_incr z m inc))" "snd (zset_incr z m inc) = new" by simp_all
  with inc zmove_ok [OF ok new(2)] show "entries (fst (zset_incr z m inc)) = zmove new m (entries z)"
    by (intro entries_unique) (simp_all add: zset_wf_def)
qed

section \<open>The commands on one key implement sorted vectors\<close>

datatype zset_cmd =
    ZAdd "(f64 \<times> string) list" zadd_flags | ZRem "string list" | ZScore string | ZMScore "string list" | ZRank string | ZRevRank string
  | ZCard | ZCount f64 f64 | ZIncrBy f64 string | ZRange int int | ZRevRange int int | ZRangeByScore f64 f64 nat nat
  | ZRevRangeByScore f64 f64 nat nat | ZPopMin nat | ZPopMax nat | ZLexCount string string | ZRangeByLex string string nat nat

datatype zset_reply =
    ZRCount "nat res" | ZRWord "u64 res" | ZRScore "f64 option res" | ZRScores "f64 option list res" | ZRRank "nat option res"
  | ZRFloat "f64 res" | ZRPairs "(string \<times> f64) list res" | ZRMembers "string list res" | ZRPanic

definition or_panic :: "(string \<times> f64) list res option \<Rightarrow> zset_reply" where
  "or_panic r = (case r of Some x \<Rightarrow> ZRPairs x | None \<Rightarrow> ZRPanic)"

fun zset_cmd_exec :: "clock \<Rightarrow> string \<times> zset_cmd \<Rightarrow> store \<Rightarrow> store \<times> zset_reply" where
  "zset_cmd_exec c (k, ZAdd mems fl) st = map_prod id ZRCount (store_zadd c st k mems fl)"
| "zset_cmd_exec c (k, ZRem mems) st = map_prod id ZRCount (store_zrem c st k mems)"
| "zset_cmd_exec c (k, ZScore m) st = map_prod id ZRScore (st, store_zscore c st k m)"
| "zset_cmd_exec c (k, ZMScore mems) st = map_prod id ZRScores (st, store_zmscore c st k mems)"
| "zset_cmd_exec c (k, ZRank m) st = map_prod id ZRRank (st, store_zrank c st k m)"
| "zset_cmd_exec c (k, ZRevRank m) st = map_prod id ZRRank (st, store_zrevrank c st k m)"
| "zset_cmd_exec c (k, ZCard) st = map_prod id ZRCount (st, store_zcard c st k)"
| "zset_cmd_exec c (k, ZCount mn mx) st = map_prod id ZRWord (st, store_zcount c st k mn mx)"
| "zset_cmd_exec c (k, ZIncrBy inc m) st = map_prod id ZRFloat (store_zincrby c st k inc m)"
| "zset_cmd_exec c (k, ZRange i j) st = map_prod id ZRPairs (st, store_zrange c st k i j)"
| "zset_cmd_exec c (k, ZRevRange i j) st = map_prod id ZRPairs (st, store_zrevrange c st k i j)"
| "zset_cmd_exec c (k, ZRangeByScore mn mx off cnt) st = (st, or_panic (store_zrangebyscore c st k mn mx off cnt))"
| "zset_cmd_exec c (k, ZRevRangeByScore mx mn off cnt) st = (st, or_panic (store_zrevrangebyscore c st k mx mn off cnt))"
| "zset_cmd_exec c (k, ZPopMin n) st = map_prod id ZRPairs (store_zpopmin c st k n)"
| "zset_cmd_exec c (k, ZPopMax n) st = map_prod id ZRPairs (store_zpopmax c st k n)"
| "zset_cmd_exec c (k, ZLexCount mn mx) st = map_prod id ZRCount (st, store_zlexcount c st k mn mx)"
| "zset_cmd_exec c (k, ZRangeByLex mn mx off cnt) st = map_prod id ZRMembers (st, store_zrangebylex c st k mn mx off cnt)"

text \<open>The specification works on the vector of entries: the positions of its members, the entries
  whose score or member lies within bounds, and the vector with a member removed or placed.\<close>

definition zwithin :: "f64 \<Rightarrow> f64 \<Rightarrow> zentry list \<Rightarrow> zentry list" where
  "zwithin mn mx es = filter (\<lambda>e. f_le mn (zscore e) \<and> f_le (zscore e) mx) es"

text \<open>Flags that ask for a higher or a lower score are both satisfied by any different one.\<close>

definition zadd_allows :: "zadd_flags \<Rightarrow> f64 \<Rightarrow> f64 \<Rightarrow> bool" where
  "zadd_allows fl s old \<longleftrightarrow> \<not> zadd_gt fl \<and> \<not> zadd_lt fl \<or> zadd_gt fl \<and> f_lt old s \<or> zadd_lt fl \<and> f_lt s old"

fun zadd_rule :: "zadd_flags \<Rightarrow> zentry list \<times> nat \<times> nat \<Rightarrow> f64 \<times> string \<Rightarrow> zentry list \<times> nat \<times> nat" where
  "zadd_rule fl (es, added, changed) (s, m) = (case scores es m of
      None \<Rightarrow> if zadd_xx fl then (es, added, changed) else (zput s m es, added + 1, changed)
    | Some old \<Rightarrow> if zadd_nx fl \<or> \<not> zadd_allows fl s old then (es, added, changed) else (zput s m es, added, changed + 1))"

definition zadd_all :: "zadd_flags \<Rightarrow> (f64 \<times> string) list \<Rightarrow> zentry list \<Rightarrow> zentry list \<times> nat" where
  "zadd_all fl mems es = (let (es', added, changed) = foldl (zadd_rule fl) (es, 0, 0) mems
     in (es', if zadd_ch fl then added + changed else added))"

definition zrank_of :: "string \<Rightarrow> zentry list \<Rightarrow> nat option" where
  "zrank_of m es = position (\<lambda>e. zmember e = m) es"

text \<open>The entries from one rank to another, where negative ranks count from the end and ranks past the
  end stand for the last one.\<close>

definition zrank_slice :: "int \<Rightarrow> int \<Rightarrow> zentry list \<Rightarrow> zentry list" where
  "zrank_slice i j es = (let clamp = (\<lambda>r. nat (if r < 0 then max (int (length es) + r) 0 else min r (int (length es) - 1)))
     in take (clamp j + 1 - clamp i) (drop (clamp i) es))"

text \<open>The members above one bound and below another; a bound of a single plus, open or closed, is no bound.\<close>

definition lex_above :: "string \<Rightarrow> string \<Rightarrow> bool" where
  "lex_above a m \<longleftrightarrow> a = ''-'' \<or> (if take 1 a = ''('' then tl a < m else if take 1 a = ''['' then tl a \<le> m else a \<le> m)"

definition lex_below :: "string \<Rightarrow> string \<Rightarrow> bool" where
  "lex_below b m \<longleftrightarrow> b \<in> {''+'', ''(+'', ''[+''} \<or> (if take 1 b = ''('' then m < tl b else if take 1 b = ''['' then m \<le> tl b else m \<le> b)"

definition zlex :: "string \<Rightarrow> string \<Rightarrow> zentry list \<Rightarrow> zentry list" where
  "zlex mn mx es = filter (\<lambda>e. lex_above mn (zmember e) \<and> lex_below mx (zmember e)) es"

fun zset_here :: "zset_cmd \<Rightarrow> zentry list \<Rightarrow> zentry list \<times> zset_reply" where
  "zset_here (ZAdd mems fl) es = (fst (zadd_all fl mems es), ZRCount (Ok (snd (zadd_all fl mems es))))"
| "zset_here (ZRem mems) es = (filter (\<lambda>e. zmember e \<notin> set mems) es, ZRCount (Ok (card (zmember ` set es \<inter> set mems))))"
| "zset_here (ZScore m) es = (es, ZRScore (Ok (scores es m)))"
| "zset_here (ZMScore mems) es = (es, ZRScores (Ok (map (scores es) mems)))"
| "zset_here (ZRank m) es = (es, ZRRank (Ok (zrank_of m es)))"
| "zset_here (ZRevRank m) es = (es, ZRRank (Ok (map_option (\<lambda>r. length es - 1 - r) (zrank_of m es))))"
| "zset_here ZCard es = (es, ZRCount (Ok (length es)))"
| "zset_here (ZCount mn mx) es = (es, ZRWord (Ok (of_nat (length (zwithin mn mx es)))))"
| "zset_here (ZIncrBy inc m) es = (let new = (case scores es m of Some old \<Rightarrow> f_add old inc | None \<Rightarrow> inc) in (zmove new m es, ZRFloat (Ok new)))"
| "zset_here (ZRange i j) es = (es, ZRPairs (Ok (map zpair (zrank_slice i j es))))"
| "zset_here (ZRevRange i j) es = (es, ZRPairs (Ok (map zpair (zrank_slice i j (rev es)))))"
| "zset_here (ZRangeByScore mn mx off cnt) es = (es, ZRPairs (Ok (map zpair (page off cnt (zwithin mn mx es)))))"
| "zset_here (ZRevRangeByScore mx mn off cnt) es = (es, ZRPairs (Ok (map zpair (page off cnt (rev (zwithin mn mx es))))))"
| "zset_here (ZPopMin n) es = (drop n es, ZRPairs (Ok (map zpair (take n es))))"
| "zset_here (ZPopMax n) es = (take (length es - n) es, ZRPairs (Ok (map zpair (take n (rev es)))))"
| "zset_here (ZLexCount mn mx) es = (es, ZRCount (Ok (length (zlex mn mx es))))"
| "zset_here (ZRangeByLex mn mx off cnt) es = (es, ZRMembers (Ok (map zmember (page off cnt (zlex mn mx es)))))"

fun zset_absent :: "zset_cmd \<Rightarrow> zentry list option \<times> zset_reply" where
  "zset_absent (ZAdd mems fl) = (if zadd_xx fl then (None, ZRCount (Ok 0))
     else (Some (foldl (\<lambda>es (s, m). zput s m es) [] mems), ZRCount (Ok (length mems))))"
| "zset_absent (ZIncrBy inc m) = (Some [mk_entry inc m], ZRFloat (Ok inc))"
| "zset_absent cmd = (None, snd (zset_here cmd []))"

fun zset_other :: "zset_cmd \<Rightarrow> zset_reply" where
  "zset_other (ZScore m) = ZRScore (Err WRONGTYPE)" | "zset_other (ZMScore m) = ZRScores (Err WRONGTYPE)"
| "zset_other (ZRank m) = ZRRank (Err WRONGTYPE)" | "zset_other (ZRevRank m) = ZRRank (Err WRONGTYPE)"
| "zset_other (ZCount mn mx) = ZRWord (Err WRONGTYPE)" | "zset_other (ZIncrBy inc m) = ZRFloat (Err WRONGTYPE)"
| "zset_other (ZRange i j) = ZRPairs (Err WRONGTYPE)" | "zset_other (ZRevRange i j) = ZRPairs (Err WRONGTYPE)"
| "zset_other (ZRangeByScore mn mx a b) = ZRPairs (Err WRONGTYPE)" | "zset_other (ZRevRangeByScore mx mn a b) = ZRPairs (Err WRONGTYPE)"
| "zset_other (ZPopMin n) = ZRPairs (Err WRONGTYPE)" | "zset_other (ZPopMax n) = ZRPairs (Err WRONGTYPE)"
| "zset_other (ZRangeByLex mn mx a b) = ZRMembers (Err WRONGTYPE)" | "zset_other _ = ZRCount (Err WRONGTYPE)"

definition zset_cmd_spec ::
  "string \<times> zset_cmd \<Rightarrow> (string \<Rightarrow> zentry list cell) \<Rightarrow> (string \<Rightarrow> zentry list cell) \<times> zset_reply" where
  "zset_cmd_spec = cell_spec (zset_absent, zset_here, zset_other)"

definition zset_cells :: "clock \<Rightarrow> store \<Rightarrow> string \<Rightarrow> zentry list cell" where
  "zset_cells c = cells as_zset entries c"

text \<open>Scores are numbers, increments are finite, and score ranges are not reversed.\<close>

fun zset_pre :: "zset_cmd \<Rightarrow> bool" where
  "zset_pre (ZAdd mems fl) = list_all (\<lambda>(s, m). \<not> f_is_nan s) mems"
| "zset_pre (ZIncrBy inc m) = f_is_finite inc"
| "zset_pre (ZCount mn mx) = f_le mn mx"
| "zset_pre (ZRangeByScore mn mx off cnt) = f_le mn mx"
| "zset_pre (ZRevRangeByScore mx mn off cnt) = f_le mn mx"
| "zset_pre _ = True"

definition zset_cmd_pre :: "string \<times> zset_cmd \<Rightarrow> bool" where
  "zset_cmd_pre = (\<lambda>(k, cmd). zset_pre cmd)"

interpretation zset_view: typed_view as_zset FZSet entries zset_wf ..

abbreviation zset_inv :: "clock \<Rightarrow> store \<Rightarrow> bool" where
  "zset_inv \<equiv> kind_inv as_zset zset_wf"

subsection \<open>The loops\<close>

lemma zinsert_all_ok:
  assumes "zset_wf z" "list_all (\<lambda>(s, m). \<not> f_is_nan s) mems"
  shows "zset_wf (zinsert_all z mems) \<and> entries (zinsert_all z mems) = foldl (\<lambda>es (s, m). zput s m es) (entries z) mems"
  using assms
proof (induction mems arbitrary: z)
  case (Cons p mems)
  obtain s m where p: "p = (s, m)" by fastforce
  have nan: "\<not> f_is_nan s" using Cons.prems(2) by (simp add: p)
  note ins = zset_insert_entries [OF Cons.prems(1) nan, of m]
  have "zinsert_all z (p # mems) = zinsert_all (fst (zset_insert z s m)) mems" by (simp add: zinsert_all_def p)
  then show ?case using Cons.IH [OF ins(1)] Cons.prems(2) ins(2) by (simp add: p)
qed (simp add: zinsert_all_def)

lemma should_update_allows: "\<not> f_is_nan s \<Longrightarrow> \<not> f_is_nan old \<Longrightarrow> should_update fl s old = zadd_allows fl s old"
  using f_lt_total [of s old] by (auto simp: should_update_def zadd_allows_def f_lt_def f_eq_def)

lemma lex_window_zlex: "lex_window mn mx z = zlex mn mx (entries z)"
proof -
  have "(if snd (parse_lex_bound_min mn) then m > fst (parse_lex_bound_min mn) else m \<ge> fst (parse_lex_bound_min mn)) = lex_above mn m" for m
    by (cases mn) (auto simp: lex_above_def parse_lex_bound_min_def strip_prefix_def)
  moreover have "(fst (parse_lex_bound_max mx) = ''+'' \<or> (if snd (parse_lex_bound_max mx) then m < fst (parse_lex_bound_max mx) else m \<le> fst (parse_lex_bound_max mx))) = lex_below mx m" for m
    by (cases mx) (simp_all add: lex_below_def parse_lex_bound_max_def strip_prefix_def)
  ultimately have "in_lex_range (fst (parse_lex_bound_min mn)) (fst (parse_lex_bound_max mx)) (snd (parse_lex_bound_min mn)) (snd (parse_lex_bound_max mx)) e
      = (lex_above mn (zmember e) \<and> lex_below mx (zmember e))" for e
    unfolding in_lex_range_def Let_def by (metis (full_types))
  then show ?thesis by (simp add: lex_window_def zlex_def zset_lex_range_def case_prod_beta cong: filter_cong)
qed

lemma zadd_step_ok:
  assumes "zset_wf z" "\<not> f_is_nan s"
  shows "zset_wf (fst (zadd_step fl (z, a, ch) (s, m)))"
    and "map_prod entries id (zadd_step fl (z, a, ch) (s, m)) = zadd_rule fl (entries z, a, ch) (s, m)"
proof -
  have "\<not> f_is_nan old" if "scores (entries z) m = Some old" for old
    using assms(1) scores_Some [of "entries z" m old] that by (auto simp: zset_wf_def entries_ok_def)
  then have upd: "should_update fl s old = zadd_allows fl s old" if "scores (entries z) m = Some old" for old
    using should_update_allows [OF assms(2)] that by blast
  show "zset_wf (fst (zadd_step fl (z, a, ch) (s, m)))"
    "map_prod entries id (zadd_step fl (z, a, ch) (s, m)) = zadd_rule fl (entries z, a, ch) (s, m)"
    using zset_insert_entries [OF assms, of m] assms(1)
    by (auto simp: zset_get_score_ok upd zadd_allows_def split: option.split)
qed

lemma zadd_fold_ok:
  assumes "zset_wf z" "list_all (\<lambda>(s, m). \<not> f_is_nan s) mems"
  shows "zset_wf (fst (foldl (zadd_step fl) (z, a, ch) mems))
    \<and> map_prod entries id (foldl (zadd_step fl) (z, a, ch) mems) = foldl (zadd_rule fl) (entries z, a, ch) mems"
  using assms
proof (induction mems arbitrary: z a ch)
  case (Cons p mems)
  obtain s m where p: "p = (s, m)" by fastforce
  obtain z' a' ch' where st: "zadd_step fl (z, a, ch) (s, m) = (z', a', ch')" by (cases "zadd_step fl (z, a, ch) (s, m)")
  have nan: "\<not> f_is_nan s" using Cons.prems(2) by (simp add: p)
  from zadd_step_ok [OF Cons.prems(1) nan, where fl = fl and a = a and ch = ch and m = m]
  have "zset_wf z'" "zadd_rule fl (entries z, a, ch) (s, m) = (entries z', a', ch')" unfolding st by simp_all
  then show ?case using Cons.IH [of z' a' ch'] Cons.prems(2) by (simp add: p st del: zadd_step.simps zadd_rule.simps)
qed simp

lemma zadd_loop_ok:
  assumes "zset_wf z" "list_all (\<lambda>(s, m). \<not> f_is_nan s) mems"
  shows "zset_wf (fst (zadd_loop fl mems z)) \<and> entries (fst (zadd_loop fl mems z)) = fst (zadd_all fl mems (entries z))
    \<and> snd (zadd_loop fl mems z) = snd (zadd_all fl mems (entries z))"
proof -
  obtain z' a ch where r: "foldl (zadd_step fl) (z, 0, 0) mems = (z', a, ch)" by (cases "foldl (zadd_step fl) (z, 0, 0) mems")
  from zadd_fold_ok [OF assms, where fl = fl and a = 0 and ch = 0] have "zset_wf z'" "foldl (zadd_rule fl) (entries z, 0, 0) mems = (entries z', a, ch)"
    unfolding r by simp_all
  then show ?thesis by (simp add: zadd_loop_def zadd_all_def r)
qed

lemma zrem_loop_ok:
  assumes "zset_wf z"
  shows "zset_wf (fst (zrem_loop mems z)) \<and> entries (fst (zrem_loop mems z)) = filter (\<lambda>e. zmember e \<notin> set mems) (entries z)
    \<and> snd (zrem_loop mems z) = card (zmember ` set (entries z) \<inter> set mems)"
proof (induction mems rule: rev_induct)
  case (snoc m mems)
  let ?z = "fst (zrem_loop mems z)"
  have step: "zrem_loop (mems @ [m]) z = (fst (zset_remove ?z m), if snd (zset_remove ?z m) \<noteq> None then snd (zrem_loop mems z) + 1 else snd (zrem_loop mems z))"
    by (simp add: zrem_loop_def case_prod_beta)
  have wf: "zset_wf ?z" and es: "entries ?z = filter (\<lambda>e. zmember e \<notin> set mems) (entries z)" using snoc by simp_all
  have "snd (zset_remove ?z m) = None \<longleftrightarrow> m \<notin> zmember ` set (entries z) - set mems"
    using zset_remove_ok(3) [OF wf, of m] scores_None [of "entries ?z" m] by (auto simp: es)
  moreover have "zmember ` set (entries z) \<inter> set (mems @ [m]) = (if m \<in> zmember ` set (entries z) - set mems
      then insert m (zmember ` set (entries z) \<inter> set mems) else zmember ` set (entries z) \<inter> set mems)" by auto
  ultimately have "snd (zrem_loop (mems @ [m]) z) = card (zmember ` set (entries z) \<inter> set (mems @ [m]))"
    using snoc by (auto simp: step)
  moreover have "entries (fst (zrem_loop (mems @ [m]) z)) = filter (\<lambda>e. zmember e \<notin> set (mems @ [m])) (entries z)"
    by (simp add: step zset_remove_entries [OF wf] es zdrop_def conj_commute)
  ultimately show ?case using zset_remove_ok(1) [OF wf] by (simp add: step)
qed (simp add: zrem_loop_def assms)

lemma zpop_min_ok:
  assumes "zset_wf z" "n \<le> length (entries z)"
  shows "zset_wf (fst (zpop_loop zset_pop_min n z out)) \<and> entries (fst (zpop_loop zset_pop_min n z out)) = drop n (entries z)
    \<and> snd (zpop_loop zset_pop_min n z out) = out @ take n (entries z)"
  using assms
proof (induction n arbitrary: z out)
  case (Suc n)
  then obtain e es where es: "entries z = e # es" by (cases "entries z") simp_all
  have pop: "zset_pop_min z = (z\<lparr>entries := es\<rparr>, Some e)" by (simp add: zset_pop_min_def es remove_at_def)
  have "zset_wf (z\<lparr>entries := es\<rparr>)" using zset_removals_keep_wf [OF Suc.prems(1)] pop by (metis fst_conv)
  then show ?case using Suc.IH [of "z\<lparr>entries := es\<rparr>" "out @ [e]"] Suc.prems(2) by (simp add: pop es)
qed simp

lemma zpop_max_ok:
  assumes "zset_wf z" "n \<le> length (entries z)"
  shows "zset_wf (fst (zpop_loop zset_pop_max n z out)) \<and> entries (fst (zpop_loop zset_pop_max n z out)) = take (length (entries z) - n) (entries z)
    \<and> snd (zpop_loop zset_pop_max n z out) = out @ take n (rev (entries z))"
  using assms
proof (induction n arbitrary: z out)
  case (Suc n)
  then obtain e es where es: "entries z = es @ [e]" by (cases "entries z" rule: rev_cases) simp_all
  have pop: "zset_pop_max z = (z\<lparr>entries := es\<rparr>, Some e)" by (simp add: zset_pop_max_def es)
  have "zset_wf (z\<lparr>entries := es\<rparr>)" using zset_removals_keep_wf [OF Suc.prems(1)] pop by (metis fst_conv)
  then show ?case using Suc.IH [of "z\<lparr>entries := es\<rparr>" "out @ [e]"] Suc.prems(2) by (simp add: pop es)
qed simp

lemma rank_window_slice:
  "(case rank_window i j z of None \<Rightarrow> [] | Some (s, e) \<Rightarrow> zset_range_by_rank z s (e + 1)) = zrank_slice i j (entries z)"
  "(case rank_window i j z of None \<Rightarrow> [] | Some (s, e) \<Rightarrow> take (e - s + 1) (drop s (zset_iter_rev z))) = zrank_slice i j (rev (entries z))"
proof -
  let ?n = "length (entries z)"
  define clamp where "clamp r = nat (if r < 0 then max (int ?n + r) 0 else min r (int ?n - 1))" for r
  have norm: "normalize_zset_index r ?n = clamp r" "clamp r < ?n" if "entries z \<noteq> []" for r
    using that length_greater_0_conv [of "entries z"] by (auto simp: normalize_zset_index_def clamp_def max_def min_def nat_less_iff)
  have sl: "zrank_slice i j xs = take (clamp j + 1 - clamp i) (drop (clamp i) xs)" if "length xs = ?n" for xs
    using that by (simp add: zrank_slice_def clamp_def Let_def)
  have win: "rank_window i j z = (if clamp i > clamp j then None else Some (clamp i, clamp j))" if "entries z \<noteq> []"
    using norm(1) [OF that] by (simp add: rank_window_def zset_len_def Let_def)
  have e: "zset_range_by_rank z s f = []" "zset_iter_rev z = []" "zrank_slice i j [] = []" if "entries z = []" for s f
    using that by (simp_all add: zset_range_by_rank_def zset_iter_rev_def zrank_slice_def)
  show "(case rank_window i j z of None \<Rightarrow> [] | Some (s, e) \<Rightarrow> zset_range_by_rank z s (e + 1)) = zrank_slice i j (entries z)"
  proof (cases "entries z = []")
    case False
    then show ?thesis using norm(2) [OF False, of j]
      by (simp add: win sl zset_range_by_rank_def Let_def min_def)
  qed (simp add: e split: option.split)
  show "(case rank_window i j z of None \<Rightarrow> [] | Some (s, e) \<Rightarrow> take (e - s + 1) (drop s (zset_iter_rev z))) = zrank_slice i j (rev (entries z))"
  proof (cases "entries z = []")
    case False
    then show ?thesis by (simp add: win sl zset_iter_rev_def Suc_diff_le)
  qed (simp add: e split: option.split)
qed

lemma f_add_finite_not_nan: "\<not> f_is_nan x \<Longrightarrow> f_is_finite y \<Longrightarrow> \<not> f_is_nan (f_add x y)"
  by (simp add: f_add_nan) (auto simp: f_is_finite_def f_is_infinite_def f_is_nan_def)

subsection \<open>Each command\<close>

definition zset_step_ok :: "clock \<Rightarrow> store \<Rightarrow> string \<Rightarrow> zset_cmd \<Rightarrow> bool" where
  "zset_step_ok c st k cmd = cell_step as_zset entries zset_wf c st k (zset_absent cmd) (zset_here cmd) (zset_other cmd)
     (zset_cmd_exec c (k, cmd) st)"

lemma zset_step_add:
  assumes inv: "zset_inv c st" and nan: "list_all (\<lambda>(s, m). \<not> f_is_nan s) mems"
  shows "zset_step_ok c st k (ZAdd mems fl)"
proof (cases "zadd_xx fl")
  case True
  show ?thesis unfolding zset_step_ok_def zset_cmd_exec.simps store_zadd_def Let_def if_P [OF True]
    by (rule cell_step_reply [where here = "\<lambda>es. (fst (zadd_all fl mems es), Ok (snd (zadd_all fl mems es)))", OF zset_view.update_step [OF inv]])
      (simp_all add: zadd_loop_ok nan True)
next
  case False
  have new: "entries zset_new = []" by (simp add: zset_new_def)
  show ?thesis unfolding zset_step_ok_def zset_cmd_exec.simps store_zadd_def Let_def if_not_P [OF False] sv_zset_def
    by (rule cell_step_reply [where here = "\<lambda>es. (fst (zadd_all fl mems es), Ok (snd (zadd_all fl mems es)))", OF zset_view.upsert_step [OF inv]])
      (simp_all add: zadd_loop_ok zinsert_all_ok nan False new)
qed

lemma zset_step_change:
  assumes inv: "zset_inv c st"
  shows "zset_step_ok c st k (ZRem mems)" "zset_step_ok c st k (ZPopMin n)" "zset_step_ok c st k (ZPopMax n)"
proof -
  show "zset_step_ok c st k (ZRem mems)" unfolding zset_step_ok_def zset_cmd_exec.simps store_zrem_def
    by (rule cell_step_reply [where here = "\<lambda>es. (filter (\<lambda>e. zmember e \<notin> set mems) es, Ok (card (zmember ` set es \<inter> set mems)))", OF zset_view.update_step [OF inv]])
      (simp_all add: zrem_loop_ok)
  show "zset_step_ok c st k (ZPopMin n)" unfolding zset_step_ok_def zset_cmd_exec.simps store_zpopmin_def store_zpop_def
    by (rule cell_step_reply [where here = "\<lambda>es. (drop n es, Ok (map zpair (take n es)))", OF zset_view.update_step [OF inv]])
      (auto simp: zpop_min_ok zset_len_def min_def)
  show "zset_step_ok c st k (ZPopMax n)" unfolding zset_step_ok_def zset_cmd_exec.simps store_zpopmax_def store_zpop_def
    by (rule cell_step_reply [where here = "\<lambda>es. (take (length es - n) es, Ok (map zpair (take n (rev es))))", OF zset_view.update_step [OF inv]])
      (auto simp: zpop_max_ok zset_len_def min_def)
qed

lemma zset_step_incr:
  assumes inv: "zset_inv c st" and fin: "f_is_finite inc"
  shows "zset_step_ok c st k (ZIncrBy inc m)"
proof -
  have nan: "\<not> f_is_nan inc" using fin by (simp add: f_is_finite_def f_is_nan_def)
  have new: "entries (fst (zset_insert zset_new inc m)) = [mk_entry inc m]" "zset_wf (fst (zset_insert zset_new inc m))"
    using zset_insert_entries [OF zset_new_wf nan, of m]
    by (simp_all add: zset_new_def zput_def scores_def zmove_def zdrop_def zplace_def)
  have ok: "\<not> f_is_nan (case scores (entries z) m of Some old \<Rightarrow> f_add old inc | None \<Rightarrow> inc)" if wf: "zset_wf z" for z
  proof (cases "scores (entries z) m")
    case (Some old)
    then have "mk_entry old m \<in> set (entries z)" using wf scores_Some [of "entries z" m old] by (simp add: zset_wf_def entries_ok_def)
    then have "\<not> f_is_nan old" using wf by (force simp: zset_wf_def entries_ok_def)
    then show ?thesis using f_add_finite_not_nan [OF _ fin] Some by simp
  qed (simp add: nan)
  note inc = zset_incr_entries [OF _ refl ok]
  show ?thesis unfolding zset_step_ok_def zset_cmd_exec.simps store_zincrby_def Let_def sv_zset_def
    by (rule cell_step_reply [where here = "\<lambda>es. (zmove (case scores es m of Some old \<Rightarrow> f_add old inc | None \<Rightarrow> inc) m es,
        Ok (case scores es m of Some old \<Rightarrow> f_add old inc | None \<Rightarrow> inc))", OF zset_view.upsert_step [OF inv]])
      (simp_all add: new inc Let_def)
qed

lemma zset_step_read:
  assumes inv: "zset_inv c st"
  shows "zset_step_ok c st k (ZScore m)" "zset_step_ok c st k (ZMScore mems)" "zset_step_ok c st k (ZRank m)"
    "zset_step_ok c st k (ZRevRank m)" "zset_step_ok c st k ZCard" "zset_step_ok c st k (ZRange i j)"
    "zset_step_ok c st k (ZRevRange i j)" "zset_step_ok c st k (ZLexCount mn mx)" "zset_step_ok c st k (ZRangeByLex mn mx off cnt)"
proof -
  note rd = zset_view.read_step(1) [OF inv]
  note un = zset_step_ok_def zset_cmd_exec.simps
  have map_case: "(case w of None \<Rightarrow> [] | Some (s, e) \<Rightarrow> map f (g s e)) = map f (case w of None \<Rightarrow> [] | Some (s, e) \<Rightarrow> g s e)"
    for w :: "(nat \<times> nat) option" and f :: "zentry \<Rightarrow> string \<times> f64" and g by (auto split: option.split)
  show "zset_step_ok c st k (ZScore m)" unfolding un store_zscore_def
    by (rule cell_step_reply [OF rd [where g = "\<lambda>es. Ok (scores es m)"]]) (simp_all add: zset_get_score_ok scores_def)
  show "zset_step_ok c st k (ZMScore mems)" unfolding un store_zmscore_def
    by (rule cell_step_reply [OF rd [where g = "\<lambda>es. Ok (map (scores es) mems)"]])
      (simp_all add: zset_get_score_ok scores_def map_replicate_const)
  show "zset_step_ok c st k (ZRank m)" unfolding un store_zrank_def
    by (rule cell_step_reply [OF rd [where g = "\<lambda>es. Ok (zrank_of m es)"]]) (simp_all add: zset_rank_def zrank_of_def)
  show "zset_step_ok c st k (ZRevRank m)" unfolding un store_zrevrank_def
    by (rule cell_step_reply [OF rd [where g = "\<lambda>es. Ok (map_option (\<lambda>r. length es - 1 - r) (zrank_of m es))"]])
      (simp_all add: zset_rev_rank_def zset_rank_def zrank_of_def del: One_nat_def diff_diff_left)
  show "zset_step_ok c st k ZCard" unfolding un store_zcard_def
    by (rule cell_step_reply [OF rd [where g = "\<lambda>es. Ok (length es)"]]) (simp_all add: zset_len_def)
  show "zset_step_ok c st k (ZRange i j)" unfolding un store_zrange_def map_case rank_window_slice
    by (rule cell_step_reply [OF rd [where g = "\<lambda>es. Ok (map zpair (zrank_slice i j es))"]]) (simp_all add: zrank_slice_def)
  show "zset_step_ok c st k (ZRevRange i j)" unfolding un store_zrevrange_def map_case rank_window_slice
    by (rule cell_step_reply [OF rd [where g = "\<lambda>es. Ok (map zpair (zrank_slice i j (rev es)))"]]) (simp_all add: zrank_slice_def)
  show "zset_step_ok c st k (ZLexCount mn mx)" unfolding un store_zlexcount_def
    by (rule cell_step_reply [OF rd [where g = "\<lambda>es. Ok (length (zlex mn mx es))"]])
      (simp_all add: lex_window_zlex zlex_def)
  show "zset_step_ok c st k (ZRangeByLex mn mx off cnt)" unfolding un store_zrangebylex_def
    by (rule cell_step_reply [OF rd [where g = "\<lambda>es. Ok (map zmember (page off cnt (zlex mn mx es)))"]])
      (simp_all add: lex_window_zlex zlex_def page_def)
qed

lemma or_panic_read:
  assumes inv: "zset_inv c st" and f: "\<And>z. zset_wf z \<Longrightarrow> f z = Some (g (entries z))"
  shows "or_panic (case zset_at c st k of Err e \<Rightarrow> Some (Err e) | Ok None \<Rightarrow> Some (Ok [])
      | Ok (Some z) \<Rightarrow> map_option (\<lambda>es. Ok (map zpair (page off cnt es))) (f z))
    = ZRPairs (read_value c as_zset st k (Ok []) (\<lambda>z. Ok (map zpair (page off cnt (g (entries z))))))"
proof -
  have ok: "store_ok st" using inv by (simp add: kind_inv_def)
  have "live c st k = Some v \<Longrightarrow> as_zset v = Some z \<Longrightarrow> zset_wf z" for v z using inv by (auto simp: kind_inv_def)
  then show ?thesis using f
    by (auto simp: zset_at_def read_value_live [OF ok] or_panic_def split: option.split sum.split)
qed

lemma zset_step_scores:
  assumes inv: "zset_inv c st" and le: "f_le mn mx"
  shows "zset_step_ok c st k (ZCount mn mx)" "zset_step_ok c st k (ZRangeByScore mn mx off cnt)"
    "zset_step_ok c st k (ZRevRangeByScore mx mn off cnt)"
proof -
  note rd = zset_view.read_step(1) [OF inv]
  note rng = range_by_score_filter [OF _ le, folded zwithin_def]
  have ok: "store_ok st" using inv by (simp add: kind_inv_def)
  have e: "zwithin mn mx [] = []" "page off cnt [] = []" for off cnt by (simp_all add: zwithin_def page_def)
  show "zset_step_ok c st k (ZCount mn mx)" unfolding zset_step_ok_def zset_cmd_exec.simps store_zcount_def
    by (rule cell_step_reply [OF rd [where g = "\<lambda>es. Ok (of_nat (length (zwithin mn mx es)))"]]) (simp_all add: rng e)
  have fwd: "zset_range_by_score z mn mx = Some (zwithin mn mx (entries z))" if "zset_wf z" for z using rng [OF that] by simp
  have "or_panic (store_zrangebyscore c st k mn mx off cnt)
      = ZRPairs (read_value c as_zset st k (Ok []) (\<lambda>z. Ok (map zpair (page off cnt (zwithin mn mx (entries z))))))"
    unfolding store_zrangebyscore_def by (rule or_panic_read [OF inv]) (erule fwd)
  then have "zset_cmd_exec c (k, ZRangeByScore mn mx off cnt) st = map_prod id ZRPairs
      (st, read_value c as_zset st k (Ok []) (\<lambda>z. Ok (map zpair (page off cnt (zwithin mn mx (entries z))))))" by simp
  then show "zset_step_ok c st k (ZRangeByScore mn mx off cnt)" unfolding zset_step_ok_def
    by (simp only:) (rule cell_step_reply [OF rd [where g = "\<lambda>es. Ok (map zpair (page off cnt (zwithin mn mx es)))"]], simp_all add: e)
  have rev: "zset_rev_range_by_score z mn mx = Some (rev (zwithin mn mx (entries z)))" if "zset_wf z" for z
    using rng [OF that] by (simp add: zset_rev_range_by_score_def zset_range_by_score_def)
  have "or_panic (store_zrevrangebyscore c st k mx mn off cnt)
      = ZRPairs (read_value c as_zset st k (Ok []) (\<lambda>z. Ok (map zpair (page off cnt (rev (zwithin mn mx (entries z)))))))"
    unfolding store_zrevrangebyscore_def by (rule or_panic_read [OF inv, where g = "\<lambda>es. rev (zwithin mn mx es)"]) (erule rev)
  then have "zset_cmd_exec c (k, ZRevRangeByScore mx mn off cnt) st = map_prod id ZRPairs
      (st, read_value c as_zset st k (Ok []) (\<lambda>z. Ok (map zpair (page off cnt (rev (zwithin mn mx (entries z)))))))" by simp
  then show "zset_step_ok c st k (ZRevRangeByScore mx mn off cnt)" unfolding zset_step_ok_def
    by (simp only:) (rule cell_step_reply [OF rd [where g = "\<lambda>es. Ok (map zpair (page off cnt (rev (zwithin mn mx es))))"]], simp_all add: e)
qed

lemma zset_step: "zset_pre cmd \<Longrightarrow> zset_inv c st \<Longrightarrow> zset_step_ok c st k cmd"
  by (cases cmd) (simp_all only: zset_pre.simps zset_step_add zset_step_change zset_step_incr zset_step_read zset_step_scores)

interpretation zset_sim: guarded_simulation zset_cmd_pre "zset_inv c" "zset_cells c" "zset_cmd_exec c" zset_cmd_spec for c
  unfolding zset_cells_def zset_cmd_spec_def zset_cmd_pre_def
  by (rule zset_view.guarded_of_steps) (rule zset_step [unfolded zset_step_ok_def])

section \<open>Properties\<close>

text \<open>C2: Any sequence of commands on single sorted sets replies what the specification on vectors in
  the order of score and member replies, when scores are numbers, increments are finite and score
  ranges are not reversed: additions under every combination of flags, removals, increments,
  ranks, ranges by rank, score and member in both directions, pops at both ends, and the errors of
  keys of another kind.  In particular the filter never hides a member, the binary searches find
  the ranges, and no slice panics.\<close>

theorem zset_commands_refine:
  assumes "store_ok st" and "fresh c st" and "\<And>k z. live c st k = Some (FZSet z) \<Longrightarrow> zset_wf z" and "list_all zset_cmd_pre ops"
  shows "snd (run (zset_cmd_exec c) ops st) = snd (run zset_cmd_spec ops (zset_cells c st))"
proof -
  have "zset_inv c st" using assms(1-3) by (auto simp: kind_inv_def zsets.get_Some)
  then show ?thesis using zset_sim.guarded_run [OF assms(4)] by blast
qed

definition no_flags :: zadd_flags where
  "no_flags = \<lparr>zadd_nx = False, zadd_xx = False, zadd_gt = False, zadd_lt = False, zadd_ch = False\<rparr>"

theorem zset_commands_refine_witness:
  "snd (run (zset_cmd_exec \<lparr>unix_ms_cache = 0, system_ms = 2, instant_ns = 0\<rparr>)
      [(''z'', ZAdd [(0x4024000000000000, ''a''), (0x4014000000000000, ''b'')] no_flags), (''z'', ZRange 0 (- 1)),
       (''z'', ZRank ''a''), (''z'', ZPopMin 1), (''y'', ZCard)]
      (store_with_config (\<lambda>_. 3) 2 10))
    = [ZRCount (Ok 2), ZRPairs (Ok [(''b'', 0x4014000000000000), (''a'', 0x4024000000000000)]), ZRRank (Ok (Some 1)),
       ZRPairs (Ok [(''b'', 0x4014000000000000)]), ZRCount (Ok 0)]"
proof -
  have "\<not> f_is_nan 0x4024000000000000" "\<not> f_is_nan 0x4014000000000000" using numbers_5_7_10 by (auto simp: f_lt_def)
  moreover have "\<not> zless (mk_entry 0x4024000000000000 ''a'') (mk_entry 0x4014000000000000 ''b'')"
    using numbers_5_7_10(1) by (auto simp: zless_def f_lt_def f_eq_def)
  ultimately show ?thesis
    by (subst zset_commands_refine [OF store_with_config_ok(1) fresh_new])
      (simp_all add: live_def zset_cmd_pre_def zset_cmd_spec_def cell_spec_def zset_cells_def no_flags_def zput_def scores_def zmove_def zdrop_def
        zplace_def zpair_def zrank_slice_def zrank_of_def)
qed

end
