(* ===== verification/ZSet_Algebra.thy ===== *)
theory ZSet_Algebra
  imports Store_ZSet
begin

text \<open>
  The commands on several sorted sets (\<open>src/src/storage/zset.rs\<close>) as operations on their members.
  Weights and aggregation may produce any score, also one that is not a number, which breaks the
  order of the entries.  The members are right all the same: this needs only that they are
  distinct and that the filter is complete, which insertions and removals keep for any score.
\<close>

section \<open>Members under any score\<close>

definition zmembers :: "zset \<Rightarrow> string set" where
  "zmembers z = zmember ` set (entries z)"

definition members_ok :: "zset \<Rightarrow> bool" where
  "members_ok z \<longleftrightarrow> distinct (map zmember (entries z)) \<and> bloom_ok (bloom z) (entries z)"

lemma members_ok_wf: "zset_wf z \<Longrightarrow> members_ok z"
  by (simp add: zset_wf_def entries_ok_def members_ok_def)

lemma members_new [simp]: "members_ok zset_new" "zmembers zset_new = {}"
  by (simp_all add: members_ok_wf zmembers_def) (simp add: zset_new_def)

lemma entries_new [simp]: "entries zset_new = []"
  by (simp add: zset_new_def)

text \<open>A vector with the same members, or with one more, keeps the invariant.\<close>

lemma members_same:
  assumes "members_ok z" "mset (map zmember es) = mset (map zmember (entries z))"
  shows "members_ok (z\<lparr>entries := es\<rparr>)" "zmembers (z\<lparr>entries := es\<rparr>) = zmembers z"
proof -
  have eq: "set (map zmember es) = set (map zmember (entries z))" using assms(2) by (rule mset_eq_setD)
  moreover have "distinct (map zmember es)" using assms(1) mset_eq_imp_distinct_iff [OF assms(2)] by (simp add: members_ok_def)
  ultimately show "members_ok (z\<lparr>entries := es\<rparr>)" using assms(1) bloom_ok_mono [of "bloom z" "entries z" es] by (simp add: members_ok_def)
  show "zmembers (z\<lparr>entries := es\<rparr>) = zmembers z" using eq by (simp add: zmembers_def)
qed

lemma members_push:
  assumes ok: "members_ok z" and m: "m \<notin> zmembers z"
  shows "members_ok (zset_push z s m)" "zmembers (zset_push z s m) = insert m (zmembers z)"
proof -
  define es where "es = (if entries z = [] \<or> f_lt (zscore (last (entries z))) s \<or> f_eq (zscore (last (entries z))) s \<and> zmember (last (entries z)) \<le> m
    then entries z @ [mk_entry s m] else insert_at (find_insert_pos (entries z) s m) (mk_entry s m) (entries z))"
  let ?z = "z\<lparr>entries := es, bloom := bloom_set (bloom z) (member_hash m)\<rparr>"
  have push: "zset_push z s m = bloom_grow_if_needed ?z" by (simp add: zset_push_def es_def Let_def)
  have ms: "mset es = add_mset (mk_entry s m) (mset (entries z))" by (simp add: es_def)
  then have st: "set es = insert (mk_entry s m) (set (entries z))" by (metis set_mset_add_mset_insert set_mset_mset)
  have mm: "mset (map zmember es) = mset (m # map zmember (entries z))" using arg_cong [OF ms, of "image_mset zmember"] by simp
  have "distinct (m # map zmember (entries z))" using ok m by (simp add: members_ok_def zmembers_def)
  then have "distinct (map zmember es)" using mset_eq_imp_distinct_iff [OF mm] by blast
  moreover have "bloom_ok (bloom ?z) (entries ?z)"
    using ok bloom_ok_set [of "bloom z" "entries z" es m] by (simp add: members_ok_def st)
  ultimately show "members_ok (zset_push z s m)" using bloom_grow_ok(1) [of ?z] by (simp add: push members_ok_def bloom_grow_ok(2))
  show "zmembers (zset_push z s m) = insert m (zmembers z)" by (simp add: push zmembers_def bloom_grow_ok(2) st)
qed

lemma members_remove_at:
  "i < length es \<Longrightarrow> mset (map zmember (remove_at i es)) = mset (map zmember es) - {#zmember (es ! i)#}"
  using image_mset_Diff [of "{#es ! i#}" "mset es" zmember] by simp

lemma insert_members:
  assumes ok: "members_ok z"
  shows "members_ok (fst (zset_insert z s m))" "zmembers (fst (zset_insert z s m)) = insert m (zmembers z)"
proof -
  let ?es = "entries z"
  have "members_ok (fst (zset_insert z s m)) \<and> zmembers (fst (zset_insert z s m)) = insert m (zmembers z)"
  proof (cases "m \<in> zmembers z")
    case False
    then have "\<not> (?es \<noteq> [] \<and> zmember (last ?es) = m)" using last_in_set [of ?es] by (auto simp: zmembers_def)
    moreover have pos: "position (\<lambda>e. zmember e = m) ?es = None" using False by (auto simp: zmembers_def)
    ultimately have "fst (zset_insert z s m) = zset_push z s m" unfolding zset_insert_def Let_def pos by auto
    then show ?thesis using members_push [OF ok False] by simp
  next
    case True
    then have bl: "bloom_maybe_contains (bloom z) (member_hash m)" using ok by (auto simp: members_ok_def bloom_ok_def zmembers_def)
    have rep: "mset (map zmember (reposition ?es i s m)) = mset (map zmember ?es)" if "i < length ?es" "zmember (?es ! i) = m" for i
    proof -
      have "m \<in># mset (map zmember ?es)" using that by (auto intro!: image_eqI [of _ _ "?es ! i"])
      then have "add_mset m (mset (map zmember (remove_at i ?es))) = mset (map zmember ?es)"
        using members_remove_at [OF that(1)] that(2) by (simp add: insert_DiffM)
      then show ?thesis by (simp add: reposition_def Let_def)
    qed
    obtain i where i: "position (\<lambda>e. zmember e = m) ?es = Some i" "i < length ?es" "zmember (?es ! i) = m"
      using True by (cases "position (\<lambda>e. zmember e = m) ?es") (auto simp: zmembers_def position_Some)
    have "fst (zset_insert z s m) = z \<or> (\<exists>j<length ?es. zmember (?es ! j) = m \<and> fst (zset_insert z s m) = z\<lparr>entries := reposition ?es j s m\<rparr>)"
    proof (cases "?es \<noteq> [] \<and> zmember (last ?es) = m")
      case last: True
      then have "length ?es - 1 < length ?es" "zmember (?es ! (length ?es - 1)) = m" by (auto simp: last_conv_nth)
      moreover have "fst (zset_insert z s m) = (if differs (zscore (last ?es)) s then z\<lparr>entries := reposition ?es (length ?es - 1) s m\<rparr> else z)"
        using last bl by (simp add: zset_insert_def Let_def butlast_reposition)
      ultimately show ?thesis by (cases "differs (zscore (last ?es)) s") auto
    next
      case False
      then show ?thesis using bl i by (auto simp: zset_insert_def Let_def)
    qed
    then show ?thesis using members_same [OF ok rep] ok True by (auto simp: insert_absorb)
  qed
  then show "members_ok (fst (zset_insert z s m))" "zmembers (fst (zset_insert z s m)) = insert m (zmembers z)" by simp_all
qed

lemma remove_members:
  assumes ok: "members_ok z"
  shows "members_ok (fst (zset_remove z m))" "zmembers (fst (zset_remove z m)) = zmembers z - {m}"
proof -
  have "members_ok (fst (zset_remove z m)) \<and> zmembers (fst (zset_remove z m)) = zmembers z - {m}"
  proof (cases "position (\<lambda>e. zmember e = m) (entries z)")
    case None
    have "zset_remove z m = (z, None)" unfolding zset_remove_def None by simp
    moreover have "m \<notin> zmembers z" using None by (auto simp: zmembers_def)
    ultimately show ?thesis using ok by simp
  next
    case (Some i)
    then have i: "i < length (entries z)" "zmember (entries z ! i) = m" by (simp_all add: position_Some)
    have "distinct (map zmember (entries z))" using ok by (simp add: members_ok_def)
    then have "distinct (map zmember (remove_at i (entries z)))" "set (map zmember (remove_at i (entries z))) = zmembers z - {m}"
      using map_remove_at [of zmember i "entries z"] distinct_remove_at [of "map zmember (entries z)" i]
        set_remove_at_distinct [of "map zmember (entries z)" i] i by (simp_all add: zmembers_def)
    then show ?thesis using Some ok bloom_ok_mono [of "bloom z" "entries z" "remove_at i (entries z)"]
      by (auto simp: zset_remove_def members_ok_def zmembers_def)
  qed
  then show "members_ok (fst (zset_remove z m))" "zmembers (fst (zset_remove z m)) = zmembers z - {m}" by simp_all
qed

section \<open>Folds\<close>

lemma zunion_fold_members:
  assumes "members_ok z"
  shows "members_ok (foldl (zunion_entry agg w) z es) \<and> zmembers (foldl (zunion_entry agg w) z es) = zmembers z \<union> zmember ` set es"
  using assms by (induction es arbitrary: z) (auto simp: zunion_entry_def Let_def insert_members)

lemma zinter_fold_members:
  assumes "members_ok z"
  shows "members_ok (foldl (\<lambda>z e. case zset_get_score other (zmember e) of
      Some s \<Rightarrow> fst (zset_insert z (f s e) (zmember e)) | None \<Rightarrow> z) z es)
    \<and> zmembers (foldl (\<lambda>z e. case zset_get_score other (zmember e) of
      Some s \<Rightarrow> fst (zset_insert z (f s e) (zmember e)) | None \<Rightarrow> z) z es) = zmembers z \<union> (zmember ` set es \<inter> zmembers other)"
  using assms
proof (induction es arbitrary: z)
  case (Cons e es)
  have "zset_get_score other (zmember e) = None \<longleftrightarrow> zmember e \<notin> zmembers other"
    by (simp add: zset_get_score_ok scores_None zmembers_def)
  then show ?case using Cons insert_members [OF Cons.prems] by (cases "zset_get_score other (zmember e)") auto
qed simp

lemma weighted_fold_members:
  assumes "members_ok z"
  shows "members_ok (foldl (\<lambda>z e. fst (zset_insert z (f e) (zmember e))) z es)
    \<and> zmembers (foldl (\<lambda>z e. fst (zset_insert z (f e) (zmember e))) z es) = zmembers z \<union> zmember ` set es"
  using assms by (induction es arbitrary: z) (auto simp: insert_members)

lemma zinter_round_members:
  "members_ok (zinter_round agg w other acc) \<and> zmembers (zinter_round agg w other acc) = zmembers acc \<inter> zmembers other"
  using zinter_fold_members [where z = zset_new and other = other and f = "\<lambda>s e. zagg_apply agg (zscore e) (f_mul s w)" and es = "entries acc"]
  by (simp add: zinter_round_def zset_iter_def zmembers_def)

lemma zdiff_fold_members:
  assumes "members_ok z"
  shows "members_ok (foldl (\<lambda>z m. fst (zset_remove z m)) z mems) \<and> zmembers (foldl (\<lambda>z m. fst (zset_remove z m)) z mems) = zmembers z - set mems"
  using assms by (induction mems arbitrary: z) (auto simp: remove_members)

lemma zdiff_round_members:
  "members_ok acc \<Longrightarrow> members_ok (zdiff_round other acc) \<and> zmembers (zdiff_round other acc) = zmembers acc - zmembers other"
proof -
  have "set (filter (zset_contains other) (zset_members acc)) = zmembers acc \<inter> zmembers other"
    by (auto simp: zset_members_def zset_contains_def list_ex_iff zmembers_def) (metis imageI)
  then show "members_ok acc \<Longrightarrow> ?thesis"
    using zdiff_fold_members [of acc "filter (zset_contains other) (zset_members acc)"] by (auto simp: zdiff_round_def)
qed

section \<open>The operands\<close>

definition zmembers_at :: "clock \<Rightarrow> store \<Rightarrow> string \<Rightarrow> string set" where
  "zmembers_at c st k = (case live c st k of Some (FZSet z) \<Rightarrow> zmembers z | _ \<Rightarrow> {})"

definition zset_or_absent :: "clock \<Rightarrow> store \<Rightarrow> string \<Rightarrow> bool" where
  "zset_or_absent c st k = (case live c st k of Some v \<Rightarrow> as_zset v \<noteq> None | None \<Rightarrow> True)"

definition zsets_good :: "clock \<Rightarrow> store \<Rightarrow> bool" where
  "zsets_good c st \<longleftrightarrow> store_ok st \<and> (\<forall>k z. live c st k = Some (FZSet z) \<longrightarrow> members_ok z)"

lemma zset_at_cases:
  assumes "zsets_good c st" and "zset_or_absent c st k"
  obtains (none) "zset_at c st k = Ok None" "zmembers_at c st k = {}"
  | (some) z where "zset_at c st k = Ok (Some z)" "zmembers_at c st k = zmembers z" "members_ok z"
proof (cases "live c st k")
  case None
  then show ?thesis using that(1) assms(1) by (simp add: zsets_good_def zset_at_def read_value_live zmembers_at_def)
next
  case (Some v)
  then obtain z where "v = FZSet z" using assms(2) by (auto simp: zset_or_absent_def zsets.get_Some)
  then show ?thesis using that(2) [of z] Some assms(1) by (simp add: zsets_good_def zset_at_def read_value_live zmembers_at_def)
qed

lemma zunion_loop_members:
  assumes good: "zsets_good c st"
  shows "\<forall>k\<in>set ks. zset_or_absent c st k \<Longrightarrow> members_ok acc \<Longrightarrow> \<exists>z. zunion_loop c st weights agg i ks acc = Ok z
    \<and> members_ok z \<and> zmembers z = zmembers acc \<union> (\<Union>k\<in>set ks. zmembers_at c st k)"
proof (induction ks arbitrary: i acc)
  case (Cons k ks)
  have "zset_or_absent c st k" using Cons.prems by simp
  with good show ?case
  proof (cases rule: zset_at_cases)
    case (some z)
    note fold = zunion_fold_members [OF Cons.prems(2), of agg "weight_at weights i" "entries z"]
    show ?thesis using Cons.IH [of "foldl (zunion_entry agg (weight_at weights i)) acc (entries z)" "i + 1"] Cons.prems(1) fold some
      by (auto simp: zset_iter_def zmembers_def)
  qed (use Cons in auto)
qed simp

lemma zinter_loop_members:
  assumes good: "zsets_good c st"
  shows "\<forall>k\<in>set ks. zset_or_absent c st k \<Longrightarrow> members_ok acc \<Longrightarrow> \<exists>r. zinter_loop c st weights agg i ks acc = Ok r
    \<and> (case r of None \<Rightarrow> zmembers acc \<inter> (\<Inter>k\<in>set ks. zmembers_at c st k) = {}
      | Some z \<Rightarrow> members_ok z \<and> zmembers z = zmembers acc \<inter> (\<Inter>k\<in>set ks. zmembers_at c st k))"
proof (induction ks arbitrary: i acc)
  case (Cons k ks)
  have "zset_or_absent c st k" using Cons.prems by simp
  with good show ?case
  proof (cases rule: zset_at_cases)
    case (some z)
    note rnd = zinter_round_members [of agg "weight_at weights i" z acc]
    show ?thesis using Cons.IH [of "zinter_round agg (weight_at weights i) z acc" "i + 1"] Cons.prems(1) rnd some
      by (auto simp: Int_assoc split: option.splits)
  qed simp
qed simp

lemma zdiff_loop_members:
  assumes good: "zsets_good c st"
  shows "\<forall>k\<in>set ks. zset_or_absent c st k \<Longrightarrow> members_ok acc \<Longrightarrow> \<exists>z. zdiff_loop c st ks acc = Ok z
    \<and> members_ok z \<and> zmembers z = zmembers acc - (\<Union>k\<in>set ks. zmembers_at c st k)"
proof (induction ks arbitrary: acc)
  case (Cons k ks)
  have "zset_or_absent c st k" using Cons.prems by simp
  with good show ?case
  proof (cases rule: zset_at_cases)
    case (some z)
    show ?thesis using Cons.IH [of "zdiff_round z acc"] Cons.prems zdiff_round_members [OF Cons.prems(2), of z] some
      by (auto simp: Diff_eq Int_assoc)
  qed (use Cons in auto)
qed simp

section \<open>Properties\<close>

text \<open>The reply lists the members of a set once each, with some scores.\<close>

definition lists_members :: "(string \<times> f64) list res \<Rightarrow> string set \<Rightarrow> bool" where
  "lists_members r a \<longleftrightarrow> (\<exists>ps. r = Ok ps \<and> distinct (map fst ps) \<and> fst ` set ps = a)"

lemma lists_membersI: "members_ok z \<Longrightarrow> zmembers z = a \<Longrightarrow> lists_members (Ok (map zpair (zset_iter z))) a"
  by (auto simp: lists_members_def members_ok_def zmembers_def zset_iter_def zpair_def comp_def image_image)

lemma zset_algebra_laws:
  assumes good: "zsets_good c st" and keys: "\<And>x. x \<in> set (k # ks) \<Longrightarrow> zset_or_absent c st x"
  shows "lists_members (store_zunion c st (k # ks) weights agg) (\<Union>x\<in>set (k # ks). zmembers_at c st x)"
    and "lists_members (store_zinter c st (k # ks) weights agg) (\<Inter>x\<in>set (k # ks). zmembers_at c st x)"
    and "lists_members (store_zdiff c st (k # ks)) (zmembers_at c st k - (\<Union>x\<in>set ks. zmembers_at c st x))"
proof -
  have ks: "\<forall>x\<in>set ks. zset_or_absent c st x" and k: "zset_or_absent c st k" and all: "\<forall>x\<in>set (k # ks). zset_or_absent c st x"
    using keys by simp_all
  show "lists_members (store_zunion c st (k # ks) weights agg) (\<Union>x\<in>set (k # ks). zmembers_at c st x)"
    using zunion_loop_members [OF good all members_new(1), of weights agg 0] by (auto simp: store_zunion_def simp del: zunion_loop.simps intro: lists_membersI)
  from good k show "lists_members (store_zinter c st (k # ks) weights agg) (\<Inter>x\<in>set (k # ks). zmembers_at c st x)"
  proof (cases rule: zset_at_cases)
    case (some z)
    define acc where "acc = foldl (\<lambda>acc e. fst (zset_insert acc (f_mul (zscore e) (weight_at weights 0)) (zmember e))) zset_new (entries z)"
    have acc: "members_ok acc" "zmembers acc = zmembers z"
      using weighted_fold_members [OF members_new(1), of "\<lambda>e. f_mul (zscore e) (weight_at weights 0)" "entries z"] by (simp_all add: acc_def zmembers_def)
    obtain r where r: "zinter_loop c st weights agg 1 ks acc = Ok r" "case r of None \<Rightarrow> zmembers acc \<inter> (\<Inter>k\<in>set ks. zmembers_at c st k) = {}
        | Some z \<Rightarrow> members_ok z \<and> zmembers z = zmembers acc \<inter> (\<Inter>k\<in>set ks. zmembers_at c st k)"
      using zinter_loop_members [OF good ks acc(1), of weights agg 1] by blast
    have "store_zinter c st (k # ks) weights agg = Ok (case r of None \<Rightarrow> [] | Some z \<Rightarrow> map zpair (zset_iter z))"
      using some(1) r(1) by (simp add: store_zinter_def acc_def zset_iter_def)
    then show ?thesis using r(2) acc(2) some(2)
      by (cases r) (simp_all add: lists_membersI, simp add: lists_members_def)
  qed (simp add: store_zinter_def lists_members_def)
  from good k show "lists_members (store_zdiff c st (k # ks)) (zmembers_at c st k - (\<Union>x\<in>set ks. zmembers_at c st x))"
  proof (cases rule: zset_at_cases)
    case (some z)
    then show ?thesis using zdiff_loop_members [OF good ks some(3)] by (auto intro: lists_membersI)
  qed (simp add: lists_members_def)
qed



end
