(* ===== verification/Store_Stream.thy ===== *)
theory Store_Stream
  imports Typed_Store
begin

text \<open>
  The commands on streams (\<open>src/src/storage/stream.rs\<close>).  \<open>BTreeMap::range\<close> panics when its start is
  past its end, which is \<^const>\<open>None\<close>; only a tree that never held an entry, and so has no root node,
  returns an empty range before it looks at the bounds.  A stream has had an entry when its last
  identifier has moved.
\<close>

section \<open>The commands\<close>

definition xadd_stream ::
  "clock \<Rightarrow> stream_id \<Rightarrow> (string \<times> string) list \<Rightarrow> nat option \<Rightarrow> stream_data \<Rightarrow> stream_data \<times> stream_id" where
  "xadd_stream c i fs maxlen s = (let (s', a) = stream_add (now_ms c) s i fs
     in (case maxlen of Some ml \<Rightarrow> trim_maxlen s' ml | None \<Rightarrow> s', a))"

definition store_xadd ::
  "clock \<Rightarrow> store \<Rightarrow> string \<Rightarrow> string \<Rightarrow> (string \<times> string) list \<Rightarrow> nat option \<Rightarrow> bool \<Rightarrow> store \<times> string option res" where
  "store_xadd c st k id_str fs maxlen nomkstream =
     (case (if id_str = ''*'' then Some (Stream_Id 0 0) else id_parse id_str) of
        None \<Rightarrow> (st, Err ''Invalid stream ID specified as stream command argument'')
      | Some i \<Rightarrow>
          (let (s, a) = xadd_stream c i fs maxlen stream_new; reply = Ok (Some (id_to_string a));
               act = on_value c as_stream FStream (if nomkstream then leave (Ok None) else renew (FStream s) reply)
                 (\<lambda>s. map_prod id (\<lambda>a. Ok (Some (id_to_string a))) (xadd_stream c i fs maxlen s))
           in if nomkstream then update_or st k act (Ok None) else upsert st k act (sv_stream s) reply))"

definition store_xlen :: "clock \<Rightarrow> store \<Rightarrow> string \<Rightarrow> nat res" where
  "store_xlen c st k = read_value c as_stream st k (Ok 0) (\<lambda>s. Ok (stream_len s))"

definition start_bound :: "string \<Rightarrow> stream_id" where
  "start_bound s = (if s = ''-'' then id_min else case id_parse s of Some i \<Rightarrow> i | None \<Rightarrow> id_min)"

definition end_bound :: "string \<Rightarrow> stream_id" where
  "end_bound s = (if s = ''+'' then id_max else case id_parse s of Some i \<Rightarrow> i | None \<Rightarrow> id_max)"

definition entries_range :: "stream_data \<Rightarrow> stream_id \<Rightarrow> stream_id \<Rightarrow> (stream_id \<times> (string \<times> string) list) list option" where
  "entries_range s lo hi = (if stream_entries s = [] \<and> last_id s = Stream_Id 0 0 then Some [] else bt_range (stream_entries s) lo hi)"

text \<open>The stream at a key, if there is one.\<close>

definition stream_at :: "clock \<Rightarrow> store \<Rightarrow> string \<Rightarrow> stream_data option res" where
  "stream_at c st k = read_value c as_stream st k (Ok None) (\<lambda>s. Ok (Some s))"

definition render :: "nat \<Rightarrow> (stream_id \<times> (string \<times> string) list) list \<Rightarrow> (string \<times> (string \<times> string) list) list" where
  "render cnt es = map (\<lambda>(i, fs). (id_to_string i, fs)) (take (if cnt = 0 then 2 ^ 64 - 1 else cnt) es)"

definition store_xrange :: "clock \<Rightarrow> store \<Rightarrow> string \<Rightarrow> string \<Rightarrow> string \<Rightarrow> nat \<Rightarrow> (string \<times> (string \<times> string) list) list res option" where
  "store_xrange c st k start fin cnt = (case stream_at c st k of
      Err e \<Rightarrow> Some (Err e) | Ok None \<Rightarrow> Some (Ok [])
    | Ok (Some s) \<Rightarrow> map_option (\<lambda>es. Ok (render cnt es)) (entries_range s (start_bound start) (end_bound fin)))"

definition store_xrevrange :: "clock \<Rightarrow> store \<Rightarrow> string \<Rightarrow> string \<Rightarrow> string \<Rightarrow> nat \<Rightarrow> (string \<times> (string \<times> string) list) list res option" where
  "store_xrevrange c st k fin start cnt = (case stream_at c st k of
      Err e \<Rightarrow> Some (Err e) | Ok None \<Rightarrow> Some (Ok [])
    | Ok (Some s) \<Rightarrow> map_option (\<lambda>es. Ok (render cnt (rev es))) (entries_range s (start_bound start) (end_bound fin)))"

definition store_xtrim :: "clock \<Rightarrow> store \<Rightarrow> string \<Rightarrow> nat \<Rightarrow> store \<times> nat res" where
  "store_xtrim c st k maxlen = update_or st k (on_value c as_stream FStream (leave (Ok 0))
     (\<lambda>s. (trim_maxlen s maxlen, Ok (stream_len s - stream_len (trim_maxlen s maxlen))))) (Ok 0)"

text \<open>Deleting the parsable identifiers of a list from a tree, counting those that were there.\<close>

definition delete_ids :: "string list \<Rightarrow> (stream_id \<times> 'v) list \<Rightarrow> (stream_id \<times> 'v) list \<times> nat" where
  "delete_ids ids es = foldl (\<lambda>(es, n) s. case id_parse s of
      Some i \<Rightarrow> (AList.delete i es, if map_of es i \<noteq> None then n + 1 else n) | None \<Rightarrow> (es, n)) (es, 0) ids"

definition store_xdel :: "clock \<Rightarrow> store \<Rightarrow> string \<Rightarrow> string list \<Rightarrow> store \<times> nat res" where
  "store_xdel c st k ids = update_or st k (on_value c as_stream FStream (leave (Ok 0))
     (\<lambda>s. let (es, n) = delete_ids ids (stream_entries s) in (s\<lparr>stream_entries := es\<rparr>, Ok n))) (Ok 0)"

definition new_group :: "stream_id \<Rightarrow> consumer_group" where
  "new_group i = \<lparr>last_delivered = i, pel = [], consumers = []\<rparr>"

definition add_group :: "string \<Rightarrow> stream_id option \<Rightarrow> stream_data \<Rightarrow> stream_data" where
  "add_group g start s = s\<lparr>groups := AList.update g (new_group (case start of Some i \<Rightarrow> i | None \<Rightarrow> last_id s)) (groups s)\<rparr>"

definition store_xgroup_create :: "clock \<Rightarrow> store \<Rightarrow> string \<Rightarrow> string \<Rightarrow> string \<Rightarrow> bool \<Rightarrow> store \<times> bool res" where
  "store_xgroup_create c st k g id_str mkstream =
     (let start = (if id_str = ''$'' then None else Some (case id_parse id_str of Some i \<Rightarrow> i | None \<Rightarrow> id_min));
          missing = Err ''ERR The XGROUP subcommand requires the key to exist'';
          act = on_value c as_stream FStream (if mkstream then renew (FStream (add_group g start stream_new)) (Ok True) else leave missing)
            (\<lambda>s. (add_group g start s, Ok True))
      in if mkstream then upsert st k act (sv_stream (add_group g start stream_new)) (Ok True) else update_or st k act missing)"

definition store_xgroup_destroy :: "clock \<Rightarrow> store \<Rightarrow> string \<Rightarrow> string \<Rightarrow> store \<times> bool res" where
  "store_xgroup_destroy c st k g = update_or st k (on_value c as_stream FStream (leave (Ok False))
     (\<lambda>s. (s\<lparr>groups := AList.delete g (groups s)\<rparr>, Ok (map_of (groups s) g \<noteq> None)))) (Ok False)"

definition ack_group :: "string \<Rightarrow> string list \<Rightarrow> stream_data \<Rightarrow> stream_data \<times> nat res" where
  "ack_group g ids s = (case map_of (groups s) g of None \<Rightarrow> (s, Ok 0)
     | Some gr \<Rightarrow> (let (p, n) = delete_ids ids (pel gr) in (s\<lparr>groups := AList.update g (gr\<lparr>pel := p\<rparr>) (groups s)\<rparr>, Ok n)))"

definition store_xack :: "clock \<Rightarrow> store \<Rightarrow> string \<Rightarrow> string \<Rightarrow> string list \<Rightarrow> store \<times> nat res" where
  "store_xack c st k g ids = update_or st k (on_value c as_stream FStream (leave (Ok 0)) (ack_group g ids)) (Ok 0)"

section \<open>What they do\<close>

lemma delete_ids_ok:
  assumes "bt_wf es"
  shows "bt_wf (fst (delete_ids ids es))"
    and "fst (delete_ids ids es) = filter (\<lambda>(i, v). i \<notin> set (List.map_filter id_parse ids)) es"
    and "snd (delete_ids ids es) = card (fst ` set es \<inter> set (List.map_filter id_parse ids))"
proof -
  have "fst (delete_ids ids es) = filter (\<lambda>(i, v). i \<notin> set (List.map_filter id_parse ids)) es
    \<and> snd (delete_ids ids es) = card (fst ` set es \<inter> set (List.map_filter id_parse ids))"
  proof (induction ids rule: rev_induct)
    case (snoc s ids)
    let ?D = "set (List.map_filter id_parse ids)"
    have step: "delete_ids (ids @ [s]) es = (case id_parse s of None \<Rightarrow> delete_ids ids es
      | Some i \<Rightarrow> (AList.delete i (fst (delete_ids ids es)), if map_of (fst (delete_ids ids es)) i \<noteq> None then snd (delete_ids ids es) + 1 else snd (delete_ids ids es)))"
      by (simp add: delete_ids_def case_prod_beta split: option.split)
    show ?case
    proof (cases "id_parse s")
      case (Some i)
      have "map_of (filter (\<lambda>(i, v). i \<notin> ?D) es) i \<noteq> None \<longleftrightarrow> i \<in> fst ` set es - ?D"
        by (force simp: map_of_eq_None_iff)
      moreover have "fst ` set es \<inter> insert i ?D = (if i \<in> fst ` set es - ?D then insert i (fst ` set es \<inter> ?D) else fst ` set es \<inter> ?D)" by auto
      moreover have "AList.delete i (filter (\<lambda>(i, v). i \<notin> ?D) es) = filter (\<lambda>(j, v). j \<notin> insert i ?D) es"
        by (auto simp: AList.delete_eq intro!: filter_cong)
      ultimately show ?thesis using snoc by (auto simp: step Some map_filter_append)
    qed (use snoc in \<open>simp add: step map_filter_append\<close>)
  qed (simp add: delete_ids_def)
  then show "fst (delete_ids ids es) = filter (\<lambda>(i, v). i \<notin> set (List.map_filter id_parse ids)) es"
    "snd (delete_ids ids es) = card (fst ` set es \<inter> set (List.map_filter id_parse ids))" by simp_all
  then show "bt_wf (fst (delete_ids ids es))" using assms by (simp add: bt_wf_def sorted_wrt_map sorted_wrt_filter)
qed

lemma id_bounds [simp]: "id_min \<le> i" "i \<le> id_max" "\<not> id_max < id_min"
  using word_order.extremum [of "ms i"] word_order.extremum [of "seq i"]
  by (auto simp: id_min_def id_max_def less_eq_stream_id_def less_stream_id_def word_gt_0 order.strict_iff_order)

text \<open>Entries are in order and at most the last identifier.\<close>

definition stream_inv :: "stream_data \<Rightarrow> bool" where
  "stream_inv s \<longleftrightarrow> stream_wf s \<and> (\<forall>e\<in>set (stream_entries s). fst e \<le> last_id s)"

lemma stream_add_inv:
  assumes "stream_inv s" "ms (last_id s) \<le> now" "seq (last_id s) \<noteq> - 1"
  shows "stream_inv (fst (stream_add now s (Stream_Id 0 0) fs))" "last_id s < snd (stream_add now s (Stream_Id 0 0) fs)"
    "stream_entries (fst (stream_add now s (Stream_Id 0 0) fs)) = stream_entries s @ [(snd (stream_add now s (Stream_Id 0 0) fs), fs)]"
    "last_id (fst (stream_add now s (Stream_Id 0 0) fs)) = snd (stream_add now s (Stream_Id 0 0) fs)"
proof -
  have le: "\<forall>e\<in>set (stream_entries s). fst e \<le> last_id s" and wf: "stream_wf s" using assms(1) by (simp_all add: stream_inv_def)
  note add = stream_add_monotone [OF wf le assms(2,3), of fs]
  then show "last_id s < snd (stream_add now s (Stream_Id 0 0) fs)"
    "stream_entries (fst (stream_add now s (Stream_Id 0 0) fs)) = stream_entries s @ [(snd (stream_add now s (Stream_Id 0 0) fs), fs)]"
    "last_id (fst (stream_add now s (Stream_Id 0 0) fs)) = snd (stream_add now s (Stream_Id 0 0) fs)" by simp_all
  then show "stream_inv (fst (stream_add now s (Stream_Id 0 0) fs))" using add le by (auto simp: stream_inv_def)
qed

lemma stream_update:
  assumes "store_ok st" and "live c st k = Some (FStream s)" and "snd (f s) = r" and "P (fst (f s))"
  shows "\<exists>st' s'. update_or st k (on_value c as_stream FStream (leave d) f) d = (st', r) \<and> live c st' = (live c st)(k \<mapsto> FStream s') \<and> P s'"
  using assms streams.update_live [OF assms(1), where k = k and c = c and d = d and act = f]
  by (intro exI [of _ "fst (update_or st k (on_value c as_stream FStream (leave d) f) d)"] exI [of _ "fst (f s)"]) (simp add: prod_eq_iff)

lemma set_update_elem: "x \<in> set (AList.update k v xs) \<Longrightarrow> x = (k, v) \<or> x \<in> set xs"
  by (induction xs) (auto split: if_splits)

section \<open>Properties\<close>



text \<open>\<open>XRANGE\<close> and \<open>XREVRANGE\<close> with a start past the end panic on any stream that has had an entry.\<close>

lemma xrange_reversed_panics:
  assumes "store_ok st" and "live c st k = Some (FStream s)" and "last_id s \<noteq> Stream_Id 0 0" and "end_bound fin < start_bound start"
  shows "store_xrange c st k start fin cnt = None" and "store_xrevrange c st k fin start cnt = None"
  using assms by (simp_all add: store_xrange_def store_xrevrange_def stream_at_def read_value_live entries_range_def bt_range_def)

text \<open>C28: \<open>XDEL\<close> removes exactly the entries whose identifiers are given and replies how many there
  were, \<open>XTRIM\<close> keeps the newest entries up to the given length and replies how many it dropped, and
  \<open>XACK\<close> settles exactly the given pending entries of the group; all three keep the stream well
  formed and leave every other key alone.\<close>

theorem stream_removals:
  assumes ok: "store_ok st" and live: "live c st k = Some (FStream s)" and wf: "stream_wf s"
  shows "(\<exists>st' s'. store_xdel c st k ids = (st', Ok (card (fst ` set (stream_entries s) \<inter> set (List.map_filter id_parse ids))))
      \<and> live c st' = (live c st)(k \<mapsto> FStream s') \<and> stream_wf s'
      \<and> stream_entries s' = filter (\<lambda>(i, fs). i \<notin> set (List.map_filter id_parse ids)) (stream_entries s))
    \<and> (\<exists>st' s'. store_xtrim c st k n = (st', Ok (stream_len s - n)) \<and> live c st' = (live c st)(k \<mapsto> FStream s')
      \<and> stream_wf s' \<and> stream_entries s' = drop (stream_len s - n) (stream_entries s))
    \<and> (map_of (groups s) g = Some gr \<longrightarrow> (\<exists>st' s'. store_xack c st k g ids
          = (st', Ok (card (fst ` set (pel gr) \<inter> set (List.map_filter id_parse ids))))
      \<and> live c st' = (live c st)(k \<mapsto> FStream s') \<and> stream_wf s'
      \<and> map_of (groups s') = (map_of (groups s))(g \<mapsto> gr\<lparr>pel := filter (\<lambda>(i, p). i \<notin> set (List.map_filter id_parse ids)) (pel gr)\<rparr>)))"
    (is "?del \<and> ?trim \<and> (_ \<longrightarrow> ?ack)")
proof (intro conjI impI)
  note upd = stream_update [OF ok live]
  have es: "bt_wf (stream_entries s)" using wf by (simp add: stream_wf_def)
  show ?del unfolding store_xdel_def
    using wf delete_ids_ok [OF es, of ids] by (intro upd) (auto simp: case_prod_beta stream_wf_def)
  show ?trim unfolding store_xtrim_def
    using wf by (intro upd) (auto simp: trim_maxlen_ok stream_len_def)
  show ?ack if g: "map_of (groups s) g = Some gr"
  proof -
    have p: "bt_wf (pel gr)" using wf map_of_SomeD [OF g] by (fastforce simp: stream_wf_def)
    show ?thesis unfolding store_xack_def
      using wf delete_ids_ok [OF p, of ids] g
      by (intro upd) (auto simp: ack_group_def case_prod_beta stream_wf_def AList.update_conv' dest!: set_update_elem)
  qed
qed

theorem stream_removals_witness:
  "\<exists>st'. store_xdel \<lparr>unix_ms_cache = 0, system_ms = 2, instant_ns = 0\<rparr> (put_key (store_with_config (\<lambda>_. 3) 2 10) ''x''
      (sv_plain (FStream (stream_new\<lparr>stream_entries := [(Stream_Id 1 1, [])], last_id := Stream_Id 1 1\<rparr>)))) ''x'' [''1-1'', ''1-1''] = (st', Ok 1)"
proof -
  let ?c = "\<lparr>unix_ms_cache = 0, system_ms = 2, instant_ns = 0\<rparr>"
  define s where "s = stream_new\<lparr>stream_entries := [(Stream_Id 1 1, [])], last_id := Stream_Id 1 1\<rparr>"
  define st where "st = put_key (store_with_config (\<lambda>_. 3) 2 10) ''x'' (sv_plain (FStream s))"
  have "store_ok st" "live ?c st ''x'' = Some (FStream s)" "stream_wf s"
    by (simp_all add: s_def st_def put_key_laws live_def stream_wf_def bt_wf_def stream_new_def)
  then have "\<exists>st'. store_xdel ?c st ''x'' [''1-1'', ''1-1''] = (st', Ok (card (fst ` set (stream_entries s) \<inter> set (List.map_filter id_parse [''1-1'', ''1-1'']))))"
    using stream_removals [of st ?c "''x''" s "[''1-1'', ''1-1'']"] by blast
  moreover have "nat_to_string 1 = ''1''" by code_simp
  then have "parse_u64 ''1'' = Some 1" using parse_u64_to_string [of 1] by (simp add: u64_to_string_def del: parse_u64_to_string)
  then have "id_parse ''1-1'' = Some (Stream_Id 1 1)" by (simp add: id_parse_def Let_def)
  then have "fst ` set (stream_entries s) \<inter> set (List.map_filter id_parse [''1-1'', ''1-1'']) = {Stream_Id 1 1}"
    by (simp add: s_def map_filter_def)
  ultimately show ?thesis by (simp add: st_def s_def)
qed

end
