(* ===== verification/Store_Bitmap.thy ===== *)
theory Store_Bitmap
  imports Typed_Store
begin

text \<open>
  The commands on bitmaps (\<open>src/src/storage/bitmap.rs\<close>), which are strings read as sequences of bits,
  the most significant bit of each byte first.  The commands on one key are specified on the list of
  bits of the string; the bitwise operations over several keys are specified bit by bit.  Memory is
  taken to suffice for any offset, and indices are exact: a string has fewer than \<open>2 ^ 60\<close> bytes.
\<close>

section \<open>Bytes and bits\<close>

definition nth_byte :: "string \<Rightarrow> nat \<Rightarrow> nat" where
  "nth_byte s i = of_char (s ! i)"

definition byte_bit :: "nat \<Rightarrow> nat \<Rightarrow> nat" where
  "byte_bit b i = drop_bit i b AND 1"

definition byte_not :: "nat \<Rightarrow> nat" where
  "byte_not b = 255 XOR b"

definition zero_bytes :: "nat \<Rightarrow> string" where
  "zero_bytes n = replicate n (char_of (0 :: nat))"

definition ensure_len :: "nat \<Rightarrow> string \<Rightarrow> string" where
  "ensure_len n s = s @ zero_bytes (n - length s)"

definition set_byte_bit :: "nat \<Rightarrow> nat \<Rightarrow> bool \<Rightarrow> string \<Rightarrow> string" where
  "set_byte_bit byte_idx bit_idx v s = s[byte_idx := char_of
     (if v then nth_byte s byte_idx OR push_bit bit_idx 1 else nth_byte s byte_idx AND byte_not (push_bit bit_idx 1))]"

section \<open>The commands\<close>

definition store_setbit :: "clock \<Rightarrow> store \<Rightarrow> string \<Rightarrow> u64 \<Rightarrow> bool \<Rightarrow> store \<times> nat res" where
  "store_setbit c st k offset v =
     (let byte_idx = unat (offset div 8); bit_idx = 7 - unat (offset mod 8);
          zeros = zero_bytes (byte_idx + 1); new = (if v then set_byte_bit byte_idx bit_idx True zeros else zeros)
      in upsert st k (on_value c as_string FString (renew (FString new) (Ok 0))
           (\<lambda>s. let s' = ensure_len (byte_idx + 1) s
                 in (set_byte_bit byte_idx bit_idx v s', Ok (byte_bit (nth_byte s' byte_idx) bit_idx))))
         (sv_string new) (Ok 0))"

definition store_getbit :: "clock \<Rightarrow> store \<Rightarrow> string \<Rightarrow> u64 \<Rightarrow> nat res" where
  "store_getbit c st k offset = read_value c as_string st k (Ok 0)
     (\<lambda>s. let byte_idx = unat (offset div 8); bit_idx = 7 - unat (offset mod 8)
           in if length s \<le> byte_idx then Ok 0 else Ok (byte_bit (nth_byte s byte_idx) bit_idx))"

definition normalize_bit_index :: "int \<Rightarrow> nat \<Rightarrow> nat" where
  "normalize_bit_index idx bit_len = (if idx < 0 then nat (max (int bit_len + idx) 0) else min (nat idx) (bit_len - 1))"

definition byte_start :: "int \<Rightarrow> nat \<Rightarrow> nat" where
  "byte_start start n = nat (if start < 0 then max (int n + start) 0 else min start (int n))"

definition byte_stop :: "int \<Rightarrow> nat \<Rightarrow> nat" where
  "byte_stop fin n = nat (if fin < 0 then max (int n + fin) 0 else min fin (int n - 1))"

definition count_ones :: "nat \<Rightarrow> nat" where
  "count_ones b = length (filter (bit b) [0..<8])"

definition bit_of :: "string \<Rightarrow> nat \<Rightarrow> nat" where
  "bit_of s i = (if i div 8 < length s then byte_bit (nth_byte s (i div 8)) (7 - i mod 8) else 0)"

definition bit_count :: "int \<Rightarrow> int \<Rightarrow> bool \<Rightarrow> string \<Rightarrow> nat" where
  "bit_count start fin use_bit s =
     (if s = [] then 0
      else if use_bit then
        let s_idx = normalize_bit_index start (length s * 8); e_idx = normalize_bit_index fin (length s * 8)
        in if s_idx > e_idx then 0 else foldl (\<lambda>n i. if bit_of s i = 1 then n + 1 else n) 0 [s_idx..<e_idx + 1]
      else
        let s_idx = byte_start start (length s); e_idx = byte_stop fin (length s)
        in if s_idx > e_idx then 0 else sum_list (map (\<lambda>b. count_ones (of_char b)) (take (e_idx + 1 - s_idx) (drop s_idx s))))"

definition store_bitcount :: "clock \<Rightarrow> store \<Rightarrow> string \<Rightarrow> int \<Rightarrow> int \<Rightarrow> bool \<Rightarrow> nat res" where
  "store_bitcount c st k start fin use_bit = read_value c as_string st k (Ok 0) (\<lambda>s. Ok (bit_count start fin use_bit s))"

text \<open>The first bit of the wanted value among the bytes at the given indices, and the first among
  given bit positions.\<close>

fun byte_search :: "string \<Rightarrow> nat \<Rightarrow> nat list \<Rightarrow> nat option" where
  "byte_search s b [] = None"
| "byte_search s b (i # idx) = (case find (\<lambda>j. byte_bit (nth_byte s i) j = b) (rev [0..<8]) of
      Some j \<Rightarrow> Some (i * 8 + (7 - j)) | None \<Rightarrow> byte_search s b idx)"

definition bit_pos :: "nat \<Rightarrow> int \<Rightarrow> int \<Rightarrow> bool \<Rightarrow> bool \<Rightarrow> string \<Rightarrow> int" where
  "bit_pos b start fin has_end use_bit s =
     (if s = [] then (if b = 0 then 0 else - 1)
      else if use_bit then
        let s_idx = normalize_bit_index start (length s * 8); e_idx = normalize_bit_index fin (length s * 8)
        in if s_idx > e_idx then - 1
           else (case find (\<lambda>i. bit_of s i = b) [s_idx..<e_idx + 1] of Some i \<Rightarrow> int i | None \<Rightarrow> - 1)
      else
        let s_idx = byte_start start (length s);
            e_idx = (if fin < 0 then nat (max (int (length s) + fin) 0) else if has_end then nat (min fin (int (length s) - 1)) else length s - 1)
        in if s_idx > e_idx then - 1
           else (case byte_search s b [s_idx..<min (e_idx + 1) (length s)] of Some i \<Rightarrow> int i
             | None \<Rightarrow> if b = 0 \<and> \<not> has_end then int (length s * 8) else - 1))"

definition store_bitpos :: "clock \<Rightarrow> store \<Rightarrow> string \<Rightarrow> nat \<Rightarrow> int \<Rightarrow> int \<Rightarrow> bool \<Rightarrow> bool \<Rightarrow> int res" where
  "store_bitpos c st k b start fin has_end use_bit =
     read_value c as_string st k (Ok (if b = 0 then 0 else - 1)) (\<lambda>s. Ok (bit_pos b start fin has_end use_bit s))"

datatype bit_op = BAnd | BOr | BXor | BNot

fun bitop_buffers :: "clock \<Rightarrow> store \<Rightarrow> string list \<Rightarrow> string list res" where
  "bitop_buffers c st [] = Ok []"
| "bitop_buffers c st (k # ks) = (case read_value c as_string st k (Ok []) Ok of
      Err e \<Rightarrow> Err e | Ok s \<Rightarrow> map_sum id (Cons s) (bitop_buffers c st ks))"

definition combine_bytes :: "(nat \<Rightarrow> nat \<Rightarrow> nat) \<Rightarrow> nat list \<Rightarrow> string \<Rightarrow> nat list" where
  "combine_bytes f res buf = foldl (\<lambda>r i. r[i := f (r ! i) (nth_byte buf i)]) res [0..<length buf]"

definition and_bytes :: "nat list \<Rightarrow> string \<Rightarrow> nat list" where
  "and_bytes res buf = foldl (\<lambda>r i. r[i := r ! i AND (if i < length buf then nth_byte buf i else 0)]) res [0..<length res]"

fun bitop_result :: "bit_op \<Rightarrow> string list \<Rightarrow> nat \<Rightarrow> nat list res" where
  "bitop_result BAnd bufs n = Ok (foldl and_bytes (replicate n 255) bufs)"
| "bitop_result BOr bufs n = Ok (foldl (combine_bytes (OR)) (replicate n 0) bufs)"
| "bitop_result BXor bufs n = Ok (foldl (combine_bytes (XOR)) (replicate n 0) bufs)"
| "bitop_result BNot bufs n = (case bufs of
      [buf] \<Rightarrow> Ok (map (\<lambda>i. if i < length buf then byte_not (nth_byte buf i) else 255) [0..<n])
    | _ \<Rightarrow> Err ''BITOP NOT requires one source key'')"

definition store_bitop :: "clock \<Rightarrow> store \<Rightarrow> bit_op \<Rightarrow> string \<Rightarrow> string list \<Rightarrow> store \<times> nat res" where
  "store_bitop c st op dest ks = (case bitop_buffers c st ks of
      Err e \<Rightarrow> (st, Err e)
    | Ok [] \<Rightarrow> (put_key st dest (sv_string []), Ok 0)
    | Ok bufs \<Rightarrow> (case bitop_result op bufs (foldl max 0 (map length bufs)) of
        Err e \<Rightarrow> (st, Err e)
      | Ok res \<Rightarrow> (put_key st dest (sv_string (map char_of res)), Ok (length res))))"

section \<open>The bits of a string\<close>

definition bits_of :: "string \<Rightarrow> bool list" where
  "bits_of s = concat (map (\<lambda>c. map (\<lambda>j. bit (of_char c :: nat) (7 - j)) [0..<8]) s)"

lemma bits_of_simps [simp]:
  "bits_of [] = []" "bits_of (c # s) = map (\<lambda>j. bit (of_char c :: nat) (7 - j)) [0..<8] @ bits_of s"
  "bits_of (s @ t) = bits_of s @ bits_of t"
  by (simp_all add: bits_of_def)

lemma length_bits_of [simp]: "length (bits_of s) = 8 * length s"
  by (induction s) auto

lemma take_bits_of: "take (8 * n) (bits_of s) = bits_of (take n s)"
proof (induction s arbitrary: n)
  case (Cons c s)
  then show ?case by (cases n) (simp_all del: upt_Suc)
qed simp

lemma drop_bits_of: "drop (8 * n) (bits_of s) = bits_of (drop n s)"
proof (induction s arbitrary: n)
  case (Cons c s)
  then show ?case by (cases n) (simp_all del: upt_Suc)
qed simp

lemma nth_bits_of: "i < 8 * length s \<Longrightarrow> bits_of s ! i = bit (nth_byte s (i div 8)) (7 - i mod 8)"
proof (induction s arbitrary: i)
  case (Cons c s)
  show ?case
  proof (cases "i < 8")
    case False
    then have "(i - 8) div 8 = i div 8 - 1" "(i - 8) mod 8 = i mod 8" "0 < i div 8"
      by (simp_all add: le_div_geq le_mod_geq)
    then show ?thesis using Cons.IH [of "i - 8"] Cons.prems False
      by (simp add: nth_append nth_byte_def nth_Cons' del: upt_Suc)
  qed (simp add: nth_append nth_byte_def del: upt_Suc)
qed simp

lemma byte_bit_iff: "byte_bit b i = of_bool (bit b i)"
  by (simp add: byte_bit_def and_one_eq bit_iff_odd_drop_bit mod2_eq_if)

lemma bits_zero [simp]: "bits_of (zero_bytes n) = replicate (8 * n) False"
  by (induction n) (simp_all add: zero_bytes_def replicate_add [symmetric] map_replicate_const)

lemma bits_ensure_len [simp]: "bits_of (ensure_len n s) = bits_of s @ replicate (8 * n - 8 * length s) False"
  by (simp add: ensure_len_def right_diff_distrib')

lemma length_zero_bytes [simp]: "length (zero_bytes n) = n" "length (ensure_len n s) = max n (length s)"
  by (simp_all add: zero_bytes_def ensure_len_def)

lemma nth_byte_less: "nth_byte s i < 256"
  by (simp add: nth_byte_def)

lemma bit_of_bits: "bit_of s i = of_bool (i < 8 * length s \<and> bits_of s ! i)"
  by (cases "i < 8 * length s") (auto simp: bit_of_def byte_bit_iff nth_bits_of less_mult_imp_div_less div_less_iff_less_mult mult.commute)

lemma bit_mod_256: "bit ((b :: nat) mod 256) n = (bit b n \<and> n < 8)"
  using bit_take_bit_iff [of 8 b n] by (auto simp: take_bit_eq_mod)

lemma msb_index [simp]: "7 - i mod 8 < (8 :: nat)" "7 - p mod 8 = 7 - i mod (8 :: nat) \<longleftrightarrow> p mod 8 = i mod 8"
  using mod_less_divisor [of 8 p] mod_less_divisor [of 8 i] by (auto simp del: mod_less_divisor)

lemma bit_255: "bit (255 :: nat) n \<longleftrightarrow> n < 8"
  using bit_mask_iff [of 8 n, where 'a = nat] by (simp add: mask_eq_exp_minus_1)

lemma nth_bits_update:
  assumes "q < length s" "i < 8 * length s"
  shows "bits_of (s[q := char_of (b :: nat)]) ! i = (if i div 8 = q then bit b (7 - i mod 8) else bits_of s ! i)"
  using assms by (simp add: nth_bits_of nth_byte_def nth_list_update bit_mod_256)

lemma bits_set_byte_bit:
  assumes "p < 8 * length s"
  shows "bits_of (set_byte_bit (p div 8) (7 - p mod 8) v s) = (bits_of s)[p := v]"
proof (rule nth_equalityI)
  fix i assume "i < length (bits_of (set_byte_bit (p div 8) (7 - p mod 8) v s))"
  then have i: "i < 8 * length s" by (simp add: set_byte_bit_def)
  have q: "p div 8 < length s" using assms by (simp add: div_less_iff_less_mult mult.commute)
  have same: "p mod 8 = i mod 8 \<longleftrightarrow> p = i" if "i div 8 = p div 8" using that by (metis div_mult_mod_eq)
  show "bits_of (set_byte_bit (p div 8) (7 - p mod 8) v s) ! i = (bits_of s)[p := v] ! i"
  proof (cases "i div 8 = p div 8")
    case True
    then have "7 - p mod 8 = 7 - i mod 8 \<longleftrightarrow> p = i" by (simp only: msb_index same [OF True])
    moreover have "bit (nth_byte s (p div 8) OR push_bit (7 - p mod 8) 1) (7 - i mod 8) \<longleftrightarrow> bit (nth_byte s (p div 8)) (7 - i mod 8) \<or> 7 - p mod 8 = 7 - i mod 8"
      "bit (nth_byte s (p div 8) AND byte_not (push_bit (7 - p mod 8) 1)) (7 - i mod 8) \<longleftrightarrow> bit (nth_byte s (p div 8)) (7 - i mod 8) \<and> 7 - p mod 8 \<noteq> 7 - i mod 8"
      by (auto simp: byte_not_def bit_or_iff bit_and_iff bit_xor_iff bit_255 bit_exp_iff)
    moreover have "bits_of s ! i = bit (nth_byte s (p div 8)) (7 - i mod 8)" using True nth_bits_of [OF i] by (simp only:)
    moreover have "(bits_of s)[p := v] ! i = (if p = i then v else bits_of s ! i)" using assms by (simp add: nth_list_update)
    moreover have "bits_of (set_byte_bit (p div 8) (7 - p mod 8) v s) ! i = (if v then bit (nth_byte s (p div 8) OR push_bit (7 - p mod 8) 1) (7 - i mod 8)
        else bit (nth_byte s (p div 8) AND byte_not (push_bit (7 - p mod 8) 1)) (7 - i mod 8))"
      unfolding set_byte_bit_def nth_bits_update [OF q i] if_P [OF True] by (rule if_distrib [where f = "\<lambda>b. bit b _"])
    ultimately show ?thesis by argo
  next
    case False
    then have "p \<noteq> i" by auto
    then show ?thesis unfolding set_byte_bit_def nth_bits_update [OF q i] using False i by simp
  qed
qed (simp add: set_byte_bit_def)

lemma count_fold: "foldl (\<lambda>n i. if P i then n + 1 else n) m xs = m + length (filter P xs)" for m :: nat
  by (induction xs arbitrary: m) auto

lemma filter_window:
  "hi \<le> length bs \<Longrightarrow> length (filter (\<lambda>i. bs ! i) [lo..<hi]) = length (filter id (drop lo (take hi bs)))"
proof -
  assume "hi \<le> length bs"
  then have "drop lo (take hi bs) = map ((!) bs) [lo..<hi]" by (auto intro!: nth_equalityI)
  then show ?thesis by (simp add: filter_map comp_def)
qed

lemma count_ones_bits: "count_ones (of_char c) = length (filter id (bits_of [c]))"
proof -
  have "filter id (bits_of [c]) = map (\<lambda>j. bit (of_char c :: nat) (7 - j)) (filter (\<lambda>j. bit (of_char c :: nat) (7 - j)) [0..<8])"
    by (simp add: filter_map comp_def del: upt_Suc)
  then show ?thesis by (simp add: count_ones_def upt_rec eval_nat_numeral(2,3))
qed

lemma sum_count_ones: "sum_list (map (\<lambda>b. count_ones (of_char b)) s) = length (filter id (bits_of s))"
proof (induction s)
  case (Cons c s)
  have "bits_of (c # s) = bits_of [c] @ bits_of s" by simp
  then show ?case using Cons by (simp only: list.map sum_list.Cons filter_append length_append count_ones_bits)
qed simp

section \<open>The commands on a list of bits\<close>

datatype bit_cmd = BitSet u64 bool | BitGet u64 | BitCount int int bool | BitPos nat int int bool bool

datatype bit_reply = BRNat "nat res" | BRInt "int res"

fun bit_cmd_exec :: "clock \<Rightarrow> string \<times> bit_cmd \<Rightarrow> store \<Rightarrow> store \<times> bit_reply" where
  "bit_cmd_exec c (k, BitSet p v) st = map_prod id BRNat (store_setbit c st k p v)"
| "bit_cmd_exec c (k, BitGet p) st = map_prod id BRNat (st, (store_getbit c st k p))"
| "bit_cmd_exec c (k, BitCount start fin ub) st = map_prod id BRNat (st, (store_bitcount c st k start fin ub))"
| "bit_cmd_exec c (k, BitPos b start fin he ub) st = map_prod id BRInt (st, (store_bitpos c st k b start fin he ub))"

text \<open>Setting a bit extends the bits to a whole number of bytes that contains it.\<close>

definition bits_set :: "nat \<Rightarrow> bool \<Rightarrow> bool list \<Rightarrow> bool list" where
  "bits_set p v bs = (bs @ replicate (8 * (p div 8 + 1) - length bs) False)[p := v]"

definition bits_get :: "nat \<Rightarrow> bool list \<Rightarrow> nat" where
  "bits_get p bs = of_bool (p < length bs \<and> bs ! p)"

text \<open>The half-open window of bits that a range of bits or of bytes denotes.\<close>

definition bits_window :: "int \<Rightarrow> int \<Rightarrow> bool \<Rightarrow> bool list \<Rightarrow> nat \<times> nat" where
  "bits_window start fin use_bit bs =
     (if use_bit then (normalize_bit_index start (length bs), normalize_bit_index fin (length bs) + 1)
      else (8 * byte_start start (length bs div 8), 8 * (byte_stop fin (length bs div 8) + 1)))"

definition bits_count :: "int \<Rightarrow> int \<Rightarrow> bool \<Rightarrow> bool list \<Rightarrow> nat" where
  "bits_count start fin use_bit bs = (if bs = [] then 0
     else let (lo, hi) = bits_window start fin use_bit bs in length (filter id (drop lo (take hi bs))))"

definition bits_pos :: "nat \<Rightarrow> int \<Rightarrow> int \<Rightarrow> bool \<Rightarrow> bool \<Rightarrow> bool list \<Rightarrow> int" where
  "bits_pos b start fin has_end use_bit bs = (if bs = [] then (if b = 0 then 0 else - 1)
     else let (lo, hi) = bits_window start (if has_end \<or> use_bit \<or> fin < 0 then fin else int (length bs)) use_bit bs
       in case find (\<lambda>i. of_bool (bs ! i) = b) [lo..<hi] of Some i \<Rightarrow> int i
          | None \<Rightarrow> if lo < hi \<and> b = 0 \<and> \<not> has_end \<and> \<not> use_bit then int (length bs) else - 1)"

fun bit_here :: "bit_cmd \<Rightarrow> bool list \<Rightarrow> bool list \<times> bit_reply" where
  "bit_here (BitSet p v) bs = (bits_set (unat p) v bs, BRNat (Ok (bits_get (unat p) bs)))"
| "bit_here (BitGet p) bs = (bs, BRNat (Ok (bits_get (unat p) bs)))"
| "bit_here (BitCount start fin ub) bs = (bs, BRNat (Ok (bits_count start fin ub bs)))"
| "bit_here (BitPos b start fin he ub) bs = (bs, BRInt (Ok (bits_pos b start fin he ub bs)))"

text \<open>A missing key is a string of no bits, which only setting a bit stores.\<close>

fun bit_absent :: "bit_cmd \<Rightarrow> bool list option \<times> bit_reply" where
  "bit_absent (BitSet p v) = (Some (bits_set (unat p) v []), BRNat (Ok 0))"
| "bit_absent cmd = (None, snd (bit_here cmd []))"

fun bit_other :: "bit_cmd \<Rightarrow> bit_reply" where
  "bit_other (BitPos b start fin he ub) = BRInt (Err WRONGTYPE)"
| "bit_other _ = BRNat (Err WRONGTYPE)"

definition bit_cmd_spec :: "string \<times> bit_cmd \<Rightarrow> (string \<Rightarrow> bool list cell) \<Rightarrow> (string \<Rightarrow> bool list cell) \<times> bit_reply" where
  "bit_cmd_spec = cell_spec (bit_absent, bit_here, bit_other)"

definition bit_cells :: "clock \<Rightarrow> store \<Rightarrow> string \<Rightarrow> bool list cell" where
  "bit_cells = cells as_string bits_of"

lemma normalize_bit_index_less: "0 < n \<Longrightarrow> normalize_bit_index i n < n"
  by (auto simp: normalize_bit_index_def)

lemma byte_stop_less: "0 < n \<Longrightarrow> byte_stop i n < n"
  by (auto simp: byte_stop_def)

lemma bit_count_ok: "bit_count start fin ub s = bits_count start fin ub (bits_of s)"
proof (cases "s = []")
  case False
  then have len: "0 < length s" "bits_of s \<noteq> []" by (auto simp flip: length_greater_0_conv)
  show ?thesis
  proof (cases ub)
    case True
    let ?lo = "normalize_bit_index start (length s * 8)" and ?hi = "normalize_bit_index fin (length s * 8) + 1"
    have hi: "?hi \<le> length (bits_of s)" using normalize_bit_index_less [of "length s * 8" fin] len by simp
    then have "length (filter (\<lambda>i. bit_of s i = 1) [?lo..<?hi]) = length (filter (\<lambda>i. bits_of s ! i) [?lo..<?hi])"
      by (intro arg_cong [of _ _ length] filter_cong) (auto simp: bit_of_bits)
    then show ?thesis using True False len filter_window [OF hi, of ?lo]
      by (simp add: bit_count_def bits_count_def bits_window_def count_fold Let_def mult.commute del: upt_Suc)
  next
    case ub: False
    have "take (byte_stop fin (length s) + 1 - byte_start start (length s)) (drop (byte_start start (length s)) s)
      = drop (byte_start start (length s)) (take (byte_stop fin (length s) + 1) s)" by (simp add: drop_take)
    moreover have "drop (8 * byte_start start (length s)) (take (8 * (byte_stop fin (length s) + 1)) (bits_of s))
      = bits_of (drop (byte_start start (length s)) (take (byte_stop fin (length s) + 1) s))"
      by (simp only: take_bits_of drop_bits_of)
    ultimately show ?thesis using ub False len
      by (simp add: bit_count_def bits_count_def bits_window_def Let_def sum_count_ones del: mult_Suc_right)
  qed
qed (simp add: bit_count_def bits_count_def)

lemma find_map': "find P (map f xs) = map_option f (find (P \<circ> f) xs)"
  by (induction xs) auto

lemma find_append': "find P (xs @ ys) = (case find P xs of None \<Rightarrow> find P ys | Some x \<Rightarrow> Some x)"
  by (induction xs) auto

lemma byte_search_ok:
  assumes "hi \<le> length s"
  shows "byte_search s b [lo..<hi] = find (\<lambda>i. of_bool (bits_of s ! i) = b) [8 * lo..<8 * hi]"
  using assms
proof (induction "hi - lo" arbitrary: lo)
  case (Suc n)
  then have lo: "lo < hi" by simp
  have block: "[8 * lo..<8 * lo + 8] = map (\<lambda>j. lo * 8 + (7 - j)) (rev [0..<8])"
    by (rule nth_equalityI) (simp_all add: rev_nth)
  have nth: "bits_of s ! (lo * 8 + (7 - j)) = bit (nth_byte s lo) j" if "j < 8" for j
  proof -
    have "(lo * 8 + (7 - j)) div 8 = lo" "7 - (lo * 8 + (7 - j)) mod 8 = j"
      using that div_mult_self3 [of 8 lo "7 - j"] by (simp_all add: div_add1_eq [of "lo * 8"] del: Nat.add_diff_assoc)
    then show ?thesis using nth_bits_of [of "lo * 8 + (7 - j)" s] lo Suc.prems that by simp
  qed
  have "find (\<lambda>i. of_bool (bits_of s ! i) = b) [8 * lo..<8 * lo + 8]
      = map_option (\<lambda>j. lo * 8 + (7 - j)) (find (\<lambda>j. byte_bit (nth_byte s lo) j = b) (rev [0..<8]))"
    unfolding block find_map' using lo Suc.prems
    by (intro arg_cong [where f = "map_option _"] find_cong) (auto simp: byte_bit_iff nth simp del: upt_Suc Nat.add_diff_assoc)
  moreover have "[8 * lo..<8 * hi] = [8 * lo..<8 * lo + 8] @ [8 * Suc lo..<8 * hi]"
    using lo upt_add_eq_append [of "8 * lo" "8 * lo + 8" "8 * hi - (8 * lo + 8)"] by (simp add: add.commute)
  moreover have "[lo..<hi] = lo # [Suc lo..<hi]" using lo by (rule upt_conv_Cons)
  ultimately show ?case using Suc.hyps(1) [of "Suc lo"] Suc.hyps(2) Suc.prems
    by (simp add: find_append' split: option.split del: upt_Suc)
qed simp


lemma bit_pos_ok: "bit_pos b start fin he ub s = bits_pos b start fin he ub (bits_of s)"
proof (cases "s = []")
  case False
  then have len: "0 < length s" "bits_of s \<noteq> []" by (auto simp flip: length_greater_0_conv)
  show ?thesis
  proof (cases ub)
    case True
    let ?lo = "normalize_bit_index start (length s * 8)" and ?hi = "normalize_bit_index fin (length s * 8) + 1"
    have hi: "?hi \<le> length (bits_of s)" using normalize_bit_index_less [of "length s * 8" fin] len by simp
    then have "find (\<lambda>i. bit_of s i = b) [?lo..<?hi] = find (\<lambda>i. of_bool (bits_of s ! i) = b) [?lo..<?hi]"
      by (intro find_cong) (auto simp: bit_of_bits)
    then show ?thesis using True False len
      by (simp add: bit_pos_def bits_pos_def bits_window_def Let_def mult.commute del: upt_Suc)
  next
    case ub: False
    define fin' where "fin' = (if he \<or> fin < 0 then fin else int (8 * length s))"
    let ?lo = "byte_start start (length s)" and ?e = "byte_stop fin' (length s)"
    have e: "(if fin < 0 then nat (max (int (length s) + fin) 0) else if he then nat (min fin (int (length s) - 1)) else length s - 1) = ?e"
      using len by (auto simp: fin'_def byte_stop_def min_def nat_diff_distrib)
    have "?e + 1 \<le> length s" using byte_stop_less [of "length s" fin'] len by simp
    from byte_search_ok [OF this, of b ?lo] this
    have "byte_search s b [?lo..<min (?e + 1) (length s)] = find (\<lambda>i. of_bool (bits_of s ! i) = b) [8 * ?lo..<8 * (?e + 1)]"
      by (simp only: min_absorb1)
    moreover have "8 * ?lo < 8 * (?e + 1) \<longleftrightarrow> \<not> ?lo > ?e" by (simp only: mult_less_cancel1) auto
    moreover have "bits_window start (if he \<or> ub \<or> fin < 0 then fin else int (length (bits_of s))) ub (bits_of s) = (8 * ?lo, 8 * (?e + 1))"
      using ub by (simp add: bits_window_def fin'_def)
    ultimately show ?thesis using False ub len(2) unfolding bit_pos_def bits_pos_def Let_def e
      by (simp split: option.split del: upt_Suc mult_Suc_right)
  qed
qed (simp add: bit_pos_def bits_pos_def)

interpretation bit_view: typed_view as_string FString bits_of "\<lambda>_. True" ..

abbreviation bit_inv :: "clock \<Rightarrow> store \<Rightarrow> bool" where
  "bit_inv \<equiv> kind_inv as_string (\<lambda>_. True)"

lemma unat_8: "unat (p div 8) = unat p div 8" "unat (p mod 8) = unat p mod 8" for p :: u64
  by (simp_all add: unat_div unat_mod)

lemma replicate_update: "(replicate n x)[i := x] = replicate n x"
  by (cases "i < n") (simp_all add: list_update_same_conv list_update_beyond)

lemma setbit_bits:
  "bits_of (set_byte_bit (p div 8) (7 - p mod 8) v (ensure_len (p div 8 + 1) s)) = bits_set p v (bits_of s)"
  "byte_bit (nth_byte (ensure_len (p div 8 + 1) s) (p div 8)) (7 - p mod 8) = bits_get p (bits_of s)"
proof -
  have p: "p < 8 * (p div 8 + 1)" by simp
  then have p': "p < 8 * length (ensure_len (p div 8 + 1) s)" by (simp add: max_def)
  show "bits_of (set_byte_bit (p div 8) (7 - p mod 8) v (ensure_len (p div 8 + 1) s)) = bits_set p v (bits_of s)"
    by (subst bits_set_byte_bit [OF p']) (simp add: bits_set_def)
  have "byte_bit (nth_byte (ensure_len (p div 8 + 1) s) (p div 8)) (7 - p mod 8) = of_bool (bits_of (ensure_len (p div 8 + 1) s) ! p)"
    using nth_bits_of [OF p'] by (simp add: byte_bit_iff)
  also have "\<dots> = bits_get p (bits_of s)" using p by (auto simp: bits_get_def nth_append)
  finally show "byte_bit (nth_byte (ensure_len (p div 8 + 1) s) (p div 8)) (7 - p mod 8) = bits_get p (bits_of s)" .
qed

lemma bit_step:
  assumes inv: "bit_inv c st"
  shows "cell_step as_string bits_of (\<lambda>_. True) c st k (bit_absent cmd) (bit_here cmd) (bit_other cmd) (bit_cmd_exec c (k, cmd) st)"
proof (cases cmd)
  note rd = bit_view.read_step(1) [OF inv]
  {
    case (BitSet p v)
    have new: "bits_of (if v then set_byte_bit (unat p div 8) (7 - unat p mod 8) True (zero_bytes (unat p div 8 + 1)) else zero_bytes (unat p div 8 + 1))
        = bits_set (unat p) v []"
      using setbit_bits(1) [of "unat p" v "[]"] by (auto simp: ensure_len_def bits_set_def replicate_update)
    show ?thesis unfolding BitSet bit_cmd_exec.simps store_setbit_def Let_def unat_8 sv_string_def
      by (rule cell_step_reply [where R = BRNat and here = "\<lambda>bs. (bits_set (unat p) v bs, Ok (bits_get (unat p) bs))", OF bit_view.upsert_step [OF inv TrueI new]])
        (simp_all add: setbit_bits del: One_nat_def)
  next
    case (BitGet p)
    have "(if length s \<le> unat p div 8 then Ok 0 else Ok (byte_bit (nth_byte s (unat p div 8)) (7 - unat p mod 8))) = Ok (bits_get (unat p) (bits_of s))" for s
      using bit_of_bits [of s "unat p"] by (auto simp: bit_of_def bits_get_def)
    then show ?thesis unfolding BitGet bit_cmd_exec.simps store_getbit_def Let_def unat_8
      by (intro cell_step_reply [OF rd [where g = "\<lambda>bs. Ok (bits_get (unat p) bs)"]]) (simp_all add: bits_get_def)
  next
    case (BitCount start fin ub)
    show ?thesis unfolding BitCount bit_cmd_exec.simps store_bitcount_def
      by (rule cell_step_reply [OF rd [where g = "\<lambda>bs. Ok (bits_count start fin ub bs)"]]) (simp_all add: bit_count_ok bits_count_def)
  next
    case (BitPos b start fin he ub)
    show ?thesis unfolding BitPos bit_cmd_exec.simps store_bitpos_def
      by (rule cell_step_reply [OF rd [where g = "\<lambda>bs. Ok (bits_pos b start fin he ub bs)"]]) (simp_all add: bit_pos_ok bits_pos_def)
  }
qed

interpretation bit_sim: simulation "bit_inv c" "bit_cells c" "bit_cmd_exec c" bit_cmd_spec for c
  unfolding bit_cells_def bit_cmd_spec_def by (rule bit_view.simulation_of_steps) (rule bit_step)

section \<open>Bitwise operations\<close>

lemma bytes_nth:
  "length buf \<le> length res \<Longrightarrow> q < length res \<Longrightarrow> combine_bytes f res buf ! q = (if q < length buf then f (res ! q) (nth_byte buf q) else res ! q)"
  "q < length res \<Longrightarrow> and_bytes res buf ! q = res ! q AND (if q < length buf then nth_byte buf q else 0)"
  "length buf \<le> length res \<Longrightarrow> length (combine_bytes f res buf) = length res" "length (and_bytes res buf) = length res"
  using foldl_update_nth [of "length buf" res "\<lambda>b i. f b (nth_byte buf i)"]
    foldl_update_nth [of "length res" res "\<lambda>b i. b AND (if i < length buf then nth_byte buf i else 0)"]
  by (simp_all add: combine_bytes_def and_bytes_def)

definition has_bit :: "nat \<Rightarrow> nat \<Rightarrow> string \<Rightarrow> bool" where
  "has_bit q j buf \<longleftrightarrow> q < length buf \<and> bit (nth_byte buf q) j"

lemma bitop_folds:
  assumes "\<forall>buf\<in>set bufs. length buf \<le> length res" and "q < length res"
  shows "bit (foldl (combine_bytes (OR)) res bufs ! q) j \<longleftrightarrow> bit (res ! q) j \<or> (\<exists>buf\<in>set bufs. has_bit q j buf)"
    and "bit (foldl (combine_bytes (XOR)) res bufs ! q) j \<longleftrightarrow> (bit (res ! q) j \<noteq> odd (length (filter (has_bit q j) bufs)))"
    and "bit (foldl and_bytes res bufs ! q) j \<longleftrightarrow> bit (res ! q) j \<and> (\<forall>buf\<in>set bufs. has_bit q j buf)"
proof -
  show "bit (foldl (combine_bytes (OR)) res bufs ! q) j \<longleftrightarrow> bit (res ! q) j \<or> (\<exists>buf\<in>set bufs. has_bit q j buf)"
    using assms by (induction bufs arbitrary: res) (auto simp: bytes_nth has_bit_def bit_or_iff)
  show "bit (foldl (combine_bytes (XOR)) res bufs ! q) j \<longleftrightarrow> (bit (res ! q) j \<noteq> odd (length (filter (has_bit q j) bufs)))"
    using assms by (induction bufs arbitrary: res) (auto simp: bytes_nth has_bit_def bit_xor_iff)
  show "bit (foldl and_bytes res bufs ! q) j \<longleftrightarrow> bit (res ! q) j \<and> (\<forall>buf\<in>set bufs. has_bit q j buf)"
    using assms by (induction bufs arbitrary: res) (auto simp: bytes_nth has_bit_def bit_and_iff)
qed

lemma bitop_lengths:
  "\<forall>buf\<in>set bufs. length buf \<le> length res \<Longrightarrow> length (foldl (combine_bytes f) res bufs) = length res" "length (foldl and_bytes res bufs) = length res"
  by (induction bufs arbitrary: res) (auto simp: bytes_nth)

lemma foldl_max: "foldl max m ns = Max (set (m # ns))" for m :: nat
  unfolding Max.set_eq_fold foldl_conv_fold by (simp add: max.commute)

text \<open>The string at a key, empty for a missing key.\<close>

definition string_at :: "clock \<Rightarrow> store \<Rightarrow> string \<Rightarrow> string" where
  "string_at c st k = (case live c st k of Some (FString s) \<Rightarrow> s | _ \<Rightarrow> [])"

definition string_or_absent :: "clock \<Rightarrow> store \<Rightarrow> string \<Rightarrow> bool" where
  "string_or_absent c st k = (case live c st k of Some v \<Rightarrow> as_string v \<noteq> None | None \<Rightarrow> True)"

lemma bitop_buffers_ok:
  "store_ok st \<Longrightarrow> \<forall>k\<in>set ks. string_or_absent c st k \<Longrightarrow> bitop_buffers c st ks = Ok (map (string_at c st) ks)"
  by (induction ks) (auto simp: read_value_live string_or_absent_def string_at_def as_string_def split: option.splits fyrodb.splits)

definition string_bit :: "nat \<Rightarrow> string \<Rightarrow> bool" where
  "string_bit i s \<longleftrightarrow> i < length (bits_of s) \<and> bits_of s ! i"

lemma string_bit_has: "string_bit i s = has_bit (i div 8) (7 - i mod 8) s"
  by (auto simp: string_bit_def has_bit_def nth_bits_of)

lemma string_bit_bytes: "string_bit i (map char_of res) \<longleftrightarrow> i div 8 < length res \<and> bit (res ! (i div 8)) (7 - i mod 8)" for res :: "nat list"
  by (auto simp: string_bit_has has_bit_def nth_byte_def bit_mod_256)

text \<open>The bit that an operation makes of the bits of its operands.\<close>

fun bit_op_spec :: "bit_op \<Rightarrow> bool list \<Rightarrow> bool" where
  "bit_op_spec BAnd bs = (\<forall>b\<in>set bs. b)"
| "bit_op_spec BOr bs = (\<exists>b\<in>set bs. b)"
| "bit_op_spec BXor bs = odd (length (filter id bs))"
| "bit_op_spec BNot bs = (\<not> hd bs)"

lemma bitop_result_ok:
  assumes "bufs \<noteq> []" and "op = BNot \<Longrightarrow> length bufs = 1" and le: "\<forall>buf\<in>set bufs. length buf \<le> n"
  obtains res where "bitop_result op bufs n = Ok res" "length res = n"
    "\<And>i. i < 8 * n \<Longrightarrow> string_bit i (map char_of res) = bit_op_spec op (map (string_bit i) bufs)"
proof (cases op)
  case BNot
  then obtain buf where b: "bufs = [buf]" using assms(2) by (cases bufs) auto
  have "string_bit i (map char_of (map (\<lambda>i. if i < length buf then byte_not (nth_byte buf i) else 255) [0..<n])) = (\<not> string_bit i buf)" if "i < 8 * n" for i
    using that unfolding string_bit_bytes by (auto simp: string_bit_has has_bit_def byte_not_def bit_xor_iff bit_255)
  then show ?thesis using that [of "map (\<lambda>i. if i < length buf then byte_not (nth_byte buf i) else 255) [0..<n]"] BNot b by simp
next
  case BAnd
  have "string_bit i (map char_of (foldl and_bytes (replicate n 255) bufs)) = (\<forall>b\<in>set bufs. string_bit i b)" if "i < 8 * n" for i
    using that le bitop_folds(3) [of bufs "replicate n 255" "i div 8"] unfolding string_bit_bytes by (auto simp: string_bit_has bit_255 bitop_lengths)
  then show ?thesis using that [of "foldl and_bytes (replicate n 255) bufs"] BAnd le by (simp add: bitop_lengths)
next
  case BOr
  have "string_bit i (map char_of (foldl (combine_bytes (OR)) (replicate n 0) bufs)) = (\<exists>b\<in>set bufs. string_bit i b)" if "i < 8 * n" for i
    using that le bitop_folds(1) [of bufs "replicate n 0" "i div 8"] unfolding string_bit_bytes by (auto simp: string_bit_has bitop_lengths)
  then show ?thesis using that [of "foldl (combine_bytes (OR)) (replicate n 0) bufs"] BOr le by (simp add: bitop_lengths)
next
  case BXor
  have "string_bit i (map char_of (foldl (combine_bytes (XOR)) (replicate n 0) bufs)) = odd (length (filter id (map (string_bit i) bufs)))" if "i < 8 * n" for i
    using that le bitop_folds(2) [of bufs "replicate n 0" "i div 8"] unfolding string_bit_bytes by (auto simp: string_bit_has filter_map comp_def bitop_lengths)
  then show ?thesis using that [of "foldl (combine_bytes (XOR)) (replicate n 0) bufs"] BXor le by (simp add: bitop_lengths)
qed

section \<open>Properties\<close>

text \<open>C10: any sequence of the bitmap commands on single keys replies what the specification on lists of
  bits replies: \<open>SETBIT\<close> extends with zero bytes, sets the bit and replies the old one, \<open>BITCOUNT\<close> counts
  and \<open>BITPOS\<close> finds the first bit within the window of bits or bytes, and other kinds of value are
  errors.\<close>

theorem bitmap_commands_refine:
  assumes "store_ok st" and "fresh c st"
  shows "snd (run (bit_cmd_exec c) ops st) = snd (run bit_cmd_spec ops (bit_cells c st))"
  using bit_sim.run_results [of c st ops] assms by (simp add: kind_inv_def)

theorem bitmap_commands_refine_witness:
  "snd (run (bit_cmd_exec \<lparr>unix_ms_cache = 0, system_ms = 2, instant_ns = 0\<rparr>)
      [(''b'', BitSet 7 True), (''b'', BitSet 9 True), (''b'', BitGet 7), (''b'', BitCount 0 (- 1) False), (''b'', BitPos 1 1 (- 1) False False)]
      (store_with_config (\<lambda>_. 3) 2 10))
    = [BRNat (Ok 0), BRNat (Ok 0), BRNat (Ok 1), BRNat (Ok 2), BRInt (Ok 9)]"
proof -
  have "replicate 8 False = [False, False, False, False, False, False, False, False]" by code_simp
  then show ?thesis unfolding bitmap_commands_refine [OF store_with_config_ok(1) fresh_new]
    by (simp add: bit_cmd_spec_def cell_spec_def bit_cells_def bits_set_def bits_get_def bits_count_def bits_pos_def bits_window_def
        byte_start_def byte_stop_def)
qed

text \<open>C25: \<open>BITOP\<close> over keys that hold strings or nothing stores at the destination a string as long as
  the longest operand whose bits are the conjunction, disjunction, parity or negation of the bits of
  the operands, shorter ones extended with zeros, and replies its length; no other key changes.\<close>

theorem bitop_bitwise:
  assumes ok: "store_ok st" and keys: "\<forall>k\<in>set ks. string_or_absent c st k" and ne: "ks \<noteq> []" and arity: "op = BNot \<Longrightarrow> length ks = 1"
  shows "\<exists>st' r. store_bitop c st op dest ks = (st', Ok (length r)) \<and> length r = Max (length ` string_at c st ` set ks)
    \<and> live c st' = (live c st)(dest \<mapsto> FString r)
    \<and> (\<forall>i < 8 * length r. string_bit i r = bit_op_spec op (map (string_bit i \<circ> string_at c st) ks))"
proof -
  let ?bufs = "map (string_at c st) ks"
  define n where "n = foldl max 0 (map length ?bufs)"
  have n: "n = Max (length ` string_at c st ` set ks)" using ne by (simp add: n_def foldl_max image_image Max_insert)
  have le: "\<forall>buf\<in>set ?bufs. length buf \<le> n" by (simp add: n image_image)
  obtain res where res: "bitop_result op ?bufs n = Ok res" "length res = n"
    "\<And>i. i < 8 * n \<Longrightarrow> string_bit i (map char_of res) = bit_op_spec op (map (string_bit i) ?bufs)"
    using bitop_result_ok [of ?bufs op n] ne arity le by auto
  have "store_bitop c st op dest ks = (put_key st dest (sv_string (map char_of res)), Ok n)"
    using res ne bitop_buffers_ok [OF ok keys] by (cases ks) (simp_all add: store_bitop_def n_def)
  moreover have "live c (put_key st dest (sv_string (map char_of res))) = (live c st)(dest \<mapsto> FString (map char_of res))"
    by (simp add: live_put_key [OF ok] sv_string_def)
  ultimately show ?thesis using res(2,3) n by (intro exI [of _ "put_key st dest (sv_string (map char_of res))"] exI [of _ "map char_of res"]) simp
qed

theorem bitop_bitwise_witness:
  "snd (store_bitop \<lparr>unix_ms_cache = 0, system_ms = 2, instant_ns = 0\<rparr>
      (put_key (store_with_config (\<lambda>_. 3) 2 10) ''a'' (sv_plain (FString ''xy''))) BOr ''d'' [''a'', ''b'']) = Ok 2"
proof -
  let ?c = "\<lparr>unix_ms_cache = 0, system_ms = 2, instant_ns = 0\<rparr>"
  define st where "st = put_key (store_with_config (\<lambda>_. 3) 2 10) ''a'' (sv_plain (FString ''xy''))"
  have "store_ok st" "\<forall>k\<in>set [''a'', ''b'']. string_or_absent ?c st k" "string_at ?c st ''a'' = ''xy''" "string_at ?c st ''b'' = []"
    by (simp_all add: st_def put_key_laws live_def string_or_absent_def string_at_def as_string_def)
  then show ?thesis using bitop_bitwise [of st "[''a'', ''b'']" ?c BOr "''d''"] by (auto simp: st_def)
qed

text \<open>A range of bits that starts past the end is moved to the last bit: \<open>BITCOUNT\<close> of bits 100 to 200 of
  a one-byte string counts its last bit.\<close>

lemma bitcount_past_end: "bit_count 100 200 True [char_of (1 :: nat)] = 1"
  by code_simp

end
