(* ===== verification/F64_Math.thy ===== *)
theory F64_Math
  imports F64_Text
begin

text \<open>
  The rest of the floating-point operations the program uses: division and square root, which are
  exactly rounded, rounding to an integer and the saturating conversion to an unsigned integer.  The
  precision of the transcendental functions and of \<open>powi\<close> is unspecified in the standard library, so
  they are the fields of a record that the operations which use them take as an argument.
\<close>

record float_math =
  m_ln :: "f64 \<Rightarrow> f64"
  m_sin :: "f64 \<Rightarrow> f64"
  m_cos :: "f64 \<Rightarrow> f64"
  m_asin :: "f64 \<Rightarrow> f64"
  m_powi :: "f64 \<Rightarrow> int \<Rightarrow> f64"

text \<open>The quotient with three extra bits, the last of which stands for a remainder.\<close>

definition f_div :: "f64 \<Rightarrow> f64 \<Rightarrow> f64" where
  "f_div x y = (let neg = (f_neg x \<noteq> f_neg y); a = f_magnitude x * 2 ^ 1074 * 4; b = f_magnitude y in
      if f_is_nan x \<or> f_is_nan y then f_nan
      else if f_is_infinite x then (if f_is_infinite y then f_nan else f_make neg f_inf_bits)
      else if f_is_infinite y then f_make neg 0
      else if b = 0 then (if f_magnitude x = 0 then f_nan else f_make neg f_inf_bits)
      else f_round neg (a div b * 2 + (if a mod b = 0 then 0 else 1)) 3)"

function isqrt :: "nat \<Rightarrow> nat" where
  "isqrt n = (if n = 0 then 0 else let r = 2 * isqrt (n div 4) in if (r + 1) * (r + 1) \<le> n then r + 1 else r)"
  by auto
termination by (relation "measure id") auto

declare isqrt.simps [simp del]

definition f_sqrt :: "f64 \<Rightarrow> f64" where
  "f_sqrt x = (if f_is_nan x then f_nan
     else if f_magnitude x = 0 then x
     else if f_neg x then f_nan
     else if f_is_infinite x then x
     else let n = f_magnitude x * 2 ^ 1074 * 16; r = isqrt n in f_round False (r * 2 + (if r * r = n then 0 else 1)) 3)"

text \<open>\<open>f64::round\<close>, halves away from zero, and \<open>as u64\<close>, which saturates and takes NaN to zero.\<close>

definition f_round_int :: "f64 \<Rightarrow> f64" where
  "f_round_int x = (if f_is_nan x \<or> f_is_infinite x then x
     else f_round (f_neg x) ((2 * f_magnitude x + 2 ^ 1074) div 2 ^ 1075 * 2 ^ 1074) 0)"

definition f_to_u64 :: "f64 \<Rightarrow> u64" where
  "f_to_u64 x = (if f_is_nan x \<or> f_neg x then 0
     else if f_is_infinite x then - 1 else of_nat (min (f_magnitude x div 2 ^ 1074) (2 ^ 64 - 1)))"

text \<open>The integer square root is the largest number whose square does not exceed its argument.\<close>

lemma isqrt_square: "isqrt n * isqrt n \<le> n \<and> n < (isqrt n + 1) * (isqrt n + 1)"
proof (induction n rule: isqrt.induct)
  case (1 n)
  show ?case
  proof (cases "n = 0")
    case False
    let ?q = "isqrt (n div 4)"
    have "?q * ?q \<le> n div 4" "n div 4 < (?q + 1) * (?q + 1)" using 1 False by simp_all
    then have "4 * (?q * ?q) \<le> n" "n < 4 * ((?q + 1) * (?q + 1))" by linarith+
    then show ?thesis using False by (subst (1 2 3 4) isqrt.simps) (auto simp: Let_def algebra_simps)
  qed (simp add: isqrt.simps)
qed

end
