(* ===== verification/Store_Hll.thy ===== *)
theory Store_Hll
  imports Typed_Store F64_Math
begin

text \<open>
  HyperLogLog counters (\<open>src/src/storage/hll.rs\<close>), kept as strings: the registers, the hash, the
  estimate and the three commands.  The registers of a counter are the pointwise maximum of what its
  elements contribute, so adding is idempotent and independent of the order, and merging is the
  union.
\<close>

section \<open>Registers\<close>

definition HLL_REGISTERS :: nat where "HLL_REGISTERS = 16384"

type_synonym hll = "nat list"

definition hll_new :: hll where "hll_new = replicate HLL_REGISTERS 0"

definition hll_hash :: "string \<Rightarrow> u64" where
  "hll_hash s = (let h = foldl (\<lambda>h c. (h XOR of_nat (of_char c)) * 0x100000001b3) 0xcbf29ce484222325 s;
       h = h XOR drop_bit 33 h; h = h * 0xff51afd7ed558ccd;
       h = h XOR drop_bit 33 h; h = h * 0xc4ceb9fe1a85ec53
     in h XOR drop_bit 33 h)"

text \<open>The loop shifts at most fifty times.\<close>

fun zeros_loop :: "nat \<Rightarrow> u64 \<Rightarrow> nat \<Rightarrow> nat" where
  "zeros_loop 0 w n = n"
| "zeros_loop (Suc fuel) w n = (if w AND 1 = 0 \<and> n < 50 then zeros_loop fuel (drop_bit 1 w) (n + 1) else n)"

definition leading_zeros_after :: "u64 \<Rightarrow> nat" where
  "leading_zeros_after w = (if w = 0 then 50 else zeros_loop 50 w 0)"

definition hll_index :: "string \<Rightarrow> nat" where
  "hll_index x = unat (hll_hash x AND 0x3FFF)"

definition hll_rho :: "string \<Rightarrow> nat" where
  "hll_rho x = leading_zeros_after (drop_bit 14 (hll_hash x)) + 1"

definition hll_add :: "hll \<Rightarrow> string \<Rightarrow> hll \<times> bool" where
  "hll_add h x = (let idx = hll_index x; rho = hll_rho x in
     if rho > h ! idx then (h[idx := rho], True) else (h, False))"

definition f_dec :: "nat \<Rightarrow> int \<Rightarrow> f64" where
  "f_dec m e = f_of_decimal False m e"

text \<open>Without overflow checks the shift uses the register modulo sixty-four.\<close>

definition hll_count :: "float_math \<Rightarrow> hll \<Rightarrow> u64" where
  "hll_count fm h =
     (let (total, zeros) = foldl (\<lambda>(total, zeros) reg.
            (f_add total (f_div (f_of_nat 1) (f_of_nat (2 ^ (reg mod 64)))), if reg = 0 then zeros + 1 else zeros)) (f_zero, 0 :: nat) h;
          m = f_of_nat HLL_REGISTERS;
          alpha = f_div (f_dec 7213 (- 4)) (f_add (f_of_nat 1) (f_div (f_dec 1079 (- 3)) m));
          raw = f_div (f_mul (f_mul alpha m) m) total;
          estimate = (if f_le raw (f_mul (f_dec 25 (- 1)) m) \<and> zeros > 0 then f_mul m (m_ln fm (f_div m (f_of_nat zeros))) else raw)
      in f_to_u64 (f_round_int estimate))"

definition hll_merge :: "hll \<Rightarrow> hll \<Rightarrow> hll" where
  "hll_merge h other = foldl (\<lambda>h i. if other ! i > h ! i then h[i := other ! i] else h) h [0..<HLL_REGISTERS]"

definition HLL_MAGIC :: string where "HLL_MAGIC = ''HLL'' @ [char_of (1 :: nat)]"

definition encode_hll :: "hll \<Rightarrow> string" where
  "encode_hll h = HLL_MAGIC @ map char_of h"

definition decode_hll :: "string \<Rightarrow> hll" where
  "decode_hll s = (if 4 + HLL_REGISTERS \<le> length s \<and> take 4 s = HLL_MAGIC
     then map of_char (take HLL_REGISTERS (drop 4 s)) else hll_new)"

section \<open>The commands\<close>

definition add_all :: "string list \<Rightarrow> hll \<Rightarrow> hll \<times> bool" where
  "add_all xs h = foldl (\<lambda>(h, changed) x. let (h', b) = hll_add h x in (h', if b then True else changed)) (h, False) xs"

definition store_pfadd :: "clock \<Rightarrow> store \<Rightarrow> string \<Rightarrow> string list \<Rightarrow> store \<times> bool res" where
  "store_pfadd c st k xs = (let (h, changed) = add_all xs hll_new; new = encode_hll h in
     upsert st k (on_value c as_string FString (renew (FString new) (Ok changed))
         (\<lambda>s. let (h, changed) = add_all xs (decode_hll s) in (if changed then encode_hll h else s, Ok changed)))
       (sv_string new) (Ok changed))"

fun merge_keys :: "clock \<Rightarrow> store \<Rightarrow> string list \<Rightarrow> hll \<Rightarrow> hll res" where
  "merge_keys c st [] h = Ok h"
| "merge_keys c st (k # ks) h = (case read_value c as_string st k (Ok h) (\<lambda>s. Ok (hll_merge h (decode_hll s))) of
      Err e \<Rightarrow> Err e | Ok h' \<Rightarrow> merge_keys c st ks h')"

definition store_pfcount :: "float_math \<Rightarrow> clock \<Rightarrow> store \<Rightarrow> string list \<Rightarrow> u64 res" where
  "store_pfcount fm c st ks = (case ks of
      [k] \<Rightarrow> read_value c as_string st k (Ok 0) (\<lambda>s. Ok (hll_count fm (decode_hll s)))
    | _ \<Rightarrow> map_sum id (hll_count fm) (merge_keys c st ks hll_new))"

definition store_pfmerge :: "clock \<Rightarrow> store \<Rightarrow> string \<Rightarrow> string list \<Rightarrow> store \<times> unit res" where
  "store_pfmerge c st dest ks = (case merge_keys c st ks hll_new of
      Err e \<Rightarrow> (st, Err e) | Ok h \<Rightarrow> (put_key st dest (sv_string (encode_hll h)), Ok ()))"

section \<open>Registers as maxima\<close>

text \<open>What a list of elements contributes to a register.\<close>

definition contribution :: "string set \<Rightarrow> nat \<Rightarrow> nat" where
  "contribution X i = Max (insert 0 (hll_rho ` {x \<in> X. hll_index x = i}))"

definition hll_of :: "string set \<Rightarrow> hll" where
  "hll_of X = map (contribution X) [0..<HLL_REGISTERS]"

lemma zeros_loop_le: "n \<le> 50 \<Longrightarrow> zeros_loop fuel w n \<le> 50"
  by (induction fuel w n rule: zeros_loop.induct) auto

lemma hll_bounds: "hll_index x < HLL_REGISTERS" "hll_rho x \<le> 51" "0 < hll_rho x"
proof -
  have "hll_hash x AND 0x3FFF = take_bit 14 (hll_hash x)" by (simp add: take_bit_eq_mask mask_eq_exp_minus_1)
  then show "hll_index x < HLL_REGISTERS"
    using take_bit_nat_less_exp [of 14 "unat (hll_hash x)"] by (simp add: hll_index_def HLL_REGISTERS_def unsigned_take_bit_eq)
qed (use zeros_loop_le [of 0] in \<open>simp_all add: hll_rho_def leading_zeros_after_def\<close>)

lemma length_hll_of [simp]: "length (hll_of X) = HLL_REGISTERS" "length hll_new = HLL_REGISTERS"
  by (simp_all add: hll_of_def hll_new_def)

lemma hll_of_empty: "hll_of {} = hll_new"
  by (intro nth_equalityI) (simp_all add: hll_of_def hll_new_def contribution_def)

lemma contribution_insert:
  "finite X \<Longrightarrow> contribution (insert x X) i = (if hll_index x = i then max (hll_rho x) (contribution X i) else contribution X i)"
proof -
  assume X: "finite X"
  have "{y \<in> insert x X. hll_index y = i} = (if hll_index x = i then insert x {y \<in> X. hll_index y = i} else {y \<in> X. hll_index y = i})" by auto
  then show ?thesis using X by (auto simp: contribution_def insert_commute [of 0] max.left_commute)
qed

lemma contribution_Un:
  "finite X \<Longrightarrow> finite Y \<Longrightarrow> contribution (X \<union> Y) i = max (contribution X i) (contribution Y i)"
  by (induction X rule: finite_induct) (auto simp: contribution_insert contribution_def [of "{}"] max.assoc)

lemma contribution_le: "finite X \<Longrightarrow> contribution X i \<le> 51"
  by (auto simp: contribution_def hll_bounds)

lemma hll_add_of:
  assumes "finite X"
  shows "hll_add (hll_of X) x = (hll_of (insert x X), hll_of (insert x X) \<noteq> hll_of X)"
proof -
  let ?i = "hll_index x"
  have nth: "hll_of X ! i = contribution X i" if "i < HLL_REGISTERS" for X i using that by (simp add: hll_of_def)
  have new: "hll_of (insert x X) = (hll_of X)[?i := max (hll_rho x) (contribution X ?i)]"
    using assms by (intro nth_equalityI) (auto simp: nth nth_list_update contribution_insert)
  show ?thesis
  proof (cases "contribution X ?i < hll_rho x")
    case True
    then show ?thesis using hll_bounds(1) [of x] by (simp add: hll_add_def Let_def new nth list_update_same_conv)
  next
    case False
    then have "hll_of (insert x X) = hll_of X"
      using hll_bounds(1) [of x] list_update_id [of "hll_of X" ?i] by (simp add: new nth max_absorb2)
    then show ?thesis using False hll_bounds(1) [of x] by (simp add: hll_add_def Let_def nth)
  qed
qed

lemma hll_of_between:
  assumes "X \<subseteq> Y" "Y \<subseteq> Z" "finite Z" "hll_of Z = hll_of X"
  shows "hll_of Y = hll_of X"
proof (rule nth_equalityI)
  have fin: "finite X" "finite Y" using assms by (auto intro: finite_subset)
  have "contribution X i \<le> contribution Y i" "contribution Y i \<le> contribution Z i" for i
    using contribution_Un [of Y X i] contribution_Un [of Z Y i] fin assms by (simp_all add: Un_absorb2)
  moreover fix i assume "i < length (hll_of Y)"
  then have "contribution Z i = contribution X i" using arg_cong [OF assms(4), of "\<lambda>h. h ! i"] by (simp add: hll_of_def)
  ultimately show "hll_of Y ! i = hll_of X ! i" using \<open>i < length (hll_of Y)\<close> by (metis antisym length_hll_of(1) hll_of_def nth_map_upt diff_zero add_0)
qed simp

lemma add_all_of: "finite X \<Longrightarrow> add_all xs (hll_of X) = (hll_of (X \<union> set xs), hll_of (X \<union> set xs) \<noteq> hll_of X)"
proof -
  have "foldl (\<lambda>(h, changed) x. let (h', b) = hll_add h x in (h', if b then True else changed)) (hll_of X, b) xs
      = (hll_of (X \<union> set xs), b \<or> hll_of (X \<union> set xs) \<noteq> hll_of X)" if "finite X" for b
    using that
  proof (induction xs arbitrary: X b)
    case (Cons x xs)
    have "hll_of (insert x X) = hll_of X" if "hll_of (insert x (X \<union> set xs)) = hll_of X"
      using hll_of_between [of X "insert x X" "insert x (X \<union> set xs)"] that Cons.prems by auto
    then show ?case using Cons by (auto simp: hll_add_of)
  qed simp
  then show "finite X \<Longrightarrow> ?thesis" by (simp add: add_all_def)
qed

lemma hll_merge_of: "finite X \<Longrightarrow> finite Y \<Longrightarrow> hll_merge (hll_of X) (hll_of Y) = hll_of (X \<union> Y)"
proof -
  assume fin: "finite X" "finite Y"
  have "(if o' ! i > h ! i then h[i := o' ! i] else h) = h[i := max (h ! i) (o' ! i)]" for h o' :: hll and i
    by (simp add: max_def)
  then have "hll_merge (hll_of X) (hll_of Y) = map (\<lambda>i. max (hll_of X ! i) (hll_of Y ! i)) [0..<HLL_REGISTERS]"
    using foldl_update_nth [of HLL_REGISTERS "hll_of X" "\<lambda>b i. max b (hll_of Y ! i)"] by (simp add: hll_merge_def)
  also have "\<dots> = hll_of (X \<union> Y)" using fin by (auto simp: hll_of_def contribution_Un)
  finally show ?thesis .
qed

lemma decode_encode: "length h = HLL_REGISTERS \<Longrightarrow> \<forall>r\<in>set h. r < 256 \<Longrightarrow> decode_hll (encode_hll h) = h"
  by (simp add: decode_hll_def encode_hll_def HLL_MAGIC_def comp_def map_idI)

lemma decode_hll_of: "finite X \<Longrightarrow> decode_hll (encode_hll (hll_of X)) = hll_of X"
  using contribution_le by (intro decode_encode) (fastforce simp: hll_of_def le_less_trans [of _ 51])+

section \<open>Properties\<close>

text \<open>A key that counts a finite set of elements: a missing key counts the empty set.\<close>

definition counts_set :: "clock \<Rightarrow> store \<Rightarrow> string \<Rightarrow> string set \<Rightarrow> bool" where
  "counts_set c st k X \<longleftrightarrow> finite X \<and> (case live c st k of None \<Rightarrow> X = {} | Some v \<Rightarrow> v = FString (encode_hll (hll_of X)))"

lemma merge_keys_of:
  assumes ok: "store_ok st" and X: "finite X" and ks: "\<forall>k\<in>set ks. counts_set c st k (F k)"
  shows "merge_keys c st ks (hll_of X) = Ok (hll_of (X \<union> (\<Union>k\<in>set ks. F k)))"
  using X ks
proof (induction ks arbitrary: X)
  case (Cons k ks)
  have F: "finite (F k)" "counts_set c st k (F k)" using Cons.prems by (auto simp: counts_set_def)
  have "read_value c as_string st k (Ok (hll_of X)) (\<lambda>s. Ok (hll_merge (hll_of X) (decode_hll s))) = Ok (hll_of (X \<union> F k))"
    using F Cons.prems(1)
    by (auto simp: read_value_live [OF ok] counts_set_def as_string_def decode_hll_of hll_merge_of split: option.splits)
  then show ?case using Cons.IH [of "X \<union> F k"] Cons.prems F by (simp add: Un_assoc)
qed simp

text \<open>C26: \<open>PFADD\<close> to a key that counts the set \<open>X\<close> makes it count \<open>X\<close> with the new elements, whatever
  their order and multiplicity, and replies whether that changed the counter; no other key changes.\<close>

theorem pfadd_counts_union:
  assumes ok: "store_ok st" and fr: "fresh c st" and X: "counts_set c st k X"
  shows "\<exists>st'. store_pfadd c st k xs = (st', Ok (hll_of (X \<union> set xs) \<noteq> hll_of X))
    \<and> counts_set c st' k (X \<union> set xs) \<and> (\<forall>k'. k' \<noteq> k \<longrightarrow> live c st' k' = live c st k')"
proof -
  have fin: "finite X" using X by (simp add: counts_set_def)
  have new: "add_all xs hll_new = (hll_of (set xs), hll_of (set xs) \<noteq> hll_new)" using add_all_of [of "{}" xs] by (simp add: hll_of_empty)
  let ?act = "\<lambda>s. let (h, changed) = add_all xs (decode_hll s) in (if changed then encode_hll h else s, Ok changed)"
  note up = strings.upsert_fresh [OF ok fr, of k "renew (FString (encode_hll (hll_of (set xs)))) (Ok (hll_of (set xs) \<noteq> hll_new))" ?act
      "FString (encode_hll (hll_of (set xs)))" "Ok (hll_of (set xs) \<noteq> hll_new)"]
  have act: "?act (encode_hll (hll_of X)) = (encode_hll (hll_of (X \<union> set xs)), Ok (hll_of (X \<union> set xs) \<noteq> hll_of X))"
    using fin by (simp add: decode_hll_of add_all_of)
  obtain st' r where r: "store_pfadd c st k xs = (st', r)" by fastforce
  have "r = Ok (hll_of (X \<union> set xs) \<noteq> hll_of X)" "live c st' = (live c st)(k \<mapsto> FString (encode_hll (hll_of (X \<union> set xs))))"
    using up(1,2) X act r by (auto simp: store_pfadd_def new sv_string_def counts_set_def hll_of_empty as_string_def Let_def split: option.splits)
  then show ?thesis using r fin by (auto simp: counts_set_def)
qed

theorem pfadd_counts_union_witness:
  "snd (store_pfadd \<lparr>unix_ms_cache = 0, system_ms = 2, instant_ns = 0\<rparr> (store_with_config (\<lambda>_. 3) 2 10) ''h'' [])
    = Ok False"
  using pfadd_counts_union [of "store_with_config (\<lambda>_. 3) 2 10" "\<lparr>unix_ms_cache = 0, system_ms = 2, instant_ns = 0\<rparr>" "''h''" "{}" "[]"]
  by (auto simp: counts_set_def live_def)



text \<open>\<open>PFADD\<close> on a key that holds a string which is not a counter replaces the string.\<close>

lemma pfadd_replaces_string:
  assumes ok: "store_ok st" and fr: "fresh c st" and live: "live c st k = Some (FString s)" and s: "length s < 4" and x: "hll_of (set xs) \<noteq> hll_new"
  shows "live c (fst (store_pfadd c st k xs)) k = Some (FString (encode_hll (hll_of (set xs))))"
proof -
  have new: "add_all xs hll_new = (hll_of (set xs), hll_of (set xs) \<noteq> hll_new)" using add_all_of [of "{}" xs] by (simp add: hll_of_empty)
  have "decode_hll s = hll_new" using s by (simp add: decode_hll_def)
  then show ?thesis using live x by (simp add: store_pfadd_def new sv_string_def as_string_def strings.upsert_fresh(2) [OF ok fr] Let_def)
qed

end
