(* ===== verification/Rdb.thy ===== *)
theory Rdb
  imports Store_ZSet Scan
begin

text \<open>
  Snapshots (\<open>src/src/storage/rdb.rs\<close>): the bytes that \<open>save\<close> writes for the live keys of a store, the
  temporary file it writes them to, and the reader of \<open>load\<close>.  A reader takes the unread bytes and
  returns a value with the bytes after it, or an error; it never returns more bytes than it was
  given, which ends the loop of \<open>load\<close>.  The background thread only calls \<open>save\<close> again and again.
\<close>

section \<open>Writing\<close>

definition MAGIC :: string where "MAGIC = ''FLDB''"
definition VERSION :: nat where "VERSION = 2"
definition TYPE_EOF :: nat where "TYPE_EOF = 255"
definition MAX_LOAD_STRING :: nat where "MAX_LOAD_STRING = 512 * 1024 * 1024"

definition write_u8 :: "nat \<Rightarrow> string" where "write_u8 n = le_bytes 1 n"
definition write_u32 :: "nat \<Rightarrow> string" where "write_u32 n = le_bytes 4 n"
definition write_u64 :: "u64 \<Rightarrow> string" where "write_u64 w = le_bytes 8 (unat w)"
definition write_bytes :: "string \<Rightarrow> string" where "write_bytes s = write_u32 (length s) @ s"

definition write_pair :: "string \<times> string \<Rightarrow> string" where
  "write_pair = (\<lambda>(f, v). write_bytes f @ write_bytes v)"

definition write_entry :: "zentry \<Rightarrow> string" where
  "write_entry e = write_bytes (zmember e) @ write_u64 (zscore e)"

definition write_stream_entry :: "stream_id \<times> (string \<times> string) list \<Rightarrow> string" where
  "write_stream_entry = (\<lambda>(i, fs). write_u64 (ms i) @ write_u64 (seq i) @ write_u32 (length fs) @ concat (map write_pair fs))"

type_synonym pairs_order = "(string \<times> string) list \<Rightarrow> (string \<times> string) list"

fun type_byte :: "fyrodb \<Rightarrow> nat" where
  "type_byte (FString s) = 0" | "type_byte (FHash h) = 1" | "type_byte (FList l) = 2" | "type_byte (FSet s) = 3"
| "type_byte (FZSet z) = 4" | "type_byte (FJson j) = 5" | "type_byte (FStream s) = 6"

fun write_body :: "pairs_order \<Rightarrow> (string list \<Rightarrow> string list) \<Rightarrow> fyrodb \<Rightarrow> string" where
  "write_body po mo (FString s) = write_bytes s"
| "write_body po mo (FHash h) = write_u32 (hash_len h) @ concat (map write_pair (hash_iter po h))"
| "write_body po mo (FList l) = write_u32 (length (deque l)) @ concat (map write_bytes (deque l))"
| "write_body po mo (FSet s) = write_u32 (set_len s) @ concat (map write_bytes (set_iter mo s))"
| "write_body po mo (FZSet z) = write_u32 (zset_len z) @ concat (map write_entry (zset_iter z))"
| "write_body po mo (FJson j) = write_bytes j"
| "write_body po mo (FStream s) = write_u32 (length (stream_entries s)) @ concat (map write_stream_entry (stream_entries s))"

definition write_record :: "pairs_order \<Rightarrow> (string list \<Rightarrow> string list) \<Rightarrow> string \<times> store_value \<Rightarrow> string" where
  "write_record po mo = (\<lambda>(k, sv). write_u8 (type_byte (val sv)) @ write_u64 (expires_ms sv) @ write_bytes k @ write_body po mo (val sv))"

text \<open>The slots of all shards in order, without vacant and expired ones.\<close>

definition saved_slot :: "clock \<Rightarrow> store \<Rightarrow> nat \<times> nat \<Rightarrow> (string \<times> store_value) option" where
  "saved_slot c st = (\<lambda>(sh, i). case cm_peek_slot (sdata st) sh i of
      Some (Some (k, sv)) \<Rightarrow> if is_expired c sv then None else Some (k, sv) | _ \<Rightarrow> None)"

definition saved_records :: "clock \<Rightarrow> store \<Rightarrow> (string \<times> store_value) list" where
  "saved_records c st = List.map_filter (saved_slot c st)
     (concat (map (\<lambda>sh. map (Pair sh) [0..<slot_count (sdata st) sh]) [0..<cm_shard_count (sdata st)]))"

definition rdb_image :: "pairs_order \<Rightarrow> (string list \<Rightarrow> string list) \<Rightarrow> clock \<Rightarrow> store \<Rightarrow> string" where
  "rdb_image po mo c st = MAGIC @ write_u8 VERSION @ concat (map (write_record po mo) (saved_records c st)) @ write_u8 TYPE_EOF"

text \<open>Where the operating system lets \<open>save\<close> down, if it does; a failed write leaves some of the bytes.\<close>

datatype io_outcome = Io_Ok | Fail_Create | Fail_Write nat | Fail_Sync | Fail_Rename

type_synonym files = "string \<Rightarrow> string option"

definition rdb_save ::
  "io_outcome \<Rightarrow> pairs_order \<Rightarrow> (string list \<Rightarrow> string list) \<Rightarrow> clock \<Rightarrow> store \<Rightarrow> string \<Rightarrow> files \<Rightarrow> files \<times> bool" where
  "rdb_save out po mo c st path fs =
     (let tmp = path @ ''.tmp''; image = rdb_image po mo c st in
      case out of
        Fail_Create \<Rightarrow> (fs, False)
      | Fail_Write n \<Rightarrow> (fs(tmp \<mapsto> take n image), False)
      | Fail_Sync \<Rightarrow> (fs(tmp \<mapsto> image), False)
      | Fail_Rename \<Rightarrow> (fs(tmp \<mapsto> image), False)
      | Io_Ok \<Rightarrow> ((fs(tmp \<mapsto> image))(tmp := None, path \<mapsto> image), True))"

section \<open>Reading\<close>

datatype io_err = UnexpectedEof | InvalidData string

type_synonym 'a reader = "string \<Rightarrow> io_err + 'a \<times> string"

definition r_return :: "'a \<Rightarrow> 'a reader" where
  "r_return x = (\<lambda>s. Inr (x, s))"

definition r_fail :: "string \<Rightarrow> 'a reader" where
  "r_fail msg = (\<lambda>s. Inl (InvalidData msg))"

definition r_bind :: "'a reader \<Rightarrow> ('a \<Rightarrow> 'b reader) \<Rightarrow> 'b reader" where
  "r_bind p f = (\<lambda>s. case p s of Inl e \<Rightarrow> Inl e | Inr (x, r) \<Rightarrow> f x r)"

definition read_exact :: "nat \<Rightarrow> string reader" where
  "read_exact n = (\<lambda>s. if length s < n then Inl UnexpectedEof else Inr (take n s, drop n s))"

definition read_u8 :: "nat reader" where
  "read_u8 = r_bind (read_exact 1) (\<lambda>b. r_return (of_le_bytes b))"

definition read_u32 :: "nat reader" where
  "read_u32 = r_bind (read_exact 4) (\<lambda>b. r_return (of_le_bytes b))"

definition read_u64 :: "u64 reader" where
  "read_u64 = r_bind (read_exact 8) (\<lambda>b. r_return (of_nat (of_le_bytes b)))"

definition read_string_bounded :: "string reader" where
  "read_string_bounded = r_bind read_u32 (\<lambda>n.
     if n > MAX_LOAD_STRING then r_fail ''string length exceeds maximum in RDB''
     else r_bind (read_exact n) (\<lambda>s. if valid_utf8 s then r_return s else r_fail ''invalid utf8''))"

function skip_bytes :: "nat \<Rightarrow> unit reader" where
  "skip_bytes remaining = (if remaining = 0 then r_return ()
     else r_bind (read_exact (min remaining 8192)) (\<lambda>_. skip_bytes (remaining - min remaining 8192)))"
  by auto
termination by (relation "measure id") auto

declare skip_bytes.simps [simp del]

definition skip_string :: "unit reader" where
  "skip_string = r_bind read_u32 skip_bytes"

primrec read_many :: "nat \<Rightarrow> 'a reader \<Rightarrow> 'a list reader" where
  "read_many 0 p = r_return []"
| "read_many (Suc n) p = r_bind p (\<lambda>x. r_bind (read_many n p) (\<lambda>xs. r_return (x # xs)))"

definition read_pair :: "(string \<times> string) reader" where
  "read_pair = r_bind read_string_bounded (\<lambda>f. r_bind read_string_bounded (\<lambda>v. r_return (f, v)))"

definition skip_pair :: "unit reader" where
  "skip_pair = r_bind skip_string (\<lambda>_. skip_string)"

definition skip_stream_entry :: "unit reader" where
  "skip_stream_entry = r_bind read_u64 (\<lambda>_. r_bind read_u64 (\<lambda>_. r_bind read_u32 (\<lambda>n.
     r_bind (read_many n skip_pair) (\<lambda>_. r_return ()))))"

definition skip_counted :: "unit reader \<Rightarrow> unit reader" where
  "skip_counted p = r_bind read_u32 (\<lambda>n. r_bind (read_many n p) (\<lambda>_. r_return ()))"

definition skip_body :: "nat \<Rightarrow> unit reader" where
  "skip_body tb =
     (if tb = 0 then skip_string
      else if tb = 1 then skip_counted skip_pair
      else if tb = 2 \<or> tb = 3 then skip_counted skip_string
      else if tb = 4 then skip_counted (r_bind skip_string (\<lambda>_. r_bind read_u64 (\<lambda>_. r_return ())))
      else if tb = 5 then skip_string
      else if tb = 6 then skip_counted skip_stream_entry
      else r_fail ''unknown type byte in RDB'')"

definition read_counted :: "string \<Rightarrow> 'a reader \<Rightarrow> 'a list reader" where
  "read_counted msg p = r_bind read_u32 (\<lambda>n. if n > 10000000 then r_fail msg else read_many n p)"

definition read_entry :: "(string \<times> f64) reader" where
  "read_entry = r_bind read_string_bounded (\<lambda>m. r_bind read_u64 (\<lambda>s. r_return (m, s)))"

definition read_stream_entry :: "(stream_id \<times> (string \<times> string) list) reader" where
  "read_stream_entry = r_bind read_u64 (\<lambda>m. r_bind read_u64 (\<lambda>s. r_bind read_u32 (\<lambda>n.
     r_bind (read_many n read_pair) (\<lambda>fs. r_return (Stream_Id m s, fs)))))"

definition hash_from :: "(string \<times> string) list \<Rightarrow> hash_inner" where
  "hash_from ps = HFull (foldl (\<lambda>h (f, v). AList.update f v h) [] ps)"

definition zset_from :: "(string \<times> f64) list \<Rightarrow> zset" where
  "zset_from ps = foldl (\<lambda>z (m, s). fst (zset_insert z s m)) zset_new ps"

definition stream_from :: "(stream_id \<times> (string \<times> string) list) list \<Rightarrow> stream_data" where
  "stream_from es = foldl (\<lambda>s (i, fs). s\<lparr>stream_entries := bt_insert i fs (stream_entries s), last_id := i\<rparr>) stream_new es"

definition hs_from :: "string list \<Rightarrow> string list" where
  "hs_from xs = foldl (\<lambda>acc x. if x \<in> set acc then acc else acc @ [x]) [] xs"

text \<open>The set is collected in a \<open>HashSet\<close> first, whose order decides the order of insertion.\<close>

definition read_body :: "(string list \<Rightarrow> string list) \<Rightarrow> nat \<Rightarrow> fyrodb reader" where
  "read_body mo tb =
     (if tb = 0 then r_bind read_string_bounded (\<lambda>s. r_return (FString s))
      else if tb = 1 then r_bind (read_counted ''hash field count too large'' read_pair) (\<lambda>ps. r_return (FHash (hash_from ps)))
      else if tb = 2 then r_bind (read_counted ''list length too large'' read_string_bounded) (\<lambda>xs. r_return (FList (LFull xs)))
      else if tb = 3 then r_bind (read_counted ''set size too large'' read_string_bounded) (\<lambda>xs. r_return (FSet (set_from_strings (mo (hs_from xs)))))
      else if tb = 4 then r_bind (read_counted ''zset size too large'' read_entry) (\<lambda>ps. r_return (FZSet (zset_from ps)))
      else if tb = 5 then r_bind read_string_bounded (\<lambda>s. r_return (FJson s))
      else if tb = 6 then r_bind (read_counted ''stream too large'' read_stream_entry) (\<lambda>es. r_return (FStream (stream_from es)))
      else r_fail ''unknown type byte'')"

definition read_record :: "(string list \<Rightarrow> string list) \<Rightarrow> u64 \<Rightarrow> nat \<Rightarrow> (string \<times> store_value) option reader" where
  "read_record mo now tb = r_bind read_u64 (\<lambda>ttl. r_bind read_string_bounded (\<lambda>k.
     if ttl \<noteq> 0 \<and> ttl \<le> now then r_bind (skip_body tb) (\<lambda>_. r_return None)
     else r_bind (read_body mo tb) (\<lambda>v. r_return (Some (k, \<lparr>val = v, expires_ms = ttl\<rparr>)))))"

text \<open>A reader consumes: what is left is no longer than what was there.\<close>

definition consumes :: "'a reader \<Rightarrow> bool" where
  "consumes p \<longleftrightarrow> (\<forall>s x r. p s = Inr (x, r) \<longrightarrow> length r \<le> length s)"

lemma consumes_basic: "consumes (r_return x)" "consumes (r_fail msg)" "consumes (read_exact n)"
  by (auto simp: consumes_def r_return_def r_fail_def read_exact_def)

lemma consumes_bind: "consumes p \<Longrightarrow> (\<And>x. consumes (f x)) \<Longrightarrow> consumes (r_bind p f)"
  unfolding consumes_def r_bind_def by (fastforce split: sum.splits prod.splits intro: order_trans)

lemma consumes_if: "consumes p \<Longrightarrow> consumes q \<Longrightarrow> consumes (if b then p else q)"
  by simp

lemma consumes_many: "consumes p \<Longrightarrow> consumes (read_many n p)"
  by (induction n) (auto intro: consumes_basic consumes_bind)

lemma consumes_skip_bytes: "consumes (skip_bytes n)"
proof (induction n rule: skip_bytes.induct)
  case (1 n)
  then show ?case by (subst skip_bytes.simps) (auto intro: consumes_basic consumes_bind)
qed

lemmas consumes_intros = consumes_basic consumes_bind consumes_if consumes_many consumes_skip_bytes

lemmas reader_defs = read_u8_def read_u32_def read_u64_def read_string_bounded_def skip_string_def read_pair_def skip_pair_def
  skip_stream_entry_def skip_counted_def skip_body_def read_counted_def read_entry_def read_stream_entry_def read_body_def read_record_def

lemma consumes_record: "consumes (read_record mo now tb)"
  unfolding reader_defs by (intro consumes_intros)

lemma read_u8_shorter: "read_u8 s = Inr (b, r) \<Longrightarrow> length r < length s"
  by (auto simp: read_u8_def r_bind_def r_return_def read_exact_def split: if_splits)

function load_loop :: "(string list \<Rightarrow> string list) \<Rightarrow> u64 \<Rightarrow> store \<Rightarrow> nat \<Rightarrow> string \<Rightarrow> store \<times> (io_err + nat)" where
  "load_loop mo now st n s = (case read_u8 s of
      Inl UnexpectedEof \<Rightarrow> (st, Inr n)
    | Inl e \<Rightarrow> (st, Inl e)
    | Inr (tb, r) \<Rightarrow> if tb = TYPE_EOF then (st, Inr n)
        else (case read_record mo now tb r of
            Inl e \<Rightarrow> (st, Inl e)
          | Inr (None, r') \<Rightarrow> load_loop mo now st n r'
          | Inr (Some (k, sv), r') \<Rightarrow> load_loop mo now (put_key st k sv) (n + 1) r'))"
  by pat_completeness auto

termination
  using consumes_record read_u8_shorter
  by (relation "measure (\<lambda>(mo, now, st, n, s). length s)") (fastforce simp: consumes_def)+

declare load_loop.simps [simp del]

definition rdb_load :: "(string list \<Rightarrow> string list) \<Rightarrow> clock \<Rightarrow> store \<Rightarrow> string option \<Rightarrow> store \<times> (io_err + nat)" where
  "rdb_load mo c st file = (case file of
      None \<Rightarrow> (st, Inr 0)
    | Some s \<Rightarrow> if length s < 6 then (st, Inl (InvalidData ''RDB file too short''))
        else (case read_exact 4 s of
            Inl e \<Rightarrow> (st, Inl e)
          | Inr (magic, r) \<Rightarrow> if magic \<noteq> MAGIC then (st, Inl (InvalidData ''invalid RDB magic''))
              else (case read_u8 r of
                  Inl e \<Rightarrow> (st, Inl e)
                | Inr (version, r') \<Rightarrow> if version > VERSION then (st, Inl (InvalidData ''unsupported RDB version''))
                    else load_loop mo (now_ms c) st 0 r')))"

section \<open>What is written is read back\<close>

text \<open>A reader reads bytes as a value, whatever follows them.\<close>

definition reads :: "'a reader \<Rightarrow> string \<Rightarrow> 'a \<Rightarrow> bool" where
  "reads p bs x \<longleftrightarrow> (\<forall>r. p (bs @ r) = Inr (x, r))"

lemma reads_return: "reads (r_return x) [] x"
  by (simp add: reads_def r_return_def)

lemma reads_bind: "reads p as x \<Longrightarrow> reads (f x) bs y \<Longrightarrow> reads (r_bind p f) (as @ bs) y"
  by (simp add: reads_def r_bind_def)

lemma reads_map: "reads p as x \<Longrightarrow> reads (r_bind p (\<lambda>x. r_return (g x))) as (g x)"
  using reads_bind [of p as x "\<lambda>x. r_return (g x)" "[]"] by (simp add: reads_return)

lemma reads_exact: "n = length s \<Longrightarrow> reads (read_exact n) s s"
  by (simp add: reads_def read_exact_def)

lemma reads_ints:
  "n < 256 \<Longrightarrow> reads read_u8 (write_u8 n) n" "n < 2 ^ 32 \<Longrightarrow> reads read_u32 (write_u32 n) n" "reads read_u64 (write_u64 w) w"
proof -
  have "of_le_bytes (le_bytes 8 (unat w)) = unat w" using unsigned_less [of w, where ?'a = nat] by (simp add: of_le_bytes_le_bytes)
  then show "reads read_u64 (write_u64 w) w"
    using reads_map [OF reads_exact [of 8 "le_bytes 8 (unat w)"], of "\<lambda>b. of_nat (of_le_bytes b) :: u64"]
    by (simp add: read_u64_def write_u64_def)
  show "n < 256 \<Longrightarrow> reads read_u8 (write_u8 n) n"
    using reads_map [OF reads_exact [of 1 "le_bytes 1 n"], of of_le_bytes] unfolding read_u8_def write_u8_def of_le_bytes_le_bytes by simp
  show "n < 2 ^ 32 \<Longrightarrow> reads read_u32 (write_u32 n) n"
    using reads_map [OF reads_exact [of 4 "le_bytes 4 n"], of of_le_bytes] unfolding read_u32_def write_u32_def of_le_bytes_le_bytes by simp
qed

definition text_ok :: "string \<Rightarrow> bool" where
  "text_ok s \<longleftrightarrow> length s \<le> MAX_LOAD_STRING \<and> valid_utf8 s"

lemma reads_string: "text_ok s \<Longrightarrow> reads read_string_bounded (write_bytes s) s"
  unfolding read_string_bounded_def write_bytes_def text_ok_def
  by (rule reads_bind [OF reads_ints(2)])
    (auto simp: MAX_LOAD_STRING_def reads_def r_bind_def r_return_def read_exact_def)

lemma reads_many: "(\<And>x. x \<in> set xs \<Longrightarrow> reads p (enc x) (dec x)) \<Longrightarrow> reads (read_many (length xs) p) (concat (map enc xs)) (map dec xs)"
proof (induction xs)
  case (Cons x xs)
  then have "reads p (enc x) (dec x)" "reads (read_many (length xs) p) (concat (map enc xs)) (map dec xs)" by simp_all
  then show ?case by (simp add: reads_bind reads_map)
qed (simp add: reads_return)

lemma reads_counted:
  assumes "n = length xs" "n \<le> 10000000" "\<And>x. x \<in> set xs \<Longrightarrow> reads p (enc x) (dec x)"
  shows "reads (read_counted msg p) (write_u32 n @ concat (map enc xs)) (map dec xs)"
  unfolding read_counted_def using assms by (intro reads_bind [OF reads_ints(2)]) (simp_all add: reads_many)

lemma reads_pair: "text_ok (fst q) \<Longrightarrow> text_ok (snd q) \<Longrightarrow> reads read_pair (write_pair q) q"
  unfolding read_pair_def write_pair_def case_prod_beta
  using reads_map [OF reads_string, of "snd q" "Pair (fst q)"] by (intro reads_bind [OF reads_string]) simp_all

lemma reads_entry: "text_ok (zmember e) \<Longrightarrow> reads read_entry (write_entry e) (zmember e, zscore e)"
  unfolding read_entry_def write_entry_def by (intro reads_bind [OF reads_string] reads_map [OF reads_ints(3)])

definition pair_ok :: "string \<times> string \<Rightarrow> bool" where
  "pair_ok q \<longleftrightarrow> text_ok (fst q) \<and> text_ok (snd q)"

lemma reads_stream_entry:
  assumes "length (snd e) < 2 ^ 32" "\<forall>q\<in>set (snd e). pair_ok q"
  shows "reads read_stream_entry (write_stream_entry e) e"
proof -
  have "reads (read_many (length (snd e)) read_pair) (concat (map write_pair (snd e))) (map id (snd e))"
    using assms(2) by (intro reads_many) (simp add: reads_pair pair_ok_def)
  then have "reads (r_bind (read_many (length (snd e)) read_pair) (\<lambda>fs. r_return (Stream_Id (ms (fst e)) (seq (fst e)), fs)))
      (concat (map write_pair (snd e))) (Stream_Id (ms (fst e)) (seq (fst e)), snd e)"
    using reads_map by fastforce
  then show ?thesis unfolding read_stream_entry_def write_stream_entry_def case_prod_beta
    by (intro reads_bind [OF reads_ints(3)] reads_bind [OF reads_ints(2) [OF assms(1)]]) simp
qed

section \<open>The values read back\<close>

text \<open>The values that a snapshot can hold: strings are text, collections are well formed and not too
  large.\<close>

fun saveable :: "fyrodb \<Rightarrow> bool" where
  "saveable (FString s) = text_ok s"
| "saveable (FHash h) \<longleftrightarrow> hash_wf h \<and> hash_len h \<le> 10000000 \<and> (\<forall>q\<in>set (hash_pairs h). pair_ok q)"
| "saveable (FList l) \<longleftrightarrow> length (deque l) \<le> 10000000 \<and> (\<forall>x\<in>set (deque l). text_ok x)"
| "saveable (FSet s) \<longleftrightarrow> set_wf s \<and> set_len s \<le> 10000000 \<and> (\<forall>x\<in>set_elems s. text_ok x)"
| "saveable (FZSet z) \<longleftrightarrow> zset_wf z \<and> zset_len z \<le> 10000000 \<and> (\<forall>e\<in>set (entries z). text_ok (zmember e))"
| "saveable (FJson j) = text_ok j"
| "saveable (FStream s) \<longleftrightarrow> stream_wf s \<and> length (stream_entries s) \<le> 10000000
     \<and> (\<forall>e\<in>set (stream_entries s). length (snd e) < 2 ^ 32 \<and> (\<forall>q\<in>set (snd e). pair_ok q))"

text \<open>What a loaded value has in common with the saved one: the contents, but neither the consumer
  groups of a stream nor its last identifier when that entry is gone.\<close>

fun restores :: "fyrodb \<Rightarrow> fyrodb \<Rightarrow> bool" where
  "restores (FString s) w \<longleftrightarrow> w = FString s"
| "restores (FHash h) w \<longleftrightarrow> (\<exists>h'. w = FHash h' \<and> hash_wf h' \<and> hash_map h' = hash_map h)"
| "restores (FList l) w \<longleftrightarrow> (\<exists>l'. w = FList l' \<and> deque l' = deque l)"
| "restores (FSet s) w \<longleftrightarrow> (\<exists>s'. w = FSet s' \<and> set_wf s' \<and> set_elems s' = set_elems s)"
| "restores (FZSet z) w \<longleftrightarrow> (\<exists>z'. w = FZSet z' \<and> zset_wf z' \<and> entries z' = entries z)"
| "restores (FJson j) w \<longleftrightarrow> w = FJson j"
| "restores (FStream s) w \<longleftrightarrow> w = FStream \<lparr>stream_entries = stream_entries s,
     last_id = (if stream_entries s = [] then Stream_Id 0 0 else fst (last (stream_entries s))), groups = []\<rparr>"

lemma hash_from_ok: "hash_wf (hash_from ps)" "distinct (map fst ps) \<Longrightarrow> hash_map (hash_from ps) = map_of ps"
proof -
  have upd: "distinct (map fst h) \<Longrightarrow> distinct (map fst (foldl (\<lambda>h (f, v). AList.update f v h) h ps))
      \<and> map_of (foldl (\<lambda>h (f, v). AList.update f v h) h ps) = map_of h ++ map_of (rev ps)" for h
  proof (induction ps arbitrary: h)
    case (Cons q ps)
    then show ?case by (cases q) (simp add: AList.distinct_update AList.update_conv' map_add_upd_left [symmetric] map_add_def fun_eq_iff split: option.split)
  qed simp
  from upd [of "[]"] show "hash_wf (hash_from ps)" by (simp add: hash_from_def hash_wf_def hash_pairs_def)
  show "hash_map (hash_from ps) = map_of ps" if d: "distinct (map fst ps)"
    using upd [of "[]"] map_of_cong_mset [of "rev ps" ps] d by (simp add: hash_from_def hash_map_def hash_pairs_def rev_map [symmetric])
qed

lemma hs_from_ok: "distinct (hs_from xs)" "set (hs_from xs) = set xs"
proof -
  have "distinct acc \<Longrightarrow> distinct (foldl (\<lambda>acc x. if x \<in> set acc then acc else acc @ [x]) acc xs)
    \<and> set (foldl (\<lambda>acc x. if x \<in> set acc then acc else acc @ [x]) acc xs) = set acc \<union> set xs" for acc
    by (induction xs arbitrary: acc) auto
  from this [of "[]"] show "distinct (hs_from xs)" "set (hs_from xs) = set xs" by (simp_all add: hs_from_def)
qed

lemma set_from_strings_ok: "set_wf (set_from_strings xs)" "set_elems (set_from_strings xs) = set xs"
proof -
  have "set_wf s \<Longrightarrow> set_wf (foldl (\<lambda>s v. fst (set_insert s v)) s xs)
    \<and> set_elems (foldl (\<lambda>s v. fst (set_insert s v)) s xs) = set_elems s \<union> set xs" for s
    by (induction xs arbitrary: s) (auto simp: set_insert_ok)
  from this [of set_new] show "set_wf (set_from_strings xs)" "set_elems (set_from_strings xs) = set xs"
    by (simp_all add: set_from_strings_def set_new_def)
qed

lemma stream_from_sorted:
  assumes "sorted_wrt (<) (map fst es)"
  shows "stream_from es = \<lparr>stream_entries = es, last_id = (if es = [] then Stream_Id 0 0 else fst (last es)), groups = []\<rparr>"
  using assms
proof (induction es rule: rev_induct)
  case (snoc e es)
  have "bt_insert (fst e) (snd e) es = es @ [e]" using bt_insert_last [of es "fst e" "snd e"] snoc.prems by (simp add: sorted_wrt_append)
  moreover have "stream_from (es @ [e]) = (stream_from es)\<lparr>stream_entries := bt_insert (fst e) (snd e) (stream_entries (stream_from es)), last_id := fst e\<rparr>"
    by (simp add: stream_from_def case_prod_beta)
  ultimately show ?case using snoc by (simp add: sorted_wrt_append)
qed (simp add: stream_from_def stream_new_def)

lemma zset_from_ok:
  assumes "entries_ok es"
  shows "zset_wf (zset_from (map (\<lambda>e. (zmember e, zscore e)) es))" "entries (zset_from (map (\<lambda>e. (zmember e, zscore e)) es)) = es"
proof -
  have "zset_wf (zset_from (map (\<lambda>e. (zmember e, zscore e)) es)) \<and> entries (zset_from (map (\<lambda>e. (zmember e, zscore e)) es)) = es"
    using assms
  proof (induction es rule: rev_induct)
    case (snoc e es)
    let ?z = "zset_from (map (\<lambda>e. (zmember e, zscore e)) es)"
    have ok: "entries_ok es" "\<not> f_is_nan (zscore e)" and new: "scores es (zmember e) = None"
      using snoc.prems by (auto simp: entries_ok_def sorted_wrt_append scores_None)
    from snoc.IH [OF ok(1)] have IH: "zset_wf ?z" "entries ?z = es" by simp_all
    have eq: "zset_from (map (\<lambda>e. (zmember e, zscore e)) (es @ [e])) = fst (zset_insert ?z (zscore e) (zmember e))" by (simp add: zset_from_def)
    have sc: "scores (es @ [e]) = (scores es)(zmember e \<mapsto> zscore e)"
      using snoc.prems new by (auto simp: scores_def map_add_def fun_eq_iff entries_ok_def split: option.split)
    from zset_insert_updates [OF IH(1) ok(2), of "zmember e"] new IH(2)
    have "zset_wf (fst (zset_insert ?z (zscore e) (zmember e)))" "scores (entries (fst (zset_insert ?z (zscore e) (zmember e)))) = scores (es @ [e])"
      by (simp_all add: update_score_def sc)
    then show ?case unfolding eq using entries_unique [OF _ snoc.prems] by (simp add: zset_wf_def)
  qed (simp add: zset_from_def, simp add: zset_new_def)
  then show "zset_wf (zset_from (map (\<lambda>e. (zmember e, zscore e)) es))" "entries (zset_from (map (\<lambda>e. (zmember e, zscore e)) es)) = es" by simp_all
qed

lemma hash_iter_set: "iteration_order ord \<Longrightarrow> set (hash_iter ord h) = set (hash_pairs h)"
  using mset_eq_setD [OF iteration_order_mset [of ord]] by (cases h) (simp_all add: hash_iter_def hash_pairs_def)

lemma set_len_iter: "set_wf s \<Longrightarrow> iteration_order ord \<Longrightarrow> set_len s = length (set_iter ord s)"
  using set_len_card [of s] set_iter_ok [of s ord] distinct_card [of "set_iter ord s"] by simp

lemma reads_body:
  assumes ok: "saveable v" and ord: "iteration_order po" "iteration_order mo" "iteration_order mo'"
  obtains w where "reads (read_body mo' (type_byte v)) (write_body po mo v) w" "restores v w"
proof (cases v)
  case (FHash h)
  let ?ps = "hash_iter po h"
  have h: "hash_wf h" "hash_len h \<le> 10000000" "\<forall>q\<in>set (hash_pairs h). pair_ok q" using ok FHash by simp_all
  have "reads (read_counted msg read_pair) (write_u32 (hash_len h) @ concat (map write_pair ?ps)) (map id ?ps)" for msg
    using h hash_iter_ok(5) [OF h(1) ord(1)] hash_iter_set [OF ord(1)] by (intro reads_counted) (simp_all add: reads_pair pair_ok_def)
  from reads_map [OF this, where g = "\<lambda>ps. FHash (hash_from ps)"]
  show ?thesis using that [of "FHash (hash_from ?ps)"] FHash hash_from_ok [of ?ps] hash_iter_ok [OF h(1) ord(1)] by (simp add: read_body_def)
next
  case (FList l)
  have "reads (read_counted msg read_string_bounded) (write_u32 (length (deque l)) @ concat (map write_bytes (deque l))) (map id (deque l))" for msg
    using ok FList by (intro reads_counted) (simp_all add: reads_string)
  from reads_map [OF this, where g = "\<lambda>xs. FList (LFull xs)"]
  show ?thesis using that [of "FList (LFull (deque l))"] FList by (simp add: read_body_def deque_def)
next
  case (FSet s)
  let ?xs = "set_iter mo s"
  have s: "set_wf s" "set_len s \<le> 10000000" "\<forall>x\<in>set_elems s. text_ok x" using ok FSet by simp_all
  have "reads (read_counted msg read_string_bounded) (write_u32 (set_len s) @ concat (map write_bytes ?xs)) (map id ?xs)" for msg
    using s set_len_iter [OF s(1) ord(2)] set_iter_ok [OF s(1) ord(2)] by (intro reads_counted) (simp_all add: reads_string)
  from reads_map [OF this, where g = "\<lambda>xs. FSet (set_from_strings (mo' (hs_from xs)))"]
  show ?thesis using that [of "FSet (set_from_strings (mo' (hs_from ?xs)))"] FSet set_iter_ok [OF s(1) ord(2)]
      set_from_strings_ok [of "mo' (hs_from ?xs)"] hs_from_ok [of ?xs] mset_eq_setD [OF iteration_order_mset [OF ord(3)]]
    by (simp add: read_body_def)
next
  case (FZSet z)
  have z: "zset_wf z" "zset_len z \<le> 10000000" "\<forall>e\<in>set (entries z). text_ok (zmember e)" using ok FZSet by simp_all
  have "reads (read_counted msg read_entry) (write_u32 (zset_len z) @ concat (map write_entry (entries z))) (map (\<lambda>e. (zmember e, zscore e)) (entries z))" for msg
    using z by (intro reads_counted) (simp_all add: reads_entry zset_len_def)
  from reads_map [OF this, where g = "\<lambda>ps. FZSet (zset_from ps)"]
  show ?thesis using that [of "FZSet (zset_from (map (\<lambda>e. (zmember e, zscore e)) (entries z)))"] FZSet zset_from_ok [of "entries z"] z(1)
    by (simp add: read_body_def zset_iter_def zset_wf_def)
next
  case (FStream s)
  let ?es = "stream_entries s"
  have s: "stream_wf s" "length ?es \<le> 10000000" "\<forall>e\<in>set ?es. length (snd e) < 2 ^ 32 \<and> (\<forall>q\<in>set (snd e). pair_ok q)" using ok FStream by simp_all
  have "reads (read_counted msg read_stream_entry) (write_u32 (length ?es) @ concat (map write_stream_entry ?es)) (map id ?es)" for msg
    using s by (intro reads_counted) (simp_all add: reads_stream_entry)
  from reads_map [OF this, where g = "\<lambda>es. FStream (stream_from es)"]
  show ?thesis using that [of "FStream (stream_from ?es)"] FStream s(1) stream_from_sorted [of ?es]
    by (simp add: read_body_def stream_wf_def bt_wf_def)
next
  case (FString s)
  then show ?thesis using that [of "FString s"] ok reads_map [OF reads_string, of s FString] by (simp add: read_body_def)
next
  case (FJson j)
  then show ?thesis using that [of "FJson j"] ok reads_map [OF reads_string, of j FJson] by (simp add: read_body_def)
qed

section \<open>Properties\<close>

definition restores_sv :: "store_value \<Rightarrow> store_value \<Rightarrow> bool" where
  "restores_sv sv sv' \<longleftrightarrow> expires_ms sv' = expires_ms sv \<and> restores (val sv) (val sv')"

text \<open>A record can be saved, and has not expired when it is loaded.\<close>

definition record_ok :: "u64 \<Rightarrow> string \<times> store_value \<Rightarrow> bool" where
  "record_ok now = (\<lambda>(k, sv). text_ok k \<and> saveable (val sv) \<and> (expires_ms sv = 0 \<or> now < expires_ms sv))"

lemma reads_record:
  assumes "record_ok now (k, sv)" and ord: "iteration_order po" "iteration_order mo" "iteration_order mo'"
  obtains sv' where "reads (read_record mo' now (type_byte (val sv))) (write_u64 (expires_ms sv) @ write_bytes k @ write_body po mo (val sv)) (Some (k, sv'))"
    "restores_sv sv sv'"
proof -
  have ok: "text_ok k" "saveable (val sv)" "\<not> (expires_ms sv \<noteq> 0 \<and> expires_ms sv \<le> now)" using assms(1) by (auto simp: record_ok_def)
  obtain w where w: "reads (read_body mo' (type_byte (val sv))) (write_body po mo (val sv)) w" "restores (val sv) w"
    using reads_body [OF ok(2) ord] .
  have "reads (read_record mo' now (type_byte (val sv))) (write_u64 (expires_ms sv) @ write_bytes k @ write_body po mo (val sv))
      (Some (k, \<lparr>val = w, expires_ms = expires_ms sv\<rparr>))"
    unfolding read_record_def using ok reads_map [OF w(1), of "\<lambda>v. Some (k, \<lparr>val = v, expires_ms = expires_ms sv\<rparr>)"]
    by (intro reads_bind [OF reads_ints(3)] reads_bind [OF reads_string]) auto
  then show thesis using that w(2) by (simp add: restores_sv_def)
qed

lemma type_byte_le: "type_byte v < 256" "type_byte v \<noteq> TYPE_EOF"
  by (cases v; simp add: TYPE_EOF_def)+

lemma load_records:
  assumes ord: "iteration_order po" "iteration_order mo" "iteration_order mo'"
    and "store_ok st" "distinct (map fst rs)" "list_all (record_ok now) rs"
  shows "\<exists>st'. load_loop mo' now st n (concat (map (write_record po mo) rs) @ write_u8 TYPE_EOF) = (st', Inr (n + length rs)) \<and> store_ok st'
    \<and> (\<forall>k. case map_of rs k of None \<Rightarrow> db st' k = db st k | Some sv \<Rightarrow> \<exists>sv'. db st' k = Some sv' \<and> restores_sv sv sv')"
  using assms(4-)
proof (induction rs arbitrary: st n)
  case Nil
  have "read_u8 (write_u8 TYPE_EOF @ []) = Inr (TYPE_EOF, [])" using reads_ints(1) [of TYPE_EOF] by (simp only: reads_def TYPE_EOF_def)
  then show ?case using Nil by (simp add: load_loop.simps)
next
  case (Cons q rs)
  obtain k sv where q: "q = (k, sv)" by fastforce
  let ?rest = "concat (map (write_record po mo) rs) @ write_u8 TYPE_EOF"
  obtain sv' where sv': "reads (read_record mo' now (type_byte (val sv))) (write_u64 (expires_ms sv) @ write_bytes k @ write_body po mo (val sv)) (Some (k, sv'))"
    "restores_sv sv sv'"
    using reads_record [OF _ ord, of now k sv] Cons.prems(3) q by auto
  have "read_u8 (write_u8 (type_byte (val sv)) @ r) = Inr (type_byte (val sv), r)" for r
    using reads_ints(1) [OF type_byte_le(1)] by (simp add: reads_def)
  then have step: "load_loop mo' now st n (write_record po mo q @ ?rest) = load_loop mo' now (put_key st k sv') (n + 1) ?rest"
    using sv'(1) type_byte_le(2) [of "val sv"] by (simp add: load_loop.simps [of _ _ _ _ "_ @ _"] q write_record_def reads_def)
  have ok: "store_ok (put_key st k sv')" "db (put_key st k sv') = (db st)(k \<mapsto> sv')" using put_key_laws [OF Cons.prems(1)] by simp_all
  obtain st' where st': "load_loop mo' now (put_key st k sv') (n + 1) ?rest = (st', Inr (n + 1 + length rs))" "store_ok st'"
    "\<forall>k'. case map_of rs k' of None \<Rightarrow> db st' k' = db (put_key st k sv') k' | Some sv \<Rightarrow> \<exists>sv'. db st' k' = Some sv' \<and> restores_sv sv sv'"
    using Cons.IH [OF ok(1), of "n + 1"] Cons.prems(2,3) by auto
  have "map_of rs k = None" using Cons.prems(2) by (simp add: q map_of_eq_None_iff)
  then have "case map_of (q # rs) k' of None \<Rightarrow> db st' k' = db st k' | Some sv \<Rightarrow> \<exists>sv'. db st' k' = Some sv' \<and> restores_sv sv sv'" for k'
    using st'(3) [rule_format, of k'] sv'(2) by (auto simp: q ok(2) split: option.splits if_splits)
  then show ?case using st'(1,2) step by simp
qed

lemma saved_records_pairs: "store_ok st \<Longrightarrow> saved_records c st = filter (\<lambda>(k, sv). \<not> is_expired c sv) (all_pairs (sdata st))"
proof -
  assume ok: "store_ok st"
  have "saved_records c st = List.map_filter (\<lambda>(k, sv). if is_expired c sv then None else Some (k, sv)) (all_pairs (sdata st))"
    unfolding saved_records_def
    by (rule slots_all_pairs [OF ok]) (auto simp: saved_slot_def peek_slot_pair [OF ok] split: option.split)
  also have "List.map_filter (\<lambda>(k, sv). if is_expired c sv then None else Some (k, sv)) ps = filter (\<lambda>(k, sv). \<not> is_expired c sv) ps" for ps
    by (induction ps) (auto simp: map_filter_Cons map_filter_Nil)
  finally show ?thesis .
qed





text \<open>A string that is not text, such as a bitmap with its first bit set, can be saved; loading stops at it
  with an error, and the keys after it are lost.\<close>

lemma load_stops_at_binary:
  assumes "text_ok k" "length s \<le> MAX_LOAD_STRING" "\<not> valid_utf8 s" "expires_ms sv = 0" "val sv = FString s"
  shows "load_loop mo' now st n (write_record po mo (k, sv) @ rest) = (st, Inl (InvalidData ''invalid utf8''))"
proof -
  have u8: "read_u8 (write_u8 0 @ r) = Inr (0, r)" and u64: "read_u64 (write_u64 0 @ r) = Inr (0, r)"
    and u32: "read_u32 (write_u32 (length s) @ r) = Inr (length s, r)" and key: "read_string_bounded (write_bytes k @ r) = Inr (k, r)" for r
    using reads_ints(1) [of 0] reads_ints(3) [of 0] reads_ints(2) [of "length s"] reads_string [OF assms(1)] assms(2)
    by (simp_all add: reads_def MAX_LOAD_STRING_def)
  have "read_string_bounded (write_bytes s @ rest) = Inl (InvalidData ''invalid utf8'')"
    using assms(2,3) u32 by (simp add: read_string_bounded_def write_bytes_def r_bind_def r_fail_def read_exact_def)
  then show ?thesis using assms(4,5) u8 u64 key
    by (simp add: load_loop.simps write_record_def TYPE_EOF_def read_record_def read_body_def r_bind_def)
qed

text \<open>Loading does not count the keys with an expiry, so that the clean-up of expired keys does not run for
  them.\<close>

lemma load_counts_no_ttl: "ttl_count (fst (load_loop mo now st n s)) = ttl_count st"
proof (induction mo now st n s rule: load_loop.induct)
  case (1 mo now st n s)
  then show ?case by (subst load_loop.simps) (auto split: sum.split io_err.split option.split)
qed

end
