(* ===== verification/Spec2Isabelle.thy ===== *)
theory Spec2Isabelle
  imports Small_Str Scan Store_List Store_Hash Store_Set ZSet_Algebra Store_Stream Store_Bitmap Store_Hll Rdb
begin

text \<open>
  A verification development for FyroDB, a key-value server in Rust that speaks the Redis protocol.

  \<^bold>\<open>The program and its parts.\<close>  A worker thread reads bytes of a connection into a read buffer, from which
  a parser takes one command at a time (\<open>src/src/utils/parser.rs\<close>).  The command layer
  (\<open>src/src/handler\<close>, \<open>src/src/commends\<close>) checks the arguments, calls an operation of the store
  (\<open>src/src/storage\<close>) and writes a reply (\<open>src/src/utils/resp.rs\<close>).  The store keeps its values in a
  sharded hash map with open addressing (\<open>src/crates/customhash\<close>); a value has one of seven kinds and
  possibly an expiry, and its keys and short strings are packed into sixteen bytes.  A snapshot of the
  store is written to a file and read back at start.

  \<^bold>\<open>The theories.\<close>
  \<^item> \<open>Prelude\<close> holds the types and generic lemmas, and the locales \<open>guarded_simulation\<close> and \<open>simulation\<close>: steps
    that agree with a specification under an abstraction give the same replies on every sequence of
    operations.  \<open>Rust_Std\<close> models what is used of the standard library: decimal numbers, binary search,
    UTF-8, integers as bytes and ordered maps.
  \<^item> \<open>Resp\<close> is the writers of \<open>resp.rs\<close> and the parser of \<open>parser.rs\<close>.  A pointer into the read buffer is an
    offset, and a panic is \<open>None\<close>.  A written command is read back, a strict prefix of one is incomplete,
    and the inputs that make the parser panic are characterised.
  \<^item> \<open>Shard\<close> and \<open>Custom_Map\<close> are the tables, entries with their state words, probing, growth, insertion,
    removal and compaction of \<open>shard.rs\<close>, \<open>lib.rs\<close> and \<open>ops.rs\<close>.  Operations refine those of a partial
    function, for any hash function; the probe loop and the retry loop of insertion end.
  \<^item> \<open>Small_Str\<close> is the packed strings of \<open>small_str.rs\<close> and \<open>key.rs\<close> over an explicit heap.
  \<^item> \<open>Collections\<close> is \<open>collections.rs\<close>: hashes, sets and lists refine partial functions, sets and sequences
    through every change of representation.  \<open>ZSet_Data\<close> is \<open>zset_data.rs\<close> with its bloom filter, over
    \<open>F64\<close>, the double precision numbers as bit patterns; \<open>F64_Text\<close> prints and parses them and \<open>F64_Math\<close>
    divides them.  \<open>Stream_Data\<close> is the first part of \<open>stream.rs\<close>.
  \<^item> \<open>Values\<close> is the kinds of value, the clock and expiry of \<open>value/mod.rs\<close>.  \<open>Store\<close> is the record of
    \<open>store.rs\<close> with the shapes that its operations share: update in place or answer a default, update or
    insert, read.  The locale \<open>value_kind\<close>, declared in \<open>Values\<close> and interpreted there for each kind, gives
    their laws for one kind of value.  \<open>Typed_Store\<close> adds the locale \<open>typed_view\<close>, in which a command that treats an absent key, a value
    of its kind and any other value by a rule takes part in a simulation.
  \<^item> \<open>Keyspace\<close> is \<open>keys.rs\<close> and \<open>server.rs\<close>, \<open>Scan\<close> is \<open>scan.rs\<close>, and \<open>Glob\<close> the matcher of \<open>util.rs\<close>.
  \<^item> \<open>Store_String\<close> (with \<open>Lcs\<close>), \<open>Store_List\<close>, \<open>Store_Hash\<close>, \<open>Store_Set\<close>, \<open>Store_ZSet\<close> (with \<open>ZSet_Algebra\<close>),
    \<open>Store_Stream\<close>, \<open>Store_Bitmap\<close> and \<open>Store_Hll\<close> are the commands of the files of the same names.  For
    lists, hashes, sets, sorted sets and bitmaps, any sequence of the commands in the theory's datatype of
    commands replies as a specification on lists, partial functions, sets, score maps or bits does, from
    a store without expired keys; the fields of one \<open>HSET\<close> are distinct there.  Strings, streams and
    HyperLogLog counters have theorems on single commands and short compositions of them.
  \<^item> \<open>Rdb\<close> is \<open>rdb.rs\<close>: what is saved is loaded, and saving replaces the file in one step.
  This theory has the properties that span the kinds of value.

  \<^bold>\<open>Conventions.\<close>  Strings and byte vectors are lists of characters.  A fallible operation returns a sum
  with the error message on the left; a panic, which aborts the program, is \<open>None\<close>.  64-bit unsigned numbers
  that may wrap are words; signed ones are integers with their bounds written out; sizes are natural
  numbers.  The hash function is a field of the map.  The iteration order of the standard hash tables is an
  argument that permutes its list, and results hold for every such order.  The clock is a record that an
  operation takes as an argument.  The natural logarithm, whose precision the standard library
  leaves open, is an argument.

  \<^bold>\<open>Bounds and fuel.\<close>  Most loops are structural or have a termination proof.  With fuel are the matcher of
  \<open>Glob\<close>, whose bound is shown to be enough for inputs without a star, the insertion loop of \<open>Shard\<close>, the
  count of zero bits in \<open>Store_Hll\<close>, which the code itself stops at fifty, and the client of \<open>Scan\<close>, for which
  a number of calls larger than the number of slots is enough.  Three loops are partial functions:
  \<open>store_setrange\<close> and \<open>upsert_retry\<close>, which try again when another thread was faster, are shown to return;
  \<open>distinct_draws\<close>, which draws pseudo-random positions until enough are distinct, is not: no result about
  \<open>zrandmember\<close> with distinct members is claimed.    The tables of the longest common subsequence keep their
  16-bit cells, so its theorem asks for operands shorter than two to the sixteenth.  Scores of sorted sets are
  not NaN in the refinement of their commands, increments are finite, and the bounds of a range of scores are in order.

  \<^bold>\<open>Not modelled.\<close>  Operations run one after the other: the insertion gate, the growth lock and the spinning of
  the entry lock in \<open>shard.rs\<close> and the epoch-based reclamation of \<open>ebr.rs\<close> order threads and memory, not
  contents.  The event loop, connections and threads (\<open>worker.rs\<close>, \<open>main.rs\<close>, \<open>handler/conn.rs\<close>) and the allocator
  crate are input, output and system calls.  The argument handling of the command layer (\<open>src/src/commends\<close>,
  \<open>handler/dispatch.rs\<close>), publish and subscribe (\<open>src/src/pubsub\<close>, \<open>handler/subscription.rs\<close>), JSON documents
  (\<open>json.rs\<close>, \<open>json_value.rs\<close>; a stored document is its text), geographic commands (\<open>geo.rs\<close>) and the writers of the third protocol version
  (\<open>resp3.rs\<close>) are not covered yet.
\<close>

section \<open>Kinds of value\<close>

text \<open>A command that is refused because of the kind of the value, and has changed nothing.\<close>

definition rejected :: "store \<Rightarrow> store \<times> 'a res \<Rightarrow> bool" where
  "rejected st res \<longleftrightarrow> snd res = Err WRONGTYPE \<and> db (fst res) = db st"

text \<open>C9: each of the commands below, on a live key of another kind, replies \<open>WRONGTYPE\<close> and changes no key: lists, hashes, sets,
  sorted sets, streams, bitmaps and HyperLogLog counters, whether the command would add to the value, remove
  from it or read it.\<close>

theorem wrong_type_rejected:
  assumes ok: "store_ok st" and v: "live c st k = Some v"
  shows "(as_list v = None \<longrightarrow> rejected st (store_lpush c st k xs) \<and> rejected st (store_rpush c st k xs) \<and> rejected st (store_lpop c st k n)
      \<and> rejected st (store_ltrim c st k i j) \<and> store_llen c st k = Err WRONGTYPE \<and> store_lrange c st k i j = Err WRONGTYPE)
    \<and> (as_hash v = None \<longrightarrow> rejected st (store_hset c st k fs) \<and> rejected st (store_hsetnx c st k f x) \<and> rejected st (store_hdel po c st k xs)
      \<and> store_hget c st k f = Err WRONGTYPE \<and> store_hlen c st k = Err WRONGTYPE)
    \<and> (as_set v = None \<longrightarrow> rejected st (store_sadd c st k xs) \<and> rejected st (store_srem mo c st k xs) \<and> rejected st (store_spop mo c st k n)
      \<and> store_sismember c st k x = Err WRONGTYPE \<and> store_scard c st k = Err WRONGTYPE)
    \<and> (as_zset v = None \<longrightarrow> rejected st (store_zadd c st k ps fl) \<and> rejected st (store_zrem c st k xs) \<and> rejected st (store_zincrby c st k s x)
      \<and> rejected st (store_zpopmin c st k n) \<and> store_zscore c st k x = Err WRONGTYPE \<and> store_zcard c st k = Err WRONGTYPE)
    \<and> (as_stream v = None \<longrightarrow> rejected st (store_xadd c st k ''*'' fs maxlen nomk) \<and> rejected st (store_xdel c st k xs) \<and> rejected st (store_xtrim c st k n)
      \<and> store_xlen c st k = Err WRONGTYPE)
    \<and> (as_string v = None \<longrightarrow> rejected st (store_setbit c st k p b) \<and> rejected st (store_pfadd c st k xs) \<and> store_getbit c st k p = Err WRONGTYPE)"
    (is "?list \<and> ?hash \<and> ?set \<and> ?zset \<and> ?stream \<and> ?string")
proof (intro conjI)
  note laws = wrong_kind_laws [OF ok v]
  show ?list by (simp add: rejected_def store_lpush_def store_rpush_def store_lpop_def store_ltrim_def store_llen_def store_lrange_def Let_def laws)
  show ?hash by (simp add: rejected_def store_hset_def store_hsetnx_def store_hdel_def store_hget_def store_hlen_def Let_def laws)
  show ?set by (simp add: rejected_def store_sadd_def store_srem_def store_spop_def store_sismember_def store_scard_def case_prod_beta laws)
  show ?zset by (simp add: rejected_def store_zadd_def store_zrem_def store_zincrby_def store_zpopmin_def store_zpop_def store_zscore_def store_zcard_def Let_def laws)
  show ?stream by (simp add: rejected_def store_xadd_def store_xdel_def store_xtrim_def store_xlen_def Let_def case_prod_beta laws)
  show ?string by (simp add: rejected_def store_setbit_def store_pfadd_def store_getbit_def Let_def case_prod_beta laws)
qed

theorem wrong_type_rejected_witness:
  "rejected (put_key (store_with_config (\<lambda>_. 3) 2 10) ''l'' (sv_plain (FList (LCompact [''a'']))))
     (store_sadd \<lparr>unix_ms_cache = 0, system_ms = 2, instant_ns = 0\<rparr>
       (put_key (store_with_config (\<lambda>_. 3) 2 10) ''l'' (sv_plain (FList (LCompact [''a''])))) ''l'' [''x''])"
proof -
  let ?c = "\<lparr>unix_ms_cache = 0, system_ms = 2, instant_ns = 0\<rparr>"
  define st where "st = put_key (store_with_config (\<lambda>_. 3) 2 10) ''l'' (sv_plain (FList (LCompact [''a''])))"
  have "store_ok st" "live ?c st ''l'' = Some (FList (LCompact [''a'']))" by (simp_all add: st_def put_key_laws live_def)
  moreover have "as_set (FList (LCompact [''a''])) = None" by (simp add: as_set_def)
  ultimately have "rejected st (store_sadd ?c st ''l'' [''x''])" using wrong_type_rejected [of st ?c "''l''" "FList (LCompact [''a''])"] by blast
  then show ?thesis by (simp only: st_def)
qed

end
